(* ===== verification/Prelude.thy ===== *)
theory Prelude
  imports Main "HOL-Library.Word" "HOL-Library.Monad_Syntax"
begin

text \<open>
  Shared vocabulary of the development: the C integer types at their width (an LP64
  target: \<^verbatim>\<open>int\<close> has 32 bits, \<^verbatim>\<open>size_t\<close>, \<^verbatim>\<open>ssize_t\<close> and \<^verbatim>\<open>loff_t\<close> have 64), the C
  conversions between them, array reads that fault out of range, and the generic lemmas
  on lists and words the components use.  A C expression whose evaluation the language
  leaves undefined (an access out of range, a use of freed memory) or that never returns
  is the value \<open>None\<close> of an \<open>option\<close>.
\<close>

section \<open>Integer types\<close>

type_synonym byte = "8 word"
type_synonym uint8 = "8 word"
type_synonym uint32 = "32 word"
type_synonym int32 = "32 word"
type_synonym size_t = "64 word"
type_synonym ssize_t = "64 word"
type_synonym loff_t = "64 word"

text \<open>
  Conversions.  Signed types are words read through \<open>sint\<close>: widening a signed \<^verbatim>\<open>int\<close>
  extends its sign, widening an unsigned integer adds zeros, and narrowing keeps the low
  bits (what GCC documents for the signed case too).
\<close>

abbreviation int_to_size :: "int32 \<Rightarrow> size_t" where
  "int_to_size \<equiv> scast"

abbreviation size_to_int :: "size_t \<Rightarrow> int32" where
  "size_to_int \<equiv> ucast"

abbreviation uint_to_size :: "uint32 \<Rightarrow> size_t" where
  "uint_to_size \<equiv> ucast"

abbreviation size_to_uint :: "size_t \<Rightarrow> uint32" where
  "size_to_uint \<equiv> ucast"

section \<open>Error numbers\<close>

definition EINTR :: nat where "EINTR = 4"
definition ENOMEM :: nat where "ENOMEM = 12"
definition EFAULT :: nat where "EFAULT = 14"
definition EINVAL :: nat where "EINVAL = 22"
definition ERESTARTSYS :: nat where "ERESTARTSYS = 512"

lemmas errno_defs = EINTR_def ENOMEM_def EFAULT_def EINVAL_def ERESTARTSYS_def

section \<open>Proof automation\<close>

named_theorems ring_simps \<open>index arithmetic of the circular buffer\<close>
named_theorems heap_simps \<open>reads and writes of the block heap\<close>
named_theorems abs_simps \<open>how the abstraction functions see the operations\<close>

section \<open>Array reads\<close>

definition nth_opt :: "'a list \<Rightarrow> nat \<Rightarrow> 'a option" where
  "nth_opt xs i = (if i < length xs then Some (xs ! i) else None)"

lemma nth_opt_in [simp]: "i < length xs \<Longrightarrow> nth_opt xs i = Some (xs ! i)"
  by (simp add: nth_opt_def)

lemma nth_opt_Some_iff: "nth_opt xs i = Some x \<longleftrightarrow> i < length xs \<and> x = xs ! i"
  by (auto simp: nth_opt_def)

definition upd_opt :: "'a list \<Rightarrow> nat \<Rightarrow> 'a \<Rightarrow> 'a list option" where
  "upd_opt xs i x = (if i < length xs then Some (xs[i := x]) else None)"

lemma upd_opt_in [simp]: "i < length xs \<Longrightarrow> upd_opt xs i x = Some (xs[i := x])"
  by (simp add: upd_opt_def)

section \<open>Folds that may fault\<close>

fun fold_opt :: "('a \<Rightarrow> 's \<Rightarrow> 's option) \<Rightarrow> 'a list \<Rightarrow> 's \<Rightarrow> 's option" where
  "fold_opt f [] s = Some s"
| "fold_opt f (x # xs) s = do { s' \<leftarrow> f x s; fold_opt f xs s' }"

section \<open>Lists\<close>

lemma map_upt_Suc_front: "map f [0..<Suc n] = f 0 # map (\<lambda>i. f (Suc i)) [0..<n]"
proof -
  have "[0..<Suc n] = 0 # map Suc [0..<n]"
    by (simp add: map_Suc_upt upt_conv_Cons del: upt_Suc)
  then show ?thesis by (simp only: list.map map_map comp_def)
qed

lemma sum_list_take_mono:
  fixes xs :: "nat list"
  assumes "i \<le> j"
  shows "sum_list (take i xs) \<le> sum_list (take j xs)"
proof -
  have "take j xs = take i xs @ take (j - i) (drop i xs)"
    using assms by (metis le_add_diff_inverse take_add)
  then show ?thesis by simp
qed

lemma sum_list_bound:
  fixes xs :: "nat list"
  assumes "\<And>x. x \<in> set xs \<Longrightarrow> x \<le> m"
  shows "sum_list xs \<le> length xs * m"
  using assms by (induction xs) (auto intro: add_mono)

section \<open>Words\<close>

lemma ucast_eq_iff_mod:
  "(ucast (x :: 64 word) :: 32 word) = ucast y \<longleftrightarrow> unat x mod 2 ^ 32 = unat y mod 2 ^ 32"
  by (simp add: word_unat_eq_iff unsigned_ucast_eq take_bit_eq_mod)

lemma sint_nonneg:
  assumes "unat (w :: 32 word) < 2 ^ 31"
  shows "sint w = int (unat w)"
proof -
  have "int (unat w) < int (2 ^ 31)" using assms by (simp only: of_nat_less_iff)
  then have "uint w < 2 ^ 31" by simp
  moreover have "0 \<le> uint w" by simp
  ultimately have "signed_take_bit 31 (uint w) = uint w"
    by (intro signed_take_bit_int_eq_self) linarith+
  then show ?thesis by (simp add: sint_uint)
qed

lemma unat_ucast_32_64: "unat (ucast (w :: 32 word) :: 64 word) = unat w"
  using unsigned_less [of w, where 'a = nat] by (simp add: unsigned_ucast_eq take_bit_eq_mod)

lemma unat_scast_nonneg:
  assumes "unat (w :: 32 word) < 2 ^ 31"
  shows "unat (scast w :: 64 word) = unat w"
proof -
  have "(scast w :: 64 word) = ucast w"
    by (simp add: scast_eq sint_nonneg [OF assms])
  then show ?thesis by (simp add: unat_ucast_32_64)
qed

lemma unat_ucast_64_32:
  assumes "unat (w :: 64 word) < 2 ^ 32"
  shows "unat (ucast w :: 32 word) = unat w"
  using assms by (simp add: unsigned_ucast_eq take_bit_eq_mod)

lemma scast_ucast_64_32_64: "(ucast (scast (w :: 32 word) :: 64 word) :: 32 word) = w"
  by (rule bit_word_eqI) (simp add: bit_simps)

lemma ucast_down_add: "(ucast (x + y :: 64 word) :: 32 word) = ucast x + ucast y"
  by (simp add: word_unat_eq_iff unsigned_ucast_eq take_bit_eq_mod unat_word_ariths mod_simps mod_mod_cancel)

lemma ucast_down_diff: "(ucast (x - y :: 64 word) :: 32 word) = ucast x - ucast y"
  using ucast_down_add [of "x - y" y] by (simp add: algebra_simps)

lemma ucast_down_of_nat: "(ucast (w :: 64 word) :: 32 word) = of_nat (unat w)"
  by (simp add: word_unat_eq_iff unsigned_ucast_eq take_bit_eq_mod unat_of_nat)

lemma ucast_up_down [simp]: "(ucast (ucast (w :: 32 word) :: 64 word) :: 32 word) = w"
  by (rule bit_word_eqI) (simp add: bit_simps)

lemma unat_of_nat_size: "n < 2 ^ 64 \<Longrightarrow> unat (of_nat n :: size_t) = n"
  by (simp add: unat_of_nat)

lemma size_t_eq_of_natI: "unat (w :: size_t) = n \<Longrightarrow> w = of_nat n"
  by auto

lemma sint_size_nonneg:
  assumes "unat (w :: size_t) < 2 ^ 63"
  shows "0 \<le> sint w" and "sint w = int (unat w)"
proof -
  have "int (unat w) < int (2 ^ 63)" using assms by (simp only: of_nat_less_iff)
  then have "uint w < 2 ^ 63" by simp
  moreover have "0 \<le> uint w" by simp
  ultimately have "signed_take_bit 63 (uint w) = uint w"
    by (intro signed_take_bit_int_eq_self) linarith+
  then show "sint w = int (unat w)" by (simp add: sint_uint)
  then show "0 \<le> sint w" by simp
qed

end
