(* ===== verification/Kernel.thy ===== *)
theory Kernel
  imports Prelude
begin

text \<open>
  The environment of the char driver.  Kernel memory is a heap of blocks, user memory a
  function from addresses to bytes.  The services of the Linux kernel the driver calls are
  not part of the repository: they are the fields of the record \<open>kernel\<close>, an argument of
  every definition that calls one, and what the driver relies on is stated by the
  predicates \<open>kmalloc_ok\<close>, \<open>kfree_ok\<close>, \<open>uaccess_ok\<close>, \<open>mutex_ok\<close> and \<open>llseek_ok\<close>,
  which restate the documentation of these services.  \<open>pool_kernel\<close> is a concrete kernel
  that satisfies all of them.
\<close>

section \<open>Pointers and the block heap\<close>

text \<open>
  A pointer into kernel memory is \<^verbatim>\<open>NULL\<close>, the special pointer \<^verbatim>\<open>kmalloc(0)\<close> returns, or
  the start of an allocated block.  Pointer arithmetic is an offset beside the pointer.
\<close>

datatype ptr = NULL | ZERO_SIZE_PTR | Blk nat

type_synonym heap = "nat \<rightharpoonup> byte list"

fun heap_read :: "heap \<Rightarrow> ptr \<Rightarrow> nat \<Rightarrow> nat \<Rightarrow> byte list option" where
  "heap_read h (Blk a) off n =
     (case h a of
        None \<Rightarrow> None
      | Some bs \<Rightarrow> if off + n \<le> length bs then Some (take n (drop off bs)) else None)"
| "heap_read h NULL off n = (if n = 0 then Some [] else None)"
| "heap_read h ZERO_SIZE_PTR off n = (if n = 0 then Some [] else None)"

fun heap_write :: "heap \<Rightarrow> ptr \<Rightarrow> nat \<Rightarrow> byte list \<Rightarrow> heap option" where
  "heap_write h (Blk a) off cs =
     (case h a of
        None \<Rightarrow> None
      | Some bs \<Rightarrow>
          if off + length cs \<le> length bs
          then Some (h(a \<mapsto> take off bs @ cs @ drop (off + length cs) bs))
          else None)"
| "heap_write h NULL off cs = (if cs = [] then Some h else None)"
| "heap_write h ZERO_SIZE_PTR off cs = (if cs = [] then Some h else None)"

fun heap_byte :: "heap \<Rightarrow> ptr \<Rightarrow> nat \<Rightarrow> byte option" where
  "heap_byte h (Blk a) n = (case h a of None \<Rightarrow> None | Some bs \<Rightarrow> nth_opt bs n)"
| "heap_byte h NULL n = None"
| "heap_byte h ZERO_SIZE_PTR n = None"

text \<open>\<^verbatim>\<open>memcpy(dst + doff, src, n)\<close>.\<close>

definition memcpy :: "heap \<Rightarrow> ptr \<Rightarrow> nat \<Rightarrow> ptr \<Rightarrow> nat \<Rightarrow> heap option" where
  "memcpy h dst doff src n = do { bs \<leftarrow> heap_read h src 0 n; heap_write h dst doff bs }"

text \<open>\<open>points_to h p bs\<close>: the pointer \<open>p\<close> owns a block whose contents are exactly \<open>bs\<close>.\<close>

fun points_to :: "heap \<Rightarrow> ptr \<Rightarrow> byte list \<Rightarrow> bool" where
  "points_to h NULL bs = False"
| "points_to h ZERO_SIZE_PTR bs = (bs = [])"
| "points_to h (Blk a) bs = (h a = Some bs \<and> bs \<noteq> [])"

fun blocks_of :: "ptr \<Rightarrow> nat list" where
  "blocks_of (Blk a) = [a]"
| "blocks_of NULL = []"
| "blocks_of ZERO_SIZE_PTR = []"

section \<open>User memory\<close>

type_synonym uaddr = "64 word"
type_synonym umem = "uaddr \<Rightarrow> byte"

definition uload :: "umem \<Rightarrow> uaddr \<Rightarrow> nat \<Rightarrow> byte list" where
  "uload um a n = map (\<lambda>i. um (a + of_nat i)) [0..<n]"

definition ustore :: "umem \<Rightarrow> uaddr \<Rightarrow> byte list \<Rightarrow> umem" where
  "ustore um a bs = (\<lambda>x. if unat (x - a) < length bs then bs ! unat (x - a) else um x)"

section \<open>Kernel services\<close>

datatype mutex = Unlocked | Locked

text \<open>
  \<^verbatim>\<open>copy_to_user\<close> and \<^verbatim>\<open>copy_from_user\<close> return the number of bytes they could not copy; the
  model of the second also returns the bytes it did copy.  \<^verbatim>\<open>fixed_size_llseek\<close> takes the
  file position and returns its result and the new position.
\<close>

record kernel =
  kmalloc :: "heap \<Rightarrow> size_t \<Rightarrow> ptr \<times> heap"
  kfree :: "heap \<Rightarrow> ptr \<Rightarrow> heap option"
  copy_to_user :: "umem \<Rightarrow> uaddr \<Rightarrow> byte list \<Rightarrow> size_t \<times> umem"
  copy_from_user :: "umem \<Rightarrow> uaddr \<Rightarrow> size_t \<Rightarrow> size_t \<times> byte list"
  mutex_lock_interruptible :: "mutex \<Rightarrow> int32 \<times> mutex"
  mutex_unlock :: "mutex \<Rightarrow> mutex option"
  fixed_size_llseek :: "loff_t \<Rightarrow> loff_t \<Rightarrow> int32 \<Rightarrow> loff_t \<Rightarrow> loff_t \<times> loff_t"
  IOWR :: "byte \<Rightarrow> nat \<Rightarrow> nat \<Rightarrow> uint32"
  MKDEV :: "uint32 \<Rightarrow> uint32 \<Rightarrow> uint32"
  MAJOR :: "uint32 \<Rightarrow> uint32"
  alloc_chrdev_region :: "uint32 \<Rightarrow> int32 \<times> uint32"
  cdev_add :: "uint32 \<Rightarrow> int32"

text \<open>
  \<^verbatim>\<open>KMALLOC_MAX_SIZE\<close>: the kernel never serves a request above \<open>2 ^ 25\<close> bytes
  (\<^verbatim>\<open>KMALLOC_SHIFT_MAX\<close> of \<^verbatim>\<open>linux/slab.h\<close> is at most 25).
\<close>

definition KMALLOC_MAX_SIZE :: nat where "KMALLOC_MAX_SIZE = 2 ^ 25"

definition kmalloc_ok :: "kernel \<Rightarrow> bool" where
  "kmalloc_ok K \<longleftrightarrow>
     (\<forall>h n p h'. kmalloc K h n = (p, h') \<longrightarrow>
        (p = NULL \<and> h' = h) \<or>
        (p = ZERO_SIZE_PTR \<and> n = 0 \<and> h' = h) \<or>
        (\<exists>a bs. p = Blk a \<and> 0 < n \<and> unat n \<le> KMALLOC_MAX_SIZE \<and> h a = None \<and>
                length bs = unat n \<and> h' = h(a \<mapsto> bs)))"

definition kfree_ok :: "kernel \<Rightarrow> bool" where
  "kfree_ok K \<longleftrightarrow>
     (\<forall>h. kfree K h NULL = Some h \<and> kfree K h ZERO_SIZE_PTR = Some h \<and>
        (\<forall>a. kfree K h (Blk a) = (if h a = None then None else Some (h(a := None)))))"

definition uaccess_ok :: "kernel \<Rightarrow> bool" where
  "uaccess_ok K \<longleftrightarrow>
     (\<forall>um a bs k um'. copy_to_user K um a bs = (k, um') \<longrightarrow>
        unat k \<le> length bs \<and> um' = ustore um a (take (length bs - unat k) bs)) \<and>
     (\<forall>um a n k cs. copy_from_user K um a n = (k, cs) \<longrightarrow>
        unat k \<le> unat n \<and> cs = uload um a (unat n - unat k))"

definition mutex_ok :: "kernel \<Rightarrow> bool" where
  "mutex_ok K \<longleftrightarrow>
     (\<forall>m rc m'. mutex_lock_interruptible K m = (rc, m') \<longrightarrow>
        (rc = 0 \<and> m = Unlocked \<and> m' = Locked) \<or> (rc = - of_nat EINTR \<and> m' = m)) \<and>
     mutex_unlock K Locked = Some Unlocked \<and> mutex_unlock K Unlocked = None"

text \<open>
  \<^verbatim>\<open>fixed_size_llseek\<close> moves to \<open>offset\<close> (\<^verbatim>\<open>SEEK_SET\<close>), \<open>f_pos + offset\<close> (\<^verbatim>\<open>SEEK_CUR\<close>; an
  offset of zero only asks for the position) or \<open>size + offset\<close> (\<^verbatim>\<open>SEEK_END\<close>) when the
  target lies between 0 and \<open>size\<close>, and reports \<^verbatim>\<open>-EINVAL\<close> otherwise.
\<close>

definition SEEK_SET :: int32 where "SEEK_SET = 0"
definition SEEK_CUR :: int32 where "SEEK_CUR = 1"
definition SEEK_END :: int32 where "SEEK_END = 2"

definition seek_target :: "loff_t \<Rightarrow> loff_t \<Rightarrow> int32 \<Rightarrow> loff_t \<Rightarrow> int" where
  "seek_target pos off whence sz =
     (if whence = SEEK_SET then sint off
      else if whence = SEEK_CUR then sint pos + sint off
      else sint sz + sint off)"

definition llseek_ok :: "kernel \<Rightarrow> bool" where
  "llseek_ok K \<longleftrightarrow>
     (\<forall>pos off whence sz.
        whence \<in> {SEEK_SET, SEEK_CUR, SEEK_END} \<and> 0 \<le> sint sz \<and>
        \<bar>seek_target pos off whence sz\<bar> < 2 ^ 63 \<longrightarrow>
        fixed_size_llseek K pos off whence sz =
          (if whence = SEEK_CUR \<and> off = 0 then (pos, pos)
           else let t = seek_target pos off whence sz
                in if 0 \<le> t \<and> t \<le> sint sz then (word_of_int t, word_of_int t)
                   else (- of_nat EINVAL, pos)))"

text \<open>An allocated device number is made of its major number and the minor asked for.\<close>

definition chrdev_ok :: "kernel \<Rightarrow> bool" where
  "chrdev_ok K \<longleftrightarrow>
     (\<forall>minor rc d. alloc_chrdev_region K minor = (rc, d) \<and> 0 \<le> sint rc \<and> unat minor < 2 ^ 20 \<longrightarrow>
        MKDEV K (MAJOR K d) minor = d)"

definition kernel_ok :: "kernel \<Rightarrow> bool" where
  "kernel_ok K \<longleftrightarrow> kmalloc_ok K \<and> kfree_ok K \<and> uaccess_ok K \<and> mutex_ok K \<and> llseek_ok K"

section \<open>Facts on the heap and on user memory\<close>

lemma points_to_read [heap_simps]:
  assumes "points_to h p bs" and "off + n \<le> length bs"
  shows "heap_read h p off n = Some (take n (drop off bs))"
  using assms by (cases p) auto

lemma points_to_write_prefix:
  assumes "points_to h p bs" and "length cs \<le> length bs"
  shows "\<exists>h'. heap_write h p 0 cs = Some h' \<and> points_to h' p (cs @ drop (length cs) bs)
              \<and> (\<forall>a. a \<notin> set (blocks_of p) \<longrightarrow> h' a = h a)"
  using assms by (cases p) auto

lemma points_to_write_suffix:
  assumes "points_to h p bs" and "n + length cs = length bs"
  shows "\<exists>h'. heap_write h p n cs = Some h' \<and> points_to h' p (take n bs @ cs)
              \<and> (\<forall>a. a \<notin> set (blocks_of p) \<longrightarrow> h' a = h a)"
  using assms by (cases p) auto

lemma points_to_frame:
  assumes "points_to h p bs" and "\<And>a. a \<in> set (blocks_of p) \<Longrightarrow> h' a = h a"
  shows "points_to h' p bs"
  using assms by (cases p) auto

lemma points_to_byte [heap_simps]:
  assumes "points_to h p bs" and "n < length bs"
  shows "heap_byte h p n = Some (bs ! n)"
  using assms by (cases p) auto

lemma blocks_of_iff: "a \<in> set (blocks_of p) \<longleftrightarrow> p = Blk a"
  by (cases p) auto

lemma length_uload [simp]: "length (uload um a n) = n"
  by (simp add: uload_def)

lemma ustore_Nil [simp]: "ustore um a [] = um"
  by (simp add: ustore_def)

lemma uload_ustore:
  assumes "length bs < 2 ^ 64"
  shows "uload (ustore um a bs) a (length bs) = bs"
proof (rule nth_equalityI)
  fix i assume "i < length (uload (ustore um a bs) a (length bs))"
  then have i: "i < length bs" by simp
  with assms have "unat (of_nat i :: 64 word) = i"
    by (simp add: unat_of_nat)
  with i show "uload (ustore um a bs) a (length bs) ! i = bs ! i"
    by (simp add: uload_def ustore_def)
qed simp

lemma ustore_outside:
  "length bs \<le> unat (x - a) \<Longrightarrow> ustore um a bs x = um x"
  by (simp add: ustore_def)

section \<open>The kernel contract, one call at a time\<close>

lemma kmalloc_cases:
  assumes "kmalloc_ok K" and "kmalloc K h n = (p, h')"
  obtains (null) "p = NULL" "h' = h"
  | (zero) "p = ZERO_SIZE_PTR" "n = 0" "h' = h"
  | (block) a bs where "p = Blk a" "0 < n" "unat n \<le> KMALLOC_MAX_SIZE" "h a = None"
      "length bs = unat n" "h' = h(a \<mapsto> bs)"
  using assms unfolding kmalloc_ok_def by blast

text \<open>A successful allocation is a fresh block of the size asked for, and nothing else changes.\<close>

lemma kmalloc_points_to:
  assumes "kmalloc_ok K" and "kmalloc K h n = (p, h')" and "p \<noteq> NULL"
  obtains bs where "points_to h' p bs" "length bs = unat n" "unat n \<le> KMALLOC_MAX_SIZE"
    "\<And>a. a \<in> set (blocks_of p) \<Longrightarrow> h a = None"
    "\<And>a. a \<notin> set (blocks_of p) \<Longrightarrow> h' a = h a"
  using assms(1,2)
proof (cases rule: kmalloc_cases)
  case null
  with assms show ?thesis by simp
next
  case zero
  then show ?thesis using that [of "[]"] by simp
next
  case (block a bs)
  then have "bs \<noteq> []" by (auto simp: word_less_nat_alt)
  with block show ?thesis using that [of bs] by simp
qed

lemma kfree_points_to:
  assumes "kfree_ok K" and "points_to h p bs"
  obtains h' where "kfree K h p = Some h'"
    "\<And>a. a \<notin> set (blocks_of p) \<Longrightarrow> h' a = h a"
    "\<And>a. a \<in> set (blocks_of p) \<Longrightarrow> h' a = None"
  using assms by (cases p) (auto simp: kfree_ok_def)

lemma mutex_lock_cases:
  assumes "mutex_ok K" and "mutex_lock_interruptible K m = (rc, m')"
  obtains (taken) "rc = 0" "m = Unlocked" "m' = Locked"
  | (interrupted) "rc = - of_nat EINTR" "m' = m"
  using assms unfolding mutex_ok_def by blast

lemma EINTR_nonzero [simp]: "(of_nat EINTR :: int32) \<noteq> 0"
  by (simp add: EINTR_def)

lemma mutex_unlock_ok [simp]:
  assumes "mutex_ok K"
  shows "mutex_unlock K Locked = Some Unlocked"
  using assms by (simp add: mutex_ok_def)

lemma copy_from_user_spec:
  assumes "uaccess_ok K" and "copy_from_user K um a n = (k, cs)"
  shows "unat k \<le> unat n \<and> cs = uload um a (unat n - unat k)"
  using assms by (simp add: uaccess_ok_def)

lemma copy_from_user_all:
  assumes "uaccess_ok K" and "copy_from_user K um a n = (0, cs)"
  shows "cs = uload um a (unat n)"
  using copy_from_user_spec [OF assms] by simp

lemma copy_from_user_length:
  assumes "uaccess_ok K" and "copy_from_user K um a n = (k, cs)"
  shows "length cs \<le> unat n"
  using copy_from_user_spec [OF assms] by simp

lemma copy_to_user_all:
  assumes "uaccess_ok K" and "copy_to_user K um a bs = (0, um')"
  shows "um' = ustore um a bs"
proof -
  have "um' = ustore um a (take (length bs - unat (0 :: size_t)) bs)"
    using assms by (simp only: uaccess_ok_def)
  then show ?thesis by simp
qed

lemma kernel_okD:
  assumes "kernel_ok K"
  shows "kmalloc_ok K" "kfree_ok K" "uaccess_ok K" "mutex_ok K" "llseek_ok K"
  using assms by (simp_all add: kernel_ok_def)

section \<open>Ownership of several blocks\<close>

text \<open>\<open>owns h ps css\<close>: the pointers own pairwise different blocks with the contents \<open>css\<close>.\<close>

definition all_blocks :: "ptr list \<Rightarrow> nat list" where
  "all_blocks ps = concat (map blocks_of ps)"

definition owns :: "heap \<Rightarrow> ptr list \<Rightarrow> byte list list \<Rightarrow> bool" where
  "owns h ps css \<longleftrightarrow> list_all2 (points_to h) ps css \<and> distinct (all_blocks ps)"

lemma all_blocks_simps [simp]:
  "all_blocks [] = []" "all_blocks (p # ps) = blocks_of p @ all_blocks ps"
  "all_blocks (ps @ qs) = all_blocks ps @ all_blocks qs"
  by (simp_all add: all_blocks_def)

lemma distinct_blocks_of [simp]: "distinct (blocks_of p)"
  by (cases p) auto

lemma set_all_blocks: "set (all_blocks ps) = (\<Union>p\<in>set ps. set (blocks_of p))"
  by (simp add: all_blocks_def)

lemma list_all2_points_to_frame:
  assumes "list_all2 (points_to h) ps css" and "\<And>a. a \<in> set (all_blocks ps) \<Longrightarrow> h' a = h a"
  shows "list_all2 (points_to h') ps css"
  using assms
proof (induction rule: list_all2_induct)
  case Nil
  then show ?case by simp
next
  case (Cons p ps cs css)
  then show ?case using points_to_frame [of h p cs h'] by simp
qed

lemma owns_frame:
  assumes "owns h ps css" and "\<And>a. a \<in> set (all_blocks ps) \<Longrightarrow> h' a = h a"
  shows "owns h' ps css"
  using assms list_all2_points_to_frame [of h ps css h'] by (simp add: owns_def)

lemma points_to_allocated:
  "points_to h p cs \<Longrightarrow> a \<in> set (blocks_of p) \<Longrightarrow> h a \<noteq> None"
  by (cases p) auto

lemma owns_allocated:
  assumes "owns h ps css" and "a \<in> set (all_blocks ps)"
  shows "h a \<noteq> None"
proof -
  from assms(1) have "list_all2 (points_to h) ps css" by (simp add: owns_def)
  then show ?thesis using assms(2)
    by (induction rule: list_all2_induct) (auto dest: points_to_allocated)
qed

text \<open>The contents of the block a pointer owns; \<open>owned\<close> pointers own what they point to.\<close>

fun block_of :: "heap \<Rightarrow> ptr \<Rightarrow> byte list" where
  "block_of h (Blk a) = (case h a of None \<Rightarrow> [] | Some bs \<Rightarrow> bs)"
| "block_of h NULL = []"
| "block_of h ZERO_SIZE_PTR = []"

definition owned :: "heap \<Rightarrow> ptr list \<Rightarrow> bool" where
  "owned h ps \<longleftrightarrow> owns h ps (map (block_of h) ps)"

lemma points_to_block_of: "points_to h p bs \<Longrightarrow> block_of h p = bs"
  by (cases p) auto

lemma points_to_not_null: "points_to h p bs \<Longrightarrow> p \<noteq> NULL"
  by auto

lemma block_of_frame: "(\<And>a. a \<in> set (blocks_of p) \<Longrightarrow> h' a = h a) \<Longrightarrow> block_of h' p = block_of h p"
  by (cases p) auto

lemma owned_iff:
  "owned h ps \<longleftrightarrow> (\<forall>p\<in>set ps. points_to h p (block_of h p)) \<and> distinct (all_blocks ps)"
  by (auto simp: owned_def owns_def list_all2_conv_all_nth all_set_conv_all_nth)

lemma owned_append:
  "owned h (ps @ qs) \<longleftrightarrow>
     owned h ps \<and> owned h qs \<and> set (all_blocks ps) \<inter> set (all_blocks qs) = {}"
  by (auto simp: owned_iff)

lemma owned_Cons:
  "owned h (p # ps) \<longleftrightarrow>
     points_to h p (block_of h p) \<and> owned h ps \<and> set (blocks_of p) \<inter> set (all_blocks ps) = {}"
  by (auto simp: owned_iff)

lemma owned_Nil [simp]: "owned h []"
  by (simp add: owned_iff)

lemma owned_frame:
  assumes "owned h ps" and "\<And>a. a \<in> set (all_blocks ps) \<Longrightarrow> h' a = h a"
  shows "owned h' ps" and "map (block_of h') ps = map (block_of h) ps"
proof -
  have "block_of h' p = block_of h p" if "p \<in> set ps" for p
    using that assms(2) by (intro block_of_frame) (auto simp: set_all_blocks)
  then show eq: "map (block_of h') ps = map (block_of h) ps" by simp
  show "owned h' ps"
    using owns_frame [of h ps "map (block_of h) ps" h'] assms unfolding owned_def eq by blast
qed

lemma owned_allocated: "owned h ps \<Longrightarrow> a \<in> set (all_blocks ps) \<Longrightarrow> h a \<noteq> None"
  unfolding owned_def by (rule owns_allocated)

definition kfree_all :: "kernel \<Rightarrow> ptr list \<Rightarrow> heap \<Rightarrow> heap option" where
  "kfree_all K ps h = fold_opt (\<lambda>p h. kfree K h p) ps h"

lemma kfree_all_simps [simp]:
  "kfree_all K [] = Some"
  "kfree_all K (p # ps) h = Option.bind (kfree K h p) (kfree_all K ps)"
  by (simp_all add: kfree_all_def [abs_def] fun_eq_iff)

text \<open>Freeing owned pointers never faults and releases exactly their blocks.\<close>

lemma kfree_all_owned:
  assumes "kfree_ok K" and "owns h ps css"
  shows "\<exists>h'. kfree_all K ps h = Some h' \<and>
              (\<forall>a. h' a = (if a \<in> set (all_blocks ps) then None else h a))"
  using assms(2)
proof (induction ps arbitrary: h css)
  case Nil
  then show ?case by simp
next
  case (Cons p ps)
  from Cons.prems obtain cs css' where p: "points_to h p cs"
    and rest: "list_all2 (points_to h) ps css'"
    and dist: "distinct (all_blocks ps)" "set (blocks_of p) \<inter> set (all_blocks ps) = {}"
    by (auto simp: owns_def list_all2_Cons1)
  obtain h1 where h1: "kfree K h p = Some h1"
    and out: "\<And>a. a \<notin> set (blocks_of p) \<Longrightarrow> h1 a = h a"
    and gone: "\<And>a. a \<in> set (blocks_of p) \<Longrightarrow> h1 a = None"
    using kfree_points_to [OF assms(1) p] by blast
  have "h1 a = h a" if "a \<in> set (all_blocks ps)" for a
    using that dist(2) out by blast
  then have "owns h1 ps css'"
    using rest dist(1) list_all2_points_to_frame [of h ps css' h1] by (simp add: owns_def)
  then obtain h' where h': "kfree_all K ps h1 = Some h'"
    "\<forall>a. h' a = (if a \<in> set (all_blocks ps) then None else h1 a)"
    using Cons.IH by blast
  show ?case
    using h1 h' out gone by auto
qed

section \<open>A concrete kernel\<close>

text \<open>
  A first-fit allocator over a pool of 64 blocks (zero-filled), user copies that always
  succeed and a mutex nobody interrupts.  The failing variants the theorems speak about
  replace one of these fields.
\<close>

definition pool_kmalloc :: "heap \<Rightarrow> size_t \<Rightarrow> ptr \<times> heap" where
  "pool_kmalloc h n =
     (if n = 0 then (ZERO_SIZE_PTR, h)
      else if unat n \<le> KMALLOC_MAX_SIZE
      then (case find (\<lambda>a. h a = None) [0..<64] of
              None \<Rightarrow> (NULL, h)
            | Some a \<Rightarrow> (Blk a, h(a \<mapsto> replicate (unat n) 0)))
      else (NULL, h))"

fun pool_kfree :: "heap \<Rightarrow> ptr \<Rightarrow> heap option" where
  "pool_kfree h (Blk a) = (if h a = None then None else Some (h(a := None)))"
| "pool_kfree h NULL = Some h"
| "pool_kfree h ZERO_SIZE_PTR = Some h"

definition pool_lock :: "mutex \<Rightarrow> int32 \<times> mutex" where
  "pool_lock m = (if m = Unlocked then (0, Locked) else (- of_nat EINTR, m))"

definition pool_unlock :: "mutex \<Rightarrow> mutex option" where
  "pool_unlock m = (if m = Locked then Some Unlocked else None)"

definition pool_llseek :: "loff_t \<Rightarrow> loff_t \<Rightarrow> int32 \<Rightarrow> loff_t \<Rightarrow> loff_t \<times> loff_t" where
  "pool_llseek pos off whence sz =
     (if whence = SEEK_CUR \<and> off = 0 then (pos, pos)
      else let t = seek_target pos off whence sz
           in if 0 \<le> t \<and> t \<le> sint sz then (word_of_int t, word_of_int t)
              else (- of_nat EINVAL, pos))"

definition pool_kernel :: kernel where
  "pool_kernel =
     \<lparr>kmalloc = pool_kmalloc,
      kfree = pool_kfree,
      copy_to_user = (\<lambda>um a bs. (0, ustore um a bs)),
      copy_from_user = (\<lambda>um a n. (0, uload um a (unat n))),
      mutex_lock_interruptible = pool_lock,
      mutex_unlock = pool_unlock,
      fixed_size_llseek = pool_llseek,
      IOWR = (\<lambda>ty nr sz. 3 * 2 ^ 30 + of_nat sz * 2 ^ 16 + ucast ty * 2 ^ 8 + of_nat nr),
      MKDEV = (\<lambda>ma mi. ma * 2 ^ 20 + mi),
      MAJOR = (\<lambda>d. drop_bit 20 d),
      alloc_chrdev_region = (\<lambda>minor. (0, 240 * 2 ^ 20 + minor)),
      cdev_add = (\<lambda>devno. 0)\<rparr>"

lemma pool_kernel_simps [simp]:
  "kmalloc pool_kernel = pool_kmalloc" "kfree pool_kernel = pool_kfree"
  "copy_to_user pool_kernel um a bs = (0, ustore um a bs)"
  "copy_from_user pool_kernel um a n = (0, uload um a (unat n))"
  "mutex_lock_interruptible pool_kernel = pool_lock" "mutex_unlock pool_kernel = pool_unlock"
  "fixed_size_llseek pool_kernel = pool_llseek"
  "pool_lock Unlocked = (0, Locked)" "pool_unlock Locked = Some Unlocked"
  by (simp_all add: pool_kernel_def pool_lock_def pool_unlock_def)

text \<open>The first free block of the pool, for evaluation.\<close>

lemma pool_kmalloc_at:
  assumes "a < 64" and "h a = None" and "\<forall>b<a. h b \<noteq> None" and "0 < n" and "unat n \<le> KMALLOC_MAX_SIZE"
  shows "pool_kmalloc h n = (Blk a, h(a \<mapsto> replicate (unat n) 0))"
proof -
  have "find (\<lambda>a. h a = None) [0..<64] = Some a"
    using assms(1-3) by (auto simp: find_Some_iff intro!: exI [of _ a])
  then show ?thesis using assms(4,5) by (auto simp: pool_kmalloc_def word_gt_0)
qed

lemma pool_kmalloc_ok: "kmalloc_ok pool_kernel"
proof -
  have "(p = NULL \<and> h' = h) \<or> (p = ZERO_SIZE_PTR \<and> n = 0 \<and> h' = h) \<or>
        (\<exists>a bs. p = Blk a \<and> 0 < n \<and> unat n \<le> KMALLOC_MAX_SIZE \<and> h a = None \<and>
                length bs = unat n \<and> h' = h(a \<mapsto> bs))"
    if "pool_kmalloc h n = (p, h')" for h n p h'
    using that
    by (auto simp: pool_kmalloc_def word_gt_0 find_Some_iff length_replicate
        split: if_splits option.splits intro!: exI [of _ "replicate (unat n) 0"])
  then show ?thesis by (simp add: kmalloc_ok_def pool_kernel_def)
qed

lemma pool_kernel_ok: "kernel_ok pool_kernel"
  using pool_kmalloc_ok
  by (auto simp: kernel_ok_def kfree_ok_def uaccess_ok_def mutex_ok_def llseek_ok_def
      pool_kernel_def pool_lock_def pool_unlock_def pool_llseek_def)

end
