(* ===== verification/Command_Log.thy ===== *)
theory Command_Log
  imports Prelude
begin

text \<open>
  What the circular buffer and the device promise, independently of how they store it:
  a log of the most recent write commands.  \<open>push\<close> appends a command and drops the oldest
  one when the log is full, \<open>locate\<close> finds the command and the offset inside it of a byte
  position of the concatenated log.  The locale \<open>command_ring\<close> is the interface of an
  implementation of the log, \<open>command_index\<close> extends it by the position lookup; clients
  of the circular buffer are verified against these two.
\<close>

section \<open>The log\<close>

definition push :: "nat \<Rightarrow> 'e list \<Rightarrow> 'e \<Rightarrow> 'e list" where
  "push cap es e = (if length es < cap then es @ [e] else tl es @ [e])"

fun locate :: "nat list \<Rightarrow> nat \<Rightarrow> (nat \<times> nat) option" where
  "locate [] p = None"
| "locate (n # ns) p =
     (if p < n then Some (0, p) else map_option (\<lambda>(j, off). (Suc j, off)) (locate ns (p - n)))"

lemma length_push: "length es \<le> cap \<Longrightarrow> 0 < cap \<Longrightarrow> length (push cap es e) = min cap (Suc (length es))"
  by (auto simp: push_def)

lemma push_last_cap:
  assumes "0 < cap"
  shows "push cap (drop (length es - cap) es) e = drop (length (es @ [e]) - cap) (es @ [e])"
  using assms by (auto simp: push_def drop_Suc Suc_diff_le tl_drop)

lemma map_push: "map f (push cap es e) = push cap (map f es) (f e)"
  by (simp add: push_def map_tl)

lemma set_push: "set (push cap es e) \<subseteq> insert e (set es)"
  by (auto simp: push_def dest: list.set_sel(2) intro: list.set_sel(2) split: if_splits)

text \<open>\<open>locate\<close> is the only decomposition of a position into a command and an offset.\<close>

lemma locate_None_iff: "locate ns p = None \<longleftrightarrow> sum_list ns \<le> p"
  by (induction ns p rule: locate.induct) auto

lemma locate_SomeD:
  assumes "locate ns p = Some (j, off)"
  shows "j < length ns \<and> off < ns ! j \<and> p = sum_list (take j ns) + off"
  using assms by (induction ns p arbitrary: j off rule: locate.induct) (auto split: if_splits)

lemma locate_SomeI:
  assumes "j < length ns" and "off < ns ! j"
  shows "locate ns (sum_list (take j ns) + off) = Some (j, off)"
  using assms
proof (induction ns arbitrary: j)
  case Nil
  then show ?case by simp
next
  case (Cons n ns)
  then show ?case by (cases j) auto
qed

lemma locate_Some_iff:
  "locate ns p = Some (j, off) \<longleftrightarrow>
     j < length ns \<and> off < ns ! j \<and> p = sum_list (take j ns) + off"
  using locate_SomeD locate_SomeI by metis

text \<open>The byte a located position denotes is the byte of the concatenated log.\<close>

lemma drop_concat_locate:
  assumes "locate (map length css) p = Some (j, off)"
  shows "drop p (concat css) = drop off (css ! j) @ concat (drop (Suc j) css)"
  using assms
proof (induction css arbitrary: p j)
  case Nil
  then show ?case by simp
next
  case (Cons cs css)
  then show ?case by (auto split: if_splits)
qed

text \<open>
  The file position a seek to offset \<open>off\<close> of command \<open>cmd\<close> denotes.  As the code has it, an
  offset equal to the length of the command is accepted.
\<close>

definition seek_spec :: "nat list \<Rightarrow> nat \<Rightarrow> nat \<Rightarrow> nat option" where
  "seek_spec ns cmd off =
     (if cmd < length ns \<and> off \<le> ns ! cmd then Some (sum_list (take cmd ns) + off) else None)"

lemma seek_spec_Cons_0: "seek_spec (n # ns) 0 off = (if off \<le> n then Some off else None)"
  by (simp add: seek_spec_def)

lemma seek_spec_Cons_Suc: "seek_spec (n # ns) (Suc c) off = map_option ((+) n) (seek_spec ns c off)"
  by (simp add: seek_spec_def)

lemma seek_spec_beyond: "length ns \<le> c \<Longrightarrow> seek_spec ns c off = None"
  by (simp add: seek_spec_def)

section \<open>Adding a sequence of commands\<close>

text \<open>The pointers an implementation hands back are collected in the order of the calls.\<close>

fun add_all :: "('b \<Rightarrow> 'e \<Rightarrow> ('b \<times> 'p) option) \<Rightarrow> 'b \<Rightarrow> 'e list \<Rightarrow> ('b \<times> 'p list) option" where
  "add_all add b [] = Some (b, [])"
| "add_all add b (e # es) =
     do { (b', p) \<leftarrow> add b e; (b'', ps) \<leftarrow> add_all add b' es; Some (b'', p # ps) }"

locale command_ring =
  fixes cap :: nat
    and invar :: "'b \<Rightarrow> bool"
    and entries :: "'b \<Rightarrow> 'e list"
    and init :: 'b
    and add :: "'b option \<Rightarrow> 'e \<Rightarrow> ('b option \<times> 'p) option"
    and ptr_of :: "'e \<Rightarrow> 'p"
    and null :: 'p
  assumes cap_pos: "0 < cap"
    and init_invar: "invar init"
    and init_entries: "entries init = []"
    and bounded: "invar b \<Longrightarrow> length (entries b) \<le> cap"
    and add_ok: "invar b \<Longrightarrow>
      \<exists>b'. add (Some b) e =
             Some (Some b', if length (entries b) = cap then ptr_of (hd (entries b)) else null)
           \<and> invar b' \<and> entries b' = push cap (entries b) e"
begin

lemma add_entriesE:
  assumes "invar b"
  obtains b' where
    "add (Some b) e =
       Some (Some b', if length (entries b) = cap then ptr_of (hd (entries b)) else null)"
    "invar b'" "entries b' = push cap (entries b) e"
  using add_ok [OF assms] by blast

lemma add_all_from:
  assumes "invar b" and "entries b = drop (length es0 - cap) es0"
  shows "\<exists>b' ps. add_all add (Some b) es = Some (Some b', ps) \<and> invar b'
     \<and> entries b' = drop (length (es0 @ es) - cap) (es0 @ es)
     \<and> ps = map (\<lambda>k. if k < cap then null else ptr_of ((es0 @ es) ! (k - cap)))
               [length es0..<length es0 + length es]"
  using assms
proof (induction es arbitrary: b es0)
  case Nil
  then show ?case by simp
next
  case (Cons e es)
  obtain b1 where b1: "add (Some b) e =
      Some (Some b1, if length (entries b) = cap then ptr_of (hd (entries b)) else null)"
    and inv1: "invar b1" and ent1: "entries b1 = push cap (entries b) e"
    using add_entriesE [OF Cons.prems(1)] by blast
  have ent1': "entries b1 = drop (length (es0 @ [e]) - cap) (es0 @ [e])"
    using ent1 Cons.prems(2) push_last_cap [OF cap_pos] by metis
  obtain b2 ps where IH: "add_all add (Some b1) es = Some (Some b2, ps)" "invar b2"
    "entries b2 = drop (length ((es0 @ [e]) @ es) - cap) ((es0 @ [e]) @ es)"
    "ps = map (\<lambda>k. if k < cap then null else ptr_of (((es0 @ [e]) @ es) ! (k - cap)))
            [length (es0 @ [e])..<length (es0 @ [e]) + length es]"
    using Cons.IH [OF inv1 ent1'] by blast
  have out: "(if length (entries b) = cap then ptr_of (hd (entries b)) else null)
      = (if length es0 < cap then null else ptr_of ((es0 @ e # es) ! (length es0 - cap)))"
    using cap_pos Cons.prems(2) by (auto simp: hd_drop_conv_nth nth_append)
  have idx: "[length es0..<length es0 + length (e # es)]
      = length es0 # [length (es0 @ [e])..<length (es0 @ [e]) + length es]"
    by (simp add: upt_conv_Cons del: upt_Suc)
  have snoc: "(es0 @ [e]) @ es = es0 @ e # es" by simp
  show ?case
    unfolding idx using b1 out IH(1-3) IH(4)[unfolded snoc] by (simp add: snoc)
qed

text \<open>
  Any number of commands added to an empty ring leaves the last \<open>cap\<close> of them, oldest
  first, and hands back each of the others exactly once, in order.
\<close>

lemma add_all_last:
  "\<exists>b' ps. add_all add (Some init) es = Some (Some b', ps) \<and> invar b'
     \<and> entries b' = drop (length es - cap) es
     \<and> ps = map (\<lambda>k. if k < cap then null else ptr_of (es ! (k - cap))) [0..<length es]"
proof -
  have "entries init = drop (length [] - cap) []" by (simp add: init_entries)
  from add_all_from [OF init_invar this, of es, unfolded append_Nil] show ?thesis
    by (simp add: add_0)
qed

end

section \<open>Looking a position up\<close>

locale command_index = command_ring cap invar entries init add ptr_of null
  for cap :: nat
    and invar :: "'b \<Rightarrow> bool"
    and entries :: "'b \<Rightarrow> 'e list"
    and init :: 'b
    and add :: "'b option \<Rightarrow> 'e \<Rightarrow> ('b option \<times> 'p) option"
    and ptr_of :: "'e \<Rightarrow> 'p"
    and null :: 'p +
  fixes len_of :: "'e \<Rightarrow> nat"
    and slot :: "'b \<Rightarrow> nat \<Rightarrow> 'e option"
    and find :: "'b option \<Rightarrow> size_t \<Rightarrow> (nat \<times> size_t) option option"
  assumes find_ok: "invar b \<Longrightarrow> unat p < 2 ^ 31 \<Longrightarrow>
      (case locate (map len_of (entries b)) (unat p) of
         None \<Rightarrow> find (Some b) p = Some None
       | Some (j, off) \<Rightarrow>
           \<exists>i. find (Some b) p = Some (Some (i, of_nat off)) \<and> slot b i = Some (entries b ! j))"
begin

lemma find_end:
  assumes "invar b" and "unat p < 2 ^ 31" and "sum_list (map len_of (entries b)) \<le> unat p"
  shows "find (Some b) p = Some None"
proof -
  from assms(3) have "locate (map len_of (entries b)) (unat p) = None"
    by (simp add: locate_None_iff)
  with find_ok [OF assms(1,2)] show ?thesis by simp
qed

lemma find_inside:
  assumes "invar b" and "unat p < 2 ^ 31" and "unat p < sum_list (map len_of (entries b))"
  obtains i j off where
    "find (Some b) p = Some (Some (i, of_nat off))" "slot b i = Some (entries b ! j)"
    "j < length (entries b)" "off < len_of (entries b ! j)"
    "locate (map len_of (entries b)) (unat p) = Some (j, off)"
proof -
  have "locate (map len_of (entries b)) (unat p) \<noteq> None"
    using assms(3) by (simp add: locate_None_iff)
  then obtain j off where loc: "locate (map len_of (entries b)) (unat p) = Some (j, off)"
    by auto
  with find_ok [OF assms(1,2)] obtain i where
    i: "find (Some b) p = Some (Some (i, of_nat off))" "slot b i = Some (entries b ! j)"
    by auto
  have "j < length (entries b)" "off < len_of (entries b ! j)"
    using locate_SomeD [OF loc] by auto
  with i loc show ?thesis using that by blast
qed

end

end
