(* ===== verification/Circular_Buffer.thy ===== *)
theory Circular_Buffer
  imports Kernel Command_Log
begin

text \<open>
  The circular buffer of \<^verbatim>\<open>aesd-char-driver/aesd-circular-buffer.[ch]\<close>: ten slots, an input
  and an output index of type \<^verbatim>\<open>uint8_t\<close>, a full flag and the running byte count.  A
  pointer to the buffer is an \<open>option\<close> (\<open>None\<close> is \<^verbatim>\<open>NULL\<close>), a pointer to a slot is its
  index.  The loops are \<^verbatim>\<open>while (entry)\<close> loops that only the index comparison ends, so
  they are partial functions; the lemmas show that they return for every well-formed
  buffer.  \<open>cb_inv\<close> is the invariant, \<open>entries\<close> the abstraction to the log of
  \<open>Command_Log\<close>, and the interpretation \<open>cb\<close> shows that the buffer implements it.
\<close>

section \<open>Data\<close>

definition AESDCHAR_MAX_WRITE_OPERATIONS_SUPPORTED :: nat where
  "AESDCHAR_MAX_WRITE_OPERATIONS_SUPPORTED = 10"

record aesd_buffer_entry =
  buffptr :: ptr
  entry_size :: size_t

record aesd_circular_buffer =
  entry :: "aesd_buffer_entry list"
  in_offs :: uint8
  out_offs :: uint8
  full :: bool
  cb_size :: uint32

section \<open>Operations\<close>

definition nextPtr :: "uint32 \<Rightarrow> uint32" where
  "nextPtr p =
     (if p + 1 \<ge> of_nat AESDCHAR_MAX_WRITE_OPERATIONS_SUPPORTED then 0 else p + 1)"

text \<open>
  The search loop: \<open>i\<close> is the slot \<^verbatim>\<open>entry\<close> points to.  \<^verbatim>\<open>char_pos\<close> is an \<^verbatim>\<open>int\<close>, compared
  with and reduced by the \<^verbatim>\<open>size_t\<close> size of the entry.  The result is the slot and the
  offset stored through \<^verbatim>\<open>entry_offset_byte_rtn\<close>, or \<open>None\<close> for \<^verbatim>\<open>NULL\<close>.
\<close>

partial_function (option) find_loop ::
  "aesd_circular_buffer \<Rightarrow> nat \<Rightarrow> int32 \<Rightarrow> int32 \<Rightarrow> (nat \<times> size_t) option option" where
  "find_loop buffer i char_pos next_out_index =
     do {
       e \<leftarrow> nth_opt (entry buffer) i;
       if int_to_size char_pos < entry_size e
       then Some (Some (i, int_to_size char_pos))
       else if next_out_index = ucast (in_offs buffer) then Some None
       else find_loop buffer (unat next_out_index)
              (size_to_int (int_to_size char_pos - entry_size e)) (nextPtr next_out_index)
     }"

definition aesd_circular_buffer_find_entry_offset_for_fpos ::
  "aesd_circular_buffer option \<Rightarrow> size_t \<Rightarrow> (nat \<times> size_t) option option" where
  "aesd_circular_buffer_find_entry_offset_for_fpos buffer char_offset =
     (case buffer of
        None \<Rightarrow> Some None
      | Some b \<Rightarrow>
          if in_offs b = out_offs b \<and> \<not> full b then Some None
          else find_loop b (unat (out_offs b)) (size_to_int char_offset)
                 (nextPtr (ucast (out_offs b))))"

definition aesd_circular_buffer_add_entry ::
  "aesd_circular_buffer option \<Rightarrow> aesd_buffer_entry
     \<Rightarrow> (aesd_circular_buffer option \<times> ptr) option" where
  "aesd_circular_buffer_add_entry buffer add_entry =
     (case buffer of
        None \<Rightarrow> Some (None, NULL)
      | Some b \<Rightarrow>
          let next_in_index = nextPtr (ucast (in_offs b)) in
          do {
            (b1, remove_buffptr, rm_buf_size) \<leftarrow>
              (if full b
               then do {
                 e \<leftarrow> nth_opt (entry b) (unat (out_offs b));
                 Some (b\<lparr>out_offs := ucast next_in_index\<rparr>, buffptr e,
                       size_to_int (entry_size e))
               }
               else if next_in_index = ucast (out_offs b)
               then Some (b\<lparr>full := True\<rparr>, NULL, 0)
               else Some (b, NULL, 0));
            es \<leftarrow> upd_opt (entry b1) (unat (in_offs b1)) add_entry;
            Some (Some (b1\<lparr>entry := es, in_offs := ucast next_in_index,
                    cb_size := size_to_uint (uint_to_size (cb_size b1)
                      + (entry_size add_entry - int_to_size rm_buf_size))\<rparr>),
                  remove_buffptr)
          })"

text \<open>\<^verbatim>\<open>memset(buffer, 0, sizeof *buffer)\<close>: every slot is \<^verbatim>\<open>{NULL, 0}\<close>.\<close>

definition aesd_circular_buffer_init :: "aesd_circular_buffer \<Rightarrow> aesd_circular_buffer" where
  "aesd_circular_buffer_init buffer =
     buffer\<lparr>entry := replicate AESDCHAR_MAX_WRITE_OPERATIONS_SUPPORTED
                       \<lparr>buffptr = NULL, entry_size = 0\<rparr>,
            in_offs := 0, out_offs := 0, full := False, cb_size := 0\<rparr>"

partial_function (option) cleanup_loop ::
  "kernel \<Rightarrow> aesd_circular_buffer \<Rightarrow> nat \<Rightarrow> int32 \<Rightarrow> heap \<Rightarrow> heap option" where
  "cleanup_loop K buffer i next_out_index h =
     do {
       e \<leftarrow> nth_opt (entry buffer) i;
       h' \<leftarrow> kfree K h (buffptr e);
       if next_out_index = ucast (in_offs buffer) then Some h'
       else cleanup_loop K buffer (unat next_out_index) (nextPtr next_out_index) h'
     }"

definition cleanup_circulat_buffers ::
  "kernel \<Rightarrow> aesd_circular_buffer option \<Rightarrow> heap \<Rightarrow> heap option" where
  "cleanup_circulat_buffers K buffer h =
     (case buffer of
        None \<Rightarrow> Some h
      | Some b \<Rightarrow>
          if in_offs b = out_offs b \<and> \<not> full b then Some h
          else cleanup_loop K b (unat (out_offs b)) (nextPtr (ucast (out_offs b))) h)"

text \<open>
  The seek loop returns the result code and the new \<^verbatim>\<open>filp->f_pos\<close>; \<open>f_pos\<close> is the old one.
\<close>

partial_function (option) adjust_loop ::
  "aesd_circular_buffer \<Rightarrow> uint32 \<Rightarrow> uint32 \<Rightarrow> loff_t \<Rightarrow> nat \<Rightarrow> int32 \<Rightarrow> int32 \<Rightarrow> loff_t
     \<Rightarrow> (int32 \<times> loff_t) option" where
  "adjust_loop buffer write_cmd write_cmd_offset f_pos i next_out_index cmd_num fpos =
     do {
       e \<leftarrow> nth_opt (entry buffer) i;
       if cmd_num = write_cmd
       then if entry_size e \<ge> uint_to_size write_cmd_offset
            then Some (0, fpos + uint_to_size write_cmd_offset)
            else Some (- of_nat EINVAL, f_pos)
       else if next_out_index = ucast (in_offs buffer) then Some (- of_nat EINVAL, f_pos)
       else adjust_loop buffer write_cmd write_cmd_offset f_pos
              (unat next_out_index) (nextPtr next_out_index) (cmd_num + 1) (fpos + entry_size e)
     }"

definition aesd_adjust_file_offset ::
  "aesd_circular_buffer \<Rightarrow> loff_t \<Rightarrow> uint32 \<Rightarrow> uint32 \<Rightarrow> (int32 \<times> loff_t) option" where
  "aesd_adjust_file_offset buffer f_pos write_cmd write_cmd_offset =
     (if in_offs buffer = out_offs buffer \<and> \<not> full buffer then Some (0, 0)
      else adjust_loop buffer write_cmd write_cmd_offset f_pos
             (unat (out_offs buffer)) (nextPtr (ucast (out_offs buffer))) 0 0)"

text \<open>
  The iteration macro, with the loop body as a function on a state of the user's choice;
  the index is a \<^verbatim>\<open>uint8_t\<close>.
\<close>

function foreach_loop ::
  "(aesd_buffer_entry \<Rightarrow> 's \<Rightarrow> 's option) \<Rightarrow> aesd_circular_buffer \<Rightarrow> uint8 \<Rightarrow> 's \<Rightarrow> 's option" where
  "foreach_loop body buffer index s =
     (if index < of_nat AESDCHAR_MAX_WRITE_OPERATIONS_SUPPORTED
      then do {
        e \<leftarrow> nth_opt (entry buffer) (unat index);
        s' \<leftarrow> body e s;
        foreach_loop body buffer (index + 1) s'
      }
      else Some s)"
  by pat_completeness auto
termination
proof (relation "measure (\<lambda>(body, buffer, index, s). 256 - unat index)", goal_cases)
  case 1
  then show ?case by simp
next
  case (2 body buffer index s)
  then have "unat index < 10"
    by (simp add: AESDCHAR_MAX_WRITE_OPERATIONS_SUPPORTED_def word_less_nat_alt)
  then have "unat (index + 1) = unat index + 1"
    by (simp add: unat_word_ariths)
  then show ?case using \<open>unat index < 10\<close> by simp
qed

declare foreach_loop.simps [simp del]

definition AESD_CIRCULAR_BUFFER_FOREACH ::
  "(aesd_buffer_entry \<Rightarrow> 's \<Rightarrow> 's option) \<Rightarrow> aesd_circular_buffer \<Rightarrow> 's \<Rightarrow> 's option" where
  "AESD_CIRCULAR_BUFFER_FOREACH body buffer s = foreach_loop body buffer 0 s"

section \<open>Invariant and abstraction\<close>

definition ring_count :: "aesd_circular_buffer \<Rightarrow> nat" where
  "ring_count b =
     (if full b then 10 else (unat (in_offs b) + 10 - unat (out_offs b)) mod 10)"

definition ring_slot :: "aesd_circular_buffer \<Rightarrow> nat \<Rightarrow> nat" where
  "ring_slot b k = (unat (out_offs b) + k) mod 10"

definition entries :: "aesd_circular_buffer \<Rightarrow> aesd_buffer_entry list" where
  "entries b = map (\<lambda>k. entry b ! ring_slot b k) [0..<ring_count b]"

definition entry_len :: "aesd_buffer_entry \<Rightarrow> nat" where
  "entry_len e = unat (entry_size e)"

definition total_size :: "aesd_buffer_entry list \<Rightarrow> nat" where
  "total_size es = sum_list (map entry_len es)"

definition cb_inv :: "aesd_circular_buffer \<Rightarrow> bool" where
  "cb_inv b \<longleftrightarrow>
     length (entry b) = 10 \<and> unat (in_offs b) < 10 \<and> unat (out_offs b) < 10 \<and>
     (full b \<longrightarrow> in_offs b = out_offs b) \<and>
     cb_size b = of_nat (total_size (entries b))"

definition slot :: "aesd_circular_buffer \<Rightarrow> nat \<Rightarrow> aesd_buffer_entry option" where
  "slot b i = nth_opt (entry b) i"

section \<open>Index arithmetic\<close>

lemma max_ops [simp]: "AESDCHAR_MAX_WRITE_OPERATIONS_SUPPORTED = 10"
  by (simp add: AESDCHAR_MAX_WRITE_OPERATIONS_SUPPORTED_def)

lemma unat_ucast_8_32 [ring_simps]: "unat (ucast (w :: uint8) :: uint32) = unat w"
  using unsigned_less [of w, where 'a = nat] by (simp add: unsigned_ucast_eq take_bit_eq_mod)

lemma unat_nextPtr [ring_simps]:
  assumes "unat p < 10"
  shows "unat (nextPtr p) = Suc (unat p) mod 10"
proof -
  have s: "unat (p + 1) = Suc (unat p)"
    using assms by (simp add: unat_word_ariths)
  show ?thesis
  proof (cases "unat p = 9")
    case True
    with s show ?thesis by (simp add: nextPtr_def word_le_nat_alt)
  next
    case False
    with assms s show ?thesis by (auto simp: nextPtr_def word_le_nat_alt)
  qed
qed

lemma unat_ucast_nextPtr [ring_simps]:
  assumes "unat p < 10"
  shows "unat (ucast (nextPtr p) :: uint8) = Suc (unat p) mod 10"
  using unat_nextPtr [OF assms]
  by (simp add: unsigned_ucast_eq take_bit_eq_mod)

lemma ring_slot_less [simp]: "ring_slot b k < 10"
  by (simp add: ring_slot_def)

lemma ring_slot_Suc: "ring_slot b (Suc k) = Suc (ring_slot b k) mod 10"
  by (simp add: ring_slot_def mod_Suc_eq)

lemma length_entries [simp]: "length (entries b) = ring_count b"
  by (simp add: entries_def)

lemma ring_count_le: "ring_count b \<le> 10"
  by (simp add: ring_count_def less_imp_le)

lemma entries_nth [simp]: "k < ring_count b \<Longrightarrow> entries b ! k = entry b ! ring_slot b k"
  by (simp add: entries_def)

lemma slot_ring_slot:
  "cb_inv b \<Longrightarrow> k < ring_count b \<Longrightarrow> slot b (ring_slot b k) = Some (entries b ! k)"
  by (simp add: slot_def cb_inv_def)

text \<open>The empty test of the code, and where the walk over the slots stops.\<close>

lemma mod_10_twice: "n < 20 \<Longrightarrow> n mod 10 = (if n < 10 then n else n - (10 :: nat))"
  by (simp add: mod_if)

lemma ring_empty_iff:
  assumes "cb_inv b"
  shows "(in_offs b = out_offs b \<and> \<not> full b) \<longleftrightarrow> ring_count b = 0"
proof -
  have "unat (in_offs b) < 10" "unat (out_offs b) < 10"
    using assms by (auto simp: cb_inv_def)
  then show ?thesis
    by (auto simp: ring_count_def word_unat_eq_iff mod_10_twice)
qed

lemma ring_walk_end:
  assumes "cb_inv b" and "k < ring_count b"
  shows "ring_slot b (Suc k) = unat (in_offs b) \<longleftrightarrow> Suc k = ring_count b"
proof -
  have lt: "unat (in_offs b) < 10" "unat (out_offs b) < 10"
    and eq: "full b \<Longrightarrow> unat (in_offs b) = unat (out_offs b)"
    using assms(1) by (auto simp: cb_inv_def)
  have k: "k < 10" using assms(2) ring_count_le [of b] by simp
  have "ring_slot b (Suc k) =
      (if unat (out_offs b) + Suc k < 10 then unat (out_offs b) + Suc k
       else unat (out_offs b) + Suc k - 10)"
    using lt k by (simp add: ring_slot_def mod_10_twice)
  moreover have "ring_count b =
      (if full b then 10
       else if unat (out_offs b) \<le> unat (in_offs b)
       then unat (in_offs b) - unat (out_offs b)
       else unat (in_offs b) + 10 - unat (out_offs b))"
    using lt by (auto simp: ring_count_def mod_10_twice)
  ultimately show ?thesis
    using assms(2) lt eq k by (auto split: if_splits)
qed

text \<open>The index variable of the three loops at the \<open>k\<close>-th entry of the walk.\<close>

definition walk_next :: "aesd_circular_buffer \<Rightarrow> nat \<Rightarrow> int32" where
  "walk_next b k = of_nat (ring_slot b (Suc k))"

lemma unat_walk_next [ring_simps]: "unat (walk_next b k) = ring_slot b (Suc k)"
proof -
  have "ring_slot b (Suc k) < 2 ^ 32"
    using ring_slot_less [of b "Suc k"] by (rule less_trans) simp
  then show ?thesis by (simp add: walk_next_def unat_of_nat)
qed

lemma nextPtr_walk_next [ring_simps]: "nextPtr (walk_next b k) = walk_next b (Suc k)"
  by (simp add: word_unat_eq_iff unat_nextPtr unat_walk_next ring_slot_Suc [symmetric])

lemma walk_next_start:
  "cb_inv b \<Longrightarrow> nextPtr (ucast (out_offs b)) = walk_next b 0"
  by (simp add: word_unat_eq_iff unat_nextPtr unat_walk_next unat_ucast_8_32 ring_slot_def
      cb_inv_def)

lemma walk_next_end [ring_simps]:
  assumes "cb_inv b" and "k < ring_count b"
  shows "walk_next b k = ucast (in_offs b) \<longleftrightarrow> Suc k = ring_count b"
  using ring_walk_end [OF assms]
  by (simp add: word_unat_eq_iff unat_walk_next unat_ucast_8_32)

lemma ring_slot_start: "cb_inv b \<Longrightarrow> ring_slot b 0 = unat (out_offs b)"
  by (simp add: ring_slot_def cb_inv_def)

lemma nth_opt_ring_slot [ring_simps]:
  "cb_inv b \<Longrightarrow> nth_opt (entry b) (ring_slot b k) = Some (entry b ! ring_slot b k)"
  by (simp add: cb_inv_def)

lemma drop_entries:
  assumes "k < ring_count b"
  shows "drop k (entries b) = (entry b ! ring_slot b k) # drop (Suc k) (entries b)"
  using assms by (metis Cons_nth_drop_Suc entries_nth length_entries)

section \<open>Position lookup\<close>

lemma find_loop_walk:
  assumes "cb_inv b" and "k < ring_count b" and "unat cp < 2 ^ 31"
  shows "find_loop b (ring_slot b k) cp (walk_next b k) =
     Some (map_option (\<lambda>(j, off). (ring_slot b (k + j), of_nat off))
             (locate (map entry_len (drop k (entries b))) (unat cp)))"
  using assms(2,3)
proof (induction "ring_count b - k" arbitrary: k cp)
  case 0
  then show ?case by simp
next
  case (Suc m)
  let ?e = "entry b ! ring_slot b k"
  let ?cp' = "size_to_int (int_to_size cp - entry_size ?e)"
  have cp: "unat (int_to_size cp) = unat cp" "int_to_size cp = of_nat (unat cp)"
    using unat_scast_nonneg [OF Suc.prems(2)] by (simp_all add: word_unat_eq_iff unat_ucast_32_64)
  have unfold: "find_loop b (ring_slot b k) cp (walk_next b k) =
      (if unat cp < entry_len ?e then Some (Some (ring_slot b k, int_to_size cp))
       else if Suc k = ring_count b then Some None
       else find_loop b (ring_slot b (Suc k)) ?cp' (walk_next b (Suc k)))"
    using assms(1) Suc.prems cp
    by (subst find_loop.simps) (simp add: ring_simps entry_len_def word_less_nat_alt)
  show ?case
  proof (cases "unat cp < entry_len ?e")
    case True
    then show ?thesis using unfold cp drop_entries [OF Suc.prems(1)] by simp
  next
    case ge: False
    show ?thesis
    proof (cases "Suc k = ring_count b")
      case True
      then show ?thesis using unfold ge drop_entries [OF Suc.prems(1)] by simp
    next
      case False
      have diff: "unat (int_to_size cp - entry_size ?e) = unat cp - entry_len ?e"
        using ge cp(1) by (simp add: entry_len_def unat_sub word_le_nat_alt)
      have cp': "unat ?cp' = unat cp - entry_len ?e"
        using diff Suc.prems(2) by (subst unat_ucast_64_32) simp_all
      have "find_loop b (ring_slot b (Suc k)) ?cp' (walk_next b (Suc k)) =
        Some (map_option (\<lambda>(j, off). (ring_slot b (Suc k + j), of_nat off))
             (locate (map entry_len (drop (Suc k) (entries b))) (unat ?cp')))"
        using Suc.hyps Suc.prems False cp' by (intro Suc.hyps(1)) auto
      then show ?thesis
        using unfold ge False cp' drop_entries [OF Suc.prems(1)]
        by (simp add: option.map_comp comp_def case_prod_unfold)
    qed
  qed
qed

lemma find_correct:
  assumes "cb_inv b" and "unat p < 2 ^ 31"
  shows "aesd_circular_buffer_find_entry_offset_for_fpos (Some b) p =
     Some (map_option (\<lambda>(j, off). (ring_slot b j, of_nat off))
             (locate (map entry_len (entries b)) (unat p)))"
proof (cases "ring_count b = 0")
  case True
  then have "entries b = []" by (simp add: entries_def)
  with True ring_empty_iff [OF assms(1)] show ?thesis
    by (simp add: aesd_circular_buffer_find_entry_offset_for_fpos_def)
next
  case False
  have p: "unat (size_to_int p) = unat p"
    using assms(2) by (intro unat_ucast_64_32) simp
  then show ?thesis
    using False ring_empty_iff [OF assms(1)] find_loop_walk [OF assms(1), of 0 "size_to_int p"] assms
    by (auto simp: aesd_circular_buffer_find_entry_offset_for_fpos_def walk_next_start ring_slot_start)
qed

section \<open>Adding an entry\<close>

lemma ring_slot_inj:
  assumes "j < 10" and "k < 10" and "cb_inv b"
  shows "ring_slot b j = ring_slot b k \<longleftrightarrow> j = k"
  using assms by (auto simp: ring_slot_def mod_10_twice cb_inv_def split: if_splits)


lemma in_offs_slot:
  assumes "cb_inv b"
  shows "unat (in_offs b) = ring_slot b (ring_count b)"
proof -
  have "unat (in_offs b) < 10" "unat (out_offs b) < 10"
    and "full b \<Longrightarrow> unat (in_offs b) = unat (out_offs b)"
    using assms by (auto simp: cb_inv_def)
  then show ?thesis
    by (auto simp: ring_slot_def ring_count_def mod_10_twice)
qed


lemma entries_append_slot:
  assumes "cb_inv b" and "ring_count b < 10"
    and "entry b' = (entry b)[ring_slot b (ring_count b) := e]"
    and "out_offs b' = out_offs b" and "ring_count b' = Suc (ring_count b)"
  shows "entries b' = entries b @ [e]"
proof (rule nth_equalityI)
  show "length (entries b') = length (entries b @ [e])"
    using assms(5) by simp
  fix k assume k: "k < length (entries b')"
  have slot: "ring_slot b' k = ring_slot b k"
    using assms(4) by (simp add: ring_slot_def)
  show "entries b' ! k = (entries b @ [e]) ! k"
  proof (cases "k < ring_count b")
    case True
    then have "ring_slot b (ring_count b) \<noteq> ring_slot b k"
      using assms(1,2) ring_slot_inj by auto
    with True k slot assms show ?thesis by (simp add: nth_append)
  next
    case False
    with k assms(5) have "k = ring_count b" by simp
    with slot assms show ?thesis by (simp add: nth_append cb_inv_def)
  qed
qed


lemma entries_rotate_slot:
  assumes "cb_inv b" and "ring_count b = 10"
    and "entry b' = (entry b)[ring_slot b 0 := e]"
    and "unat (out_offs b') = ring_slot b 1" and "ring_count b' = 10"
  shows "entries b' = tl (entries b) @ [e]"
proof (rule nth_equalityI)
  show "length (entries b') = length (tl (entries b) @ [e])"
    using assms(2,5) by simp
  fix k assume k: "k < length (entries b')"
  have slot: "ring_slot b' k = ring_slot b (Suc k)"
    using assms(4) by (simp add: ring_slot_def mod_simps)
  show "entries b' ! k = (tl (entries b) @ [e]) ! k"
  proof (cases "k < 9")
    case True
    then have "ring_slot b 0 \<noteq> ring_slot b (Suc k)"
      using assms(1) ring_slot_inj [of 0 "Suc k" b] by auto
    with True k slot assms show ?thesis by (simp add: nth_append nth_tl)
  next
    case False
    with k assms(5) have k9: "k = 9" by simp
    then have "ring_slot b (Suc k) = ring_slot b 0"
      by (simp add: ring_slot_def)
    with k9 slot assms show ?thesis by (simp add: nth_append cb_inv_def)
  qed
qed

lemma unat_next_in:
  assumes "cb_inv b"
  shows "unat (ucast (nextPtr (ucast (in_offs b))) :: uint8) = ring_slot b (Suc (ring_count b))"
  using assms in_offs_slot [OF assms]
  by (simp add: unat_ucast_nextPtr unat_ucast_8_32 ring_slot_Suc cb_inv_def)

lemma next_in_eq_out:
  assumes "cb_inv b" and "\<not> full b"
  shows "nextPtr (ucast (in_offs b)) = ucast (out_offs b) \<longleftrightarrow> Suc (ring_count b) = 10"
proof -
  have c: "ring_count b < 10" using assms(2) by (simp add: ring_count_def)
  have "unat (nextPtr (ucast (in_offs b))) = ring_slot b (Suc (ring_count b))"
    using assms(1) in_offs_slot [OF assms(1)]
    by (simp add: unat_nextPtr unat_ucast_8_32 ring_slot_Suc cb_inv_def)
  moreover have "ring_slot b (Suc (ring_count b)) = unat (out_offs b) \<longleftrightarrow> Suc (ring_count b) = 10"
    using assms(1) c by (auto simp: ring_slot_def cb_inv_def mod_10_twice)
  ultimately show ?thesis by (simp add: word_unat_eq_iff unat_ucast_8_32)
qed

lemma ring_count_full_iff: "cb_inv b \<Longrightarrow> ring_count b = 10 \<longleftrightarrow> full b"
  by (simp add: ring_count_def) (metis mod_less_divisor nat_neq_iff zero_less_numeral)

lemma ucast_8_32_8: "(ucast (ucast (w :: uint8) :: uint32) :: uint8) = w"
  by (rule bit_word_eqI) (simp add: bit_simps)

lemma ring_slot_10: "ring_slot b 10 = ring_slot b 0"
  by (simp add: ring_slot_def)

lemma cb_size_arith:
  "size_to_uint (uint_to_size c + (x - int_to_size (size_to_int y)))
     = c + ucast x - ucast y"
  by (simp add: ucast_down_add ucast_down_diff scast_ucast_64_32_64)

lemma add_entry_full:
  assumes "cb_inv b" and "full b"
  shows "\<exists>b'. aesd_circular_buffer_add_entry (Some b) e
                = Some (Some b', buffptr (hd (entries b)))
           \<and> cb_inv b' \<and> entries b' = tl (entries b) @ [e]"
proof -
  let ?n = "nextPtr (ucast (in_offs b))"
  let ?old = "entry b ! unat (out_offs b)"
  let ?b' = "b\<lparr>entry := (entry b)[unat (out_offs b) := e], out_offs := ucast ?n,
      in_offs := ucast ?n, cb_size := cb_size b + of_nat (entry_len e) - of_nat (entry_len ?old)\<rparr>"
  have inv: "length (entry b) = 10" "unat (out_offs b) < 10" "in_offs b = out_offs b"
    using assms by (auto simp: cb_inv_def)
  have c: "ring_count b = 10" using assms by (simp add: ring_count_full_iff)
  have n: "unat (ucast ?n :: uint8) = ring_slot b 1"
    using unat_next_in [OF assms(1)] unfolding c One_nat_def ring_slot_Suc ring_slot_10 .
  have ent: "entries ?b' = tl (entries b) @ [e]"
    using assms c n inv ring_slot_start [OF assms(1)]
    by (intro entries_rotate_slot) (auto simp: ring_count_def)
  have hd: "entries b = ?old # tl (entries b)"
    using drop_entries [of 0 b] c inv ring_slot_start [OF assms(1)]
    by (simp add: drop_Suc)
  have "total_size (entries b) = entry_len ?old + total_size (tl (entries b))"
    using hd by (metis list.simps(9) sum_list.Cons total_size_def)
  then have "cb_size ?b' = of_nat (total_size (entries ?b'))"
    using assms(1) unfolding ent by (simp add: cb_inv_def total_size_def)
  then have "cb_inv ?b'"
    using inv n assms(2) by (simp add: cb_inv_def)
  moreover have "aesd_circular_buffer_add_entry (Some b) e = Some (Some ?b', buffptr ?old)"
    using assms(2) inv
    by (simp add: aesd_circular_buffer_add_entry_def cb_size_arith entry_len_def Let_def)
  moreover have "?old = hd (entries b)" using hd by (metis list.sel(1))
  ultimately show ?thesis using ent by metis
qed

lemma add_entry_room:
  assumes "cb_inv b" and "\<not> full b"
  shows "\<exists>b'. aesd_circular_buffer_add_entry (Some b) e = Some (Some b', NULL)
           \<and> cb_inv b' \<and> entries b' = entries b @ [e]"
proof -
  let ?n = "nextPtr (ucast (in_offs b))"
  let ?b' = "b\<lparr>entry := (entry b)[unat (in_offs b) := e], in_offs := ucast ?n,
      full := (?n = ucast (out_offs b)), cb_size := cb_size b + of_nat (entry_len e)\<rparr>"
  have inv: "length (entry b) = 10" "unat (out_offs b) < 10" "unat (in_offs b) < 10"
    using assms by (auto simp: cb_inv_def)
  have c: "ring_count b < 10"
    using assms(2) by (simp add: ring_count_def)
  have n: "unat (ucast ?n :: uint8) = ring_slot b (Suc (ring_count b))"
    by (rule unat_next_in [OF assms(1)])
  have c': "ring_count ?b' = Suc (ring_count b)"
  proof -
    have "ring_count ?b' = (if ring_count b = 9 then 10
        else (ring_slot b (Suc (ring_count b)) + 10 - unat (out_offs b)) mod 10)"
      using n next_in_eq_out [OF assms] by (subst ring_count_def) simp
    then show ?thesis
      using c inv by (auto simp: ring_slot_def mod_10_twice)
  qed
  have ent: "entries ?b' = entries b @ [e]"
    using assms(1) c c' in_offs_slot [OF assms(1)] by (intro entries_append_slot) auto
  have out: "ucast ?n = out_offs b" if "?n = ucast (out_offs b)"
    using that ucast_8_32_8 by metis
  have "cb_size ?b' = of_nat (total_size (entries ?b'))"
    using assms(1) unfolding ent by (simp add: cb_inv_def total_size_def)
  then have "cb_inv ?b'"
    using inv n out by (simp add: cb_inv_def)
  moreover have "aesd_circular_buffer_add_entry (Some b) e = Some (Some ?b', NULL)"
    using assms(2) inv
    by (cases b) (auto simp: aesd_circular_buffer_add_entry_def ucast_down_add entry_len_def Let_def)
  ultimately show ?thesis using ent by metis
qed

lemma add_entry_correct:
  assumes "cb_inv b"
  shows "\<exists>b'. aesd_circular_buffer_add_entry (Some b) e
                = Some (Some b', if length (entries b) = 10 then buffptr (hd (entries b)) else NULL)
           \<and> cb_inv b' \<and> entries b' = push 10 (entries b) e"
proof (cases "full b")
  case True
  then have "ring_count b = 10" by (simp add: ring_count_def)
  with add_entry_full [OF assms True, of e] show ?thesis by (simp add: push_def)
next
  case False
  then have "ring_count b < 10" by (simp add: ring_count_def)
  with add_entry_room [OF assms False, of e] show ?thesis by (simp add: push_def)
qed

lemma init_correct:
  "cb_inv (aesd_circular_buffer_init b)" "entries (aesd_circular_buffer_init b) = []"
  by (simp_all add: cb_inv_def aesd_circular_buffer_init_def entries_def ring_count_def total_size_def)

interpretation cb: command_index
  10 cb_inv entries "aesd_circular_buffer_init b0" aesd_circular_buffer_add_entry buffptr NULL
  entry_len slot aesd_circular_buffer_find_entry_offset_for_fpos
  for b0
proof (unfold_locales, goal_cases)
  case (5 b e)
  then show ?case by (rule add_entry_correct)
next
  case (6 b p)
  show ?case
  proof (cases "locate (map entry_len (entries b)) (unat p)")
    case None
    then show ?thesis using find_correct [OF 6] by simp
  next
    case (Some jo)
    obtain j off where jo: "jo = (j, off)" by force
    with Some have "j < ring_count b" using locate_SomeD by fastforce
    with Some jo 6 show ?thesis
      using find_correct [OF 6] slot_ring_slot [OF 6(1)] by simp
  qed
qed (simp_all add: init_correct ring_count_le)

section \<open>Seeking\<close>

lemma adjust_loop_walk:
  assumes "cb_inv b" and "k < ring_count b" and "k \<le> unat wc"
  shows "adjust_loop b wc off f (ring_slot b k) (walk_next b k) (of_nat k) fpos =
     Some (case seek_spec (map entry_len (drop k (entries b))) (unat wc - k) (unat off) of
             None \<Rightarrow> (- of_nat EINVAL, f)
           | Some p \<Rightarrow> (0, fpos + of_nat p))"
  using assms(2,3)
proof (induction "ring_count b - k" arbitrary: k fpos)
  case 0
  then show ?case by simp
next
  case (Suc m)
  let ?e = "entry b ! ring_slot b k"
  have k: "unat (of_nat k :: uint32) = k"
    using Suc.prems(1) ring_count_le [of b] by (simp add: unat_of_nat)
  then have eq: "(of_nat k :: uint32) = wc \<longleftrightarrow> unat wc = k"
    by (auto simp: word_unat_eq_iff)
  have unfold: "adjust_loop b wc off f (ring_slot b k) (walk_next b k) (of_nat k) fpos =
      (if unat wc = k
       then if unat off \<le> entry_len ?e then Some (0, fpos + of_nat (unat off))
            else Some (- of_nat EINVAL, f)
       else if Suc k = ring_count b then Some (- of_nat EINVAL, f)
       else adjust_loop b wc off f (ring_slot b (Suc k)) (walk_next b (Suc k))
              (of_nat (Suc k)) (fpos + entry_size ?e))"
    using assms(1) Suc.prems eq
    by (subst adjust_loop.simps)
      (simp add: ring_simps entry_len_def word_le_nat_alt unat_ucast_32_64 add.commute)
  show ?case
  proof (cases "unat wc = k")
    case True
    then show ?thesis
      using unfold drop_entries [OF Suc.prems(1)] by (simp add: seek_spec_Cons_0)
  next
    case ne: False
    show ?thesis
    proof (cases "Suc k = ring_count b")
      case True
      then have "ring_count b - k \<le> unat wc - k" using ne Suc.prems(2) by simp
      then show ?thesis
        using unfold ne True by (simp add: seek_spec_beyond)
    next
      case False
      have d: "unat wc - k = Suc (unat wc - Suc k)" using ne Suc.prems(2) by simp
      have "adjust_loop b wc off f (ring_slot b (Suc k)) (walk_next b (Suc k))
              (of_nat (Suc k)) (fpos + entry_size ?e) =
        Some (case seek_spec (map entry_len (drop (Suc k) (entries b))) (unat wc - Suc k) (unat off) of
             None \<Rightarrow> (- of_nat EINVAL, f)
           | Some p \<Rightarrow> (0, fpos + entry_size ?e + of_nat p))"
        using Suc.hyps Suc.prems False ne by (intro Suc.hyps(1)) auto
      then show ?thesis
        using unfold ne False drop_entries [OF Suc.prems(1)] d
        by (simp add: seek_spec_Cons_Suc entry_len_def add.assoc split: option.split)
    qed
  qed
qed

lemma adjust_correct:
  assumes "cb_inv b" and "entries b \<noteq> []"
  shows "aesd_adjust_file_offset b f wc off =
     Some (case seek_spec (map entry_len (entries b)) (unat wc) (unat off) of
             None \<Rightarrow> (- of_nat EINVAL, f)
           | Some p \<Rightarrow> (0, of_nat p))"
proof -
  have "ring_count b \<noteq> 0" using assms(2) by (simp flip: length_entries)
  then show ?thesis
    using ring_empty_iff [OF assms(1)] adjust_loop_walk [OF assms(1), of 0 wc off f 0] assms(1)
    by (auto simp: aesd_adjust_file_offset_def walk_next_start ring_slot_start
        split: option.split)
qed

lemma adjust_empty:
  assumes "cb_inv b" and "entries b = []"
  shows "aesd_adjust_file_offset b f wc off = Some (0, 0)"
proof -
  have "ring_count b = 0" using assms(2) by (simp flip: length_entries)
  then show ?thesis
    using ring_empty_iff [OF assms(1)] by (simp add: aesd_adjust_file_offset_def)
qed

section \<open>Releasing the entries, iterating over the slots\<close>

lemma cleanup_loop_walk:
  assumes "cb_inv b" and "k < ring_count b"
  shows "cleanup_loop K b (ring_slot b k) (walk_next b k) h =
     kfree_all K (map buffptr (drop k (entries b))) h"
  using assms(2)
proof (induction "ring_count b - k" arbitrary: k h)
  case 0
  then show ?case by simp
next
  case (Suc m)
  have unfold: "cleanup_loop K b (ring_slot b k) (walk_next b k) h =
      Option.bind (kfree K h (buffptr (entry b ! ring_slot b k)))
        (\<lambda>h'. if Suc k = ring_count b then Some h'
              else cleanup_loop K b (ring_slot b (Suc k)) (walk_next b (Suc k)) h')"
    using assms(1) Suc.prems by (subst cleanup_loop.simps) (simp add: ring_simps cong: if_cong)
  show ?case
  proof (cases "Suc k = ring_count b")
    case True
    then show ?thesis using unfold drop_entries [OF Suc.prems] by simp
  next
    case False
    have "cleanup_loop K b (ring_slot b (Suc k)) (walk_next b (Suc k)) h' =
        kfree_all K (map buffptr (drop (Suc k) (entries b))) h'" for h'
      using Suc.hyps Suc.prems False by (intro Suc.hyps(1)) auto
    then show ?thesis using unfold False drop_entries [OF Suc.prems] by simp
  qed
qed

lemma cleanup_correct:
  assumes "cb_inv b"
  shows "cleanup_circulat_buffers K (Some b) h = kfree_all K (map buffptr (entries b)) h"
proof (cases "ring_count b = 0")
  case True
  then have "entries b = []" by (simp flip: length_entries)
  with True ring_empty_iff [OF assms] show ?thesis
    by (simp add: cleanup_circulat_buffers_def)
next
  case False
  then show ?thesis
    using ring_empty_iff [OF assms] cleanup_loop_walk [OF assms, of 0] assms
    by (auto simp: cleanup_circulat_buffers_def walk_next_start ring_slot_start)
qed

lemma foreach_loop_drop:
  assumes "length (entry b) = 10" and "k \<le> 10"
  shows "foreach_loop body b (of_nat k) s = fold_opt body (drop k (entry b)) s"
  using assms(2)
proof (induction "10 - k" arbitrary: k s)
  case 0
  then have "k = 10" by simp
  then show ?case using assms(1) by (simp add: foreach_loop.simps)
next
  case (Suc m)
  have k: "unat (of_nat k :: uint8) = k"
    using Suc by (simp add: unat_of_nat)
  then have lt: "(of_nat k :: uint8) < 10"
    using Suc.hyps(2) by (simp add: word_less_nat_alt)
  have "drop k (entry b) = entry b ! k # drop (Suc k) (entry b)"
    using Suc.hyps(2) assms(1) by (simp add: Cons_nth_drop_Suc)
  moreover have "foreach_loop body b (of_nat k + 1) = fold_opt body (drop (Suc k) (entry b))"
  proof
    fix s'
    show "foreach_loop body b (of_nat k + 1) s' = fold_opt body (drop (Suc k) (entry b)) s'"
      using Suc.hyps(1) [of "Suc k" s'] Suc.hyps(2) by (simp add: add.commute)
  qed
  ultimately show ?case
    using k lt Suc.hyps(2) assms(1) by (subst foreach_loop.simps) simp
qed

lemma foreach_correct:
  assumes "length (entry b) = 10"
  shows "AESD_CIRCULAR_BUFFER_FOREACH body b s = fold_opt body (entry b) s"
  using foreach_loop_drop [OF assms, of 0 body s]
  by (simp add: AESD_CIRCULAR_BUFFER_FOREACH_def)

section \<open>Position lookup at any position\<close>

lemma find_loop_total:
  assumes "cb_inv b" and "k < ring_count b"
  shows "\<exists>r. find_loop b (ring_slot b k) cp (walk_next b k) = Some r \<and>
     (\<forall>i off. r = Some (i, off) \<longrightarrow>
        (\<exists>j<ring_count b. i = ring_slot b j \<and> off < entry_size (entry b ! i)))"
  using assms(2)
proof (induction "ring_count b - k" arbitrary: k cp)
  case 0
  then show ?case by simp
next
  case (Suc m)
  let ?e = "entry b ! ring_slot b k"
  let ?cp' = "size_to_int (int_to_size cp - entry_size ?e)"
  have unfold: "find_loop b (ring_slot b k) cp (walk_next b k) =
      (if int_to_size cp < entry_size ?e then Some (Some (ring_slot b k, int_to_size cp))
       else if Suc k = ring_count b then Some None
       else find_loop b (ring_slot b (Suc k)) ?cp' (walk_next b (Suc k)))"
    using assms(1) Suc.prems by (subst find_loop.simps) (simp add: ring_simps)
  show ?case
  proof (cases "int_to_size cp < entry_size ?e \<or> Suc k = ring_count b")
    case True
    then show ?thesis using unfold Suc.prems by auto
  next
    case False
    then have "\<exists>r. find_loop b (ring_slot b (Suc k)) ?cp' (walk_next b (Suc k)) = Some r \<and>
        (\<forall>i off. r = Some (i, off) \<longrightarrow>
           (\<exists>j<ring_count b. i = ring_slot b j \<and> off < entry_size (entry b ! i)))"
      using Suc.hyps Suc.prems by (intro Suc.hyps(1)) auto
    with False unfold show ?thesis by simp
  qed
qed

lemma find_total:
  assumes "cb_inv b"
  obtains "aesd_circular_buffer_find_entry_offset_for_fpos (Some b) p = Some None"
  | j off where "aesd_circular_buffer_find_entry_offset_for_fpos (Some b) p = Some (Some (ring_slot b j, off))"
      "j < ring_count b" "off < entry_size (entries b ! j)"
proof (cases "ring_count b = 0")
  case True
  with ring_empty_iff [OF assms] that(1) show ?thesis
    by (simp add: aesd_circular_buffer_find_entry_offset_for_fpos_def)
next
  case False
  then obtain r where r: "find_loop b (ring_slot b 0) (size_to_int p) (walk_next b 0) = Some r"
    "\<forall>i off. r = Some (i, off) \<longrightarrow>
        (\<exists>j<ring_count b. i = ring_slot b j \<and> off < entry_size (entry b ! i))"
    using find_loop_total [OF assms, of 0] by blast
  have "aesd_circular_buffer_find_entry_offset_for_fpos (Some b) p = Some r"
    using False ring_empty_iff [OF assms] r(1) assms
    by (auto simp: aesd_circular_buffer_find_entry_offset_for_fpos_def walk_next_start ring_slot_start)
  with r(2) that show ?thesis by (cases r) auto
qed

section \<open>Properties\<close>

text \<open>A buffer with two commands of three and five bytes, for the instances below.\<close>

definition two_commands :: aesd_circular_buffer where
  "two_commands =
     \<lparr>entry = [\<lparr>buffptr = Blk 0, entry_size = 3\<rparr>, \<lparr>buffptr = Blk 1, entry_size = 5\<rparr>]
               @ replicate 8 \<lparr>buffptr = NULL, entry_size = 0\<rparr>,
      in_offs = 2, out_offs = 0, full = False, cb_size = 8\<rparr>"

lemma two_commands_entries:
  "entries two_commands = [\<lparr>buffptr = Blk 0, entry_size = 3\<rparr>, \<lparr>buffptr = Blk 1, entry_size = 5\<rparr>]"
  by (simp add: entries_def two_commands_def ring_count_def ring_slot_def upt_rec)

lemma two_commands_inv: "cb_inv two_commands"
  unfolding cb_inv_def two_commands_entries
  by (simp add: two_commands_def total_size_def entry_len_def)

text \<open>
  C12: starting from an initialised buffer, any sequence of \<^verbatim>\<open>aesd_circular_buffer_add_entry\<close>
  calls returns, and leaves exactly the last ten entries, oldest first, with the byte count
  equal to the sum of their sizes modulo \<open>2 ^ 32\<close>; each entry that was pushed out is handed
  back to the caller exactly once, in order, and \<^verbatim>\<open>NULL\<close> before that.
\<close>

theorem add_entry_keeps_last_ten:
  "\<exists>b ps. add_all aesd_circular_buffer_add_entry (Some (aesd_circular_buffer_init b0)) es = Some (Some b, ps)
     \<and> cb_inv b \<and> entries b = drop (length es - 10) es
     \<and> cb_size b = of_nat (sum_list (map (\<lambda>e. unat (entry_size e)) (drop (length es - 10) es)))
     \<and> ps = map (\<lambda>k. if k < 10 then NULL else buffptr (es ! (k - 10))) [0..<length es]"
proof -
  obtain b ps where b: "add_all aesd_circular_buffer_add_entry (Some (aesd_circular_buffer_init b0)) es = Some (Some b, ps)"
    "cb_inv b" "entries b = drop (length es - 10) es"
    "ps = map (\<lambda>k. if k < 10 then NULL else buffptr (es ! (k - 10))) [0..<length es]"
    using cb.add_all_last by blast
  then have "cb_size b = of_nat (sum_list (map (\<lambda>e. unat (entry_size e)) (drop (length es - 10) es)))"
    by (simp add: cb_inv_def total_size_def entry_len_def [abs_def])
  with b show ?thesis by blast
qed

text \<open>
  C13: for a well-formed buffer and a position below \<open>2 ^ 31\<close>, the search returns exactly
  the entry that holds the position in the concatenation of all entries, with the offset
  inside it, and \<^verbatim>\<open>NULL\<close> exactly when the position is at or past the end.
\<close>

theorem find_entry_offset_correct:
  assumes "cb_inv b" and "unat p < 2 ^ 31"
  shows "case aesd_circular_buffer_find_entry_offset_for_fpos (Some b) p of
           None \<Rightarrow> False
         | Some None \<Rightarrow> total_size (entries b) \<le> unat p
         | Some (Some (i, off)) \<Rightarrow>
             \<exists>j. slot b i = Some (entries b ! j) \<and> j < length (entries b) \<and>
                 off < entry_size (entries b ! j) \<and>
                 unat p = total_size (take j (entries b)) + unat off"
proof (cases "unat p < total_size (entries b)")
  case True
  obtain i j off where hit: "aesd_circular_buffer_find_entry_offset_for_fpos (Some b) p = Some (Some (i, of_nat off))"
    "slot b i = Some (entries b ! j)" "j < length (entries b)" "off < entry_len (entries b ! j)"
    "locate (map entry_len (entries b)) (unat p) = Some (j, off)"
    using cb.find_inside [OF assms] True unfolding total_size_def by blast
  have off: "unat (of_nat off :: size_t) = off"
    using hit(4) unsigned_less [of "entry_size (entries b ! j)", where 'a = nat]
    by (intro unat_of_nat_size) (simp add: entry_len_def)
  then have "of_nat off < entry_size (entries b ! j)"
    using hit(4) by (simp add: word_less_nat_alt entry_len_def)
  moreover have "unat p = total_size (take j (entries b)) + off"
    using locate_SomeD [OF hit(5)] by (simp add: total_size_def take_map)
  ultimately show ?thesis using hit off by (auto intro!: exI [of _ j])
next
  case False
  then show ?thesis using cb.find_end [OF assms] by (simp add: total_size_def)
qed

theorem find_entry_offset_correct_witness:
  "cb_inv two_commands \<and> unat (4 :: size_t) < 2 ^ 31 \<and>
   (case aesd_circular_buffer_find_entry_offset_for_fpos (Some two_commands) 4 of
           None \<Rightarrow> False
         | Some None \<Rightarrow> total_size (entries two_commands) \<le> unat (4 :: size_t)
         | Some (Some (i, off)) \<Rightarrow>
             \<exists>j. slot two_commands i = Some (entries two_commands ! j) \<and> j < length (entries two_commands) \<and>
                 off < entry_size (entries two_commands ! j) \<and>
                 unat (4 :: size_t) = total_size (take j (entries two_commands)) + unat off)"
proof -
  have "unat (4 :: size_t) < 2 ^ 31" by simp
  then show ?thesis using find_entry_offset_correct [OF two_commands_inv] two_commands_inv by blast
qed

text \<open>
  The position is narrowed to an \<^verbatim>\<open>int\<close>, so the search cannot tell positions apart that
  differ by a multiple of \<open>2 ^ 32\<close>: for such a position far behind the end of the data it
  returns an entry, where the header comment promises \<^verbatim>\<open>NULL\<close>.
\<close>

theorem find_entry_offset_wraps:
  assumes "cb_inv b" and "unat p < total_size (entries b)" and "unat p < 2 ^ 31"
  shows "\<exists>i off. aesd_circular_buffer_find_entry_offset_for_fpos (Some b) (p + of_nat k * 2 ^ 32)
                   = Some (Some (i, off)) \<and> off < 2 ^ 31"
proof -
  have "size_to_int (p + of_nat k * 2 ^ 32) = size_to_int p"
    by (simp add: ucast_eq_iff_mod unat_word_ariths unat_of_nat mod_simps mod_mod_cancel) 
  then have eq: "aesd_circular_buffer_find_entry_offset_for_fpos (Some b) (p + of_nat k * 2 ^ 32)
      = aesd_circular_buffer_find_entry_offset_for_fpos (Some b) p"
    by (simp add: aesd_circular_buffer_find_entry_offset_for_fpos_def)
  obtain i j off where hit: "aesd_circular_buffer_find_entry_offset_for_fpos (Some b) p = Some (Some (i, of_nat off))"
    "locate (map entry_len (entries b)) (unat p) = Some (j, off)"
    using cb.find_inside [OF assms(1,3)] assms(2) unfolding total_size_def by blast
  have "off \<le> unat p" using locate_SomeD [OF hit(2)] by simp
  then have "(of_nat off :: size_t) < 2 ^ 31"
    using assms(3) by (simp add: word_less_nat_alt unat_of_nat)
  with eq hit show ?thesis by auto
qed

theorem find_entry_offset_wraps_witness:
  "cb_inv two_commands \<and> unat (4 :: size_t) < total_size (entries two_commands) \<and> unat (4 :: size_t) < 2 ^ 31 \<and>
   (\<exists>i off. aesd_circular_buffer_find_entry_offset_for_fpos (Some two_commands) (4 + of_nat 1 * 2 ^ 32)
                   = Some (Some (i, off)) \<and> off < 2 ^ 31)"
proof -
  have "unat (4 :: size_t) < total_size (entries two_commands)" "unat (4 :: size_t) < 2 ^ 31"
    by (simp_all add: two_commands_entries total_size_def entry_len_def)
  then show ?thesis using find_entry_offset_wraps [OF two_commands_inv, of 4 1] two_commands_inv by blast
qed

text \<open>
  C14: at any position whatever, the search returns, and what it returns is an entry in use
  with an offset inside that entry, so the caller's read of the rest of the entry stays in
  bounds.
\<close>

theorem find_entry_offset_in_bounds:
  assumes "cb_inv b"
  shows "\<exists>r. aesd_circular_buffer_find_entry_offset_for_fpos (Some b) p = Some r \<and>
           (\<forall>i off. r = Some (i, off) \<longrightarrow>
              (\<exists>e\<in>set (entries b). slot b i = Some e \<and> off < entry_size e))"
proof (cases rule: find_total [OF assms, of p])
  case 1
  then show ?thesis by simp
next
  case (2 j off)
  then have "entries b ! j \<in> set (entries b)" by (intro nth_mem) simp
  with 2 slot_ring_slot [OF assms 2(2)] show ?thesis by auto
qed

theorem find_entry_offset_in_bounds_witness:
  "cb_inv two_commands \<and>
   (\<exists>r. aesd_circular_buffer_find_entry_offset_for_fpos (Some two_commands) (- 1) = Some r \<and>
           (\<forall>i off. r = Some (i, off) \<longrightarrow>
              (\<exists>e\<in>set (entries two_commands). slot two_commands i = Some e \<and> off < entry_size e)))"
  using find_entry_offset_in_bounds [OF two_commands_inv] two_commands_inv by blast



text \<open>
  When the entries own pairwise different live blocks, \<^verbatim>\<open>cleanup_circulat_buffers\<close> returns
  without a fault and frees exactly these blocks, each once; every other block survives.
\<close>

theorem cleanup_frees_exactly_entries:
  assumes "kernel_ok K" and "cb_inv b" and "owned h (map buffptr (entries b))"
  shows "\<exists>h'. cleanup_circulat_buffers K (Some b) h = Some h' \<and>
              (\<forall>a. h' a = (if \<exists>e\<in>set (entries b). buffptr e = Blk a then None else h a))"
proof -
  obtain h' where h': "kfree_all K (map buffptr (entries b)) h = Some h'"
    "\<forall>a. h' a = (if a \<in> set (all_blocks (map buffptr (entries b))) then None else h a)"
    using kfree_all_owned [OF kernel_okD(2) [OF assms(1)]] assms(3) unfolding owned_def by blast
  have "a \<in> set (all_blocks (map buffptr (entries b))) \<longleftrightarrow> (\<exists>e\<in>set (entries b). buffptr e = Blk a)" for a
    by (auto simp: set_all_blocks blocks_of_iff)
  with h' cleanup_correct [OF assms(2)] show ?thesis by simp
qed

theorem cleanup_frees_exactly_entries_witness:
  "\<exists>h'. cleanup_circulat_buffers pool_kernel (Some two_commands)
           [0 \<mapsto> [1, 2, 10], 1 \<mapsto> [1, 2, 3, 4, 10], 7 \<mapsto> [9]] = Some h' \<and>
        h' 0 = None \<and> h' 1 = None \<and> h' 7 = Some [9]"
proof -
  let ?h = "[0 \<mapsto> [1, 2, 10], 1 \<mapsto> [1, 2, 3, 4, 10], 7 \<mapsto> [9]] :: heap"
  have "owned ?h (map buffptr (entries two_commands))"
    by (simp add: two_commands_entries owned_iff)
  then obtain h' where "cleanup_circulat_buffers pool_kernel (Some two_commands) ?h = Some h'"
    "\<forall>a. h' a = (if \<exists>e\<in>set (entries two_commands). buffptr e = Blk a then None else ?h a)"
    using cleanup_frees_exactly_entries [OF pool_kernel_ok two_commands_inv] by blast
  then show ?thesis by (simp add: two_commands_entries)
qed

text \<open>
  The iteration macro runs its body on all ten slots of the array, in index order, each
  once, and ends; a body that faults ends it with the fault.
\<close>

theorem foreach_visits_every_slot:
  assumes "cb_inv b"
  shows "AESD_CIRCULAR_BUFFER_FOREACH body b s = fold_opt body (entry b) s"
  using assms by (intro foreach_correct) (simp add: cb_inv_def)

theorem foreach_visits_every_slot_witness:
  "AESD_CIRCULAR_BUFFER_FOREACH (\<lambda>e n. Some (n + entry_size e)) two_commands 0 = Some 8"
  using foreach_visits_every_slot [OF two_commands_inv, of "\<lambda>e n. Some (n + entry_size e)" 0]
  by (simp add: two_commands_def numeral_eq_Suc)

end
