(* ===== verification/Char_Device.thy ===== *)
theory Char_Device
  imports Circular_Buffer
begin

text \<open>
  The handlers of the char driver \<^verbatim>\<open>aesd-char-driver/main.c\<close>, each a function of the kernel
  services, the driver's state and the open file.  The state holds kernel memory, user
  memory, the one device \<^verbatim>\<open>aesd_device\<close> and what the module has registered.  \<open>None\<close> is a
  kernel fault: a read or write outside a live block, a second \<^verbatim>\<open>kfree\<close>, a \<^verbatim>\<open>NULL\<close>
  \<^verbatim>\<open>private_data\<close> or an unlock of a mutex that is not held.  Debug output is left out.
\<close>

section \<open>State\<close>

datatype dev_ptr = Dev_NULL | Dev_aesd_device
datatype module_ptr = No_module | THIS_MODULE
datatype fops_ptr = No_fops | Ptr_aesd_fops

record cdev =
  cdev_owner :: module_ptr
  cdev_ops :: fops_ptr

record aesd_dev =
  buffer :: aesd_circular_buffer
  part_mem_ptr :: ptr
  part_buf_size :: int32
  buf_lock :: mutex
  dev_cdev :: cdev

record kfile =
  f_pos :: loff_t
  private_data :: dev_ptr

record kstate =
  kmem :: heap
  user :: umem
  aesd_device :: aesd_dev
  aesd_major :: uint32
  chrdev_region :: "uint32 option"
  cdev_live :: "uint32 option"

definition aesd_minor :: uint32 where "aesd_minor = 0"

text \<open>The device a \<^verbatim>\<open>private_data\<close> pointer leads to.\<close>

fun deref_dev :: "dev_ptr \<Rightarrow> kstate \<Rightarrow> aesd_dev option" where
  "deref_dev Dev_NULL s = None"
| "deref_dev Dev_aesd_device s = Some (aesd_device s)"

definition set_lock :: "mutex \<Rightarrow> kstate \<Rightarrow> kstate" where
  "set_lock m s = s\<lparr>aesd_device := (aesd_device s)\<lparr>buf_lock := m\<rparr>\<rparr>"

section \<open>Open, release and read\<close>

definition aesd_open :: "dev_ptr \<Rightarrow> kfile \<Rightarrow> int32 \<times> kfile" where
  "aesd_open i_cdev filp = (0, filp\<lparr>private_data := i_cdev\<rparr>)"

definition aesd_release :: "kfile \<Rightarrow> int32 \<times> kfile" where
  "aesd_release filp = (0, filp\<lparr>private_data := Dev_NULL\<rparr>)"

definition aesd_read ::
  "kernel \<Rightarrow> kstate \<Rightarrow> kfile \<Rightarrow> uaddr \<Rightarrow> size_t \<Rightarrow> loff_t \<Rightarrow> (ssize_t \<times> kstate \<times> loff_t) option" where
  "aesd_read K s filp buf count fpos =
     do {
       dev \<leftarrow> deref_dev (private_data filp) s;
       let (rc, m) = mutex_lock_interruptible K (buf_lock dev);
       if rc \<noteq> 0 then Some (- of_nat ERESTARTSYS, set_lock m s, fpos)
       else do {
         r \<leftarrow> aesd_circular_buffer_find_entry_offset_for_fpos (Some (buffer dev)) fpos;
         (case r of
            None \<Rightarrow> do {
              m' \<leftarrow> mutex_unlock K m;
              Some (0, set_lock m' s, fpos)
            }
          | Some (i, relative_pos) \<Rightarrow> do {
              rd_entry \<leftarrow> nth_opt (entry (buffer dev)) i;
              let n = entry_size rd_entry - relative_pos;
              src \<leftarrow> heap_read (kmem s) (buffptr rd_entry) (unat relative_pos) (unat n);
              let (left, um) = copy_to_user K (user s) buf src;
              let (retval, fpos') = (if left = 0 then (n, fpos + n) else (0, fpos));
              m' \<leftarrow> mutex_unlock K m;
              Some (retval, (set_lock m' s)\<lparr>user := um\<rparr>, fpos')
            })
       }
     }"

section \<open>Write\<close>

definition handle_partial_data ::
  "kernel \<Rightarrow> heap \<Rightarrow> ptr \<Rightarrow> int32 \<Rightarrow> ptr \<Rightarrow> int32 \<Rightarrow> (ptr \<times> heap) option" where
  "handle_partial_data K h partial_data_buf partial_mem_size new_data_ptr new_size =
     (if partial_data_buf = NULL then Some (new_data_ptr, h)
      else let (buf, h1) = kmalloc K h (int_to_size new_size) in
        if buf = NULL then Some (NULL, h1)
        else do {
          h2 \<leftarrow> memcpy h1 buf 0 partial_data_buf (unat (int_to_size partial_mem_size));
          h3 \<leftarrow> memcpy h2 buf (unat (int_to_size partial_mem_size)) new_data_ptr
                  (unat (int_to_size (new_size - partial_mem_size)));
          h4 \<leftarrow> kfree K h3 partial_data_buf;
          Some (buf, h4)
        })"

definition newline :: byte where "newline = 10"

function is_data_partial_loop :: "heap \<Rightarrow> ptr \<Rightarrow> nat \<Rightarrow> nat \<Rightarrow> bool \<Rightarrow> bool option" where
  "is_data_partial_loop h p n count partial =
     (if n < count
      then do {
        c \<leftarrow> heap_byte h p n;
        is_data_partial_loop h p (Suc n) count (if c = newline then False else partial)
      }
      else Some partial)"
  by pat_completeness auto
termination
  by (relation "measure (\<lambda>(h, p, n, count, partial). count - n)") auto

declare is_data_partial_loop.simps [simp del]

definition is_data_partial :: "heap \<Rightarrow> ptr \<Rightarrow> size_t \<Rightarrow> bool option" where
  "is_data_partial h p count = is_data_partial_loop h p 0 (unat count) True"

text \<open>
  Joining what is in the partial buffer with the new data: the entry's pointer, the value
  of \<^verbatim>\<open>total_buf_size\<close>, the heap, and the new \<^verbatim>\<open>part_mem_ptr\<close> and \<^verbatim>\<open>part_buf_size\<close>.
\<close>

definition merged_ptr ::
  "kernel \<Rightarrow> aesd_dev \<Rightarrow> heap \<Rightarrow> ptr \<Rightarrow> size_t \<Rightarrow> (ptr \<times> int32 \<times> heap \<times> ptr \<times> int32) option" where
  "merged_ptr K dev h p count =
     (if part_mem_ptr dev \<noteq> NULL
      then do {
        (q, h1) \<leftarrow> handle_partial_data K h (part_mem_ptr dev) (part_buf_size dev) p
                     (size_to_int (int_to_size (part_buf_size dev) + count));
        Some (q, size_to_int (int_to_size (part_buf_size dev) + count), h1, NULL, 0)
      }
      else Some (p, 0, h, part_mem_ptr dev, part_buf_size dev))"

text \<open>The branch for data with a newline: \<open>p\<close> is the copy of the user's data in the heap \<open>h\<close>.\<close>

definition write_complete ::
  "kernel \<Rightarrow> kstate \<Rightarrow> dev_ptr \<Rightarrow> heap \<Rightarrow> ptr \<Rightarrow> size_t \<Rightarrow> loff_t
     \<Rightarrow> (ssize_t \<times> kstate \<times> loff_t) option" where
  "write_complete K s devp h p count fpos =
     do {
       dev \<leftarrow> deref_dev devp s;
       let (rc, m) = mutex_lock_interruptible K (buf_lock dev);
       if rc \<noteq> 0 then do { h' \<leftarrow> kfree K h p; Some (0, (set_lock m s)\<lparr>kmem := h'\<rparr>, fpos) }
       else do {
         (bp, total_buf_size, h1, pmem, psize) \<leftarrow> merged_ptr K dev h p count;
         let sz = (if total_buf_size \<noteq> 0 then int_to_size total_buf_size else count);
         (bo, rm_buffptr) \<leftarrow> aesd_circular_buffer_add_entry (Some (buffer dev))
                               \<lparr>buffptr = bp, entry_size = sz\<rparr>;
         b \<leftarrow> bo;
         m' \<leftarrow> mutex_unlock K m;
         h2 \<leftarrow> (if rm_buffptr \<noteq> NULL then kfree K h1 rm_buffptr else Some h1);
         Some (count,
               s\<lparr>kmem := h2,
                 aesd_device := dev\<lparr>buffer := b, part_mem_ptr := pmem, part_buf_size := psize,
                                    buf_lock := m'\<rparr>\<rparr>,
               fpos + sz)
       }
     }"

definition write_partial ::
  "kernel \<Rightarrow> kstate \<Rightarrow> dev_ptr \<Rightarrow> heap \<Rightarrow> ptr \<Rightarrow> size_t \<Rightarrow> loff_t
     \<Rightarrow> (ssize_t \<times> kstate \<times> loff_t) option" where
  "write_partial K s devp h p count fpos =
     do {
       dev \<leftarrow> deref_dev devp s;
       let (rc, m) = mutex_lock_interruptible K (buf_lock dev);
       if rc \<noteq> 0 then Some (0, (set_lock m s)\<lparr>kmem := h\<rparr>, fpos)
       else do {
         (q, h1) \<leftarrow> handle_partial_data K h (part_mem_ptr dev) (part_buf_size dev) p
                      (size_to_int (int_to_size (part_buf_size dev) + count));
         m' \<leftarrow> mutex_unlock K m;
         Some (count,
               s\<lparr>kmem := h1,
                 aesd_device := dev\<lparr>part_mem_ptr := q,
                   part_buf_size := size_to_int (int_to_size (part_buf_size dev) + count),
                   buf_lock := m'\<rparr>\<rparr>,
               fpos)
       }
     }"

text \<open>
  A failed copy from user space is only logged: the bytes that were copied are followed by
  whatever \<^verbatim>\<open>kmalloc\<close> left in the block.
\<close>

definition aesd_write ::
  "kernel \<Rightarrow> kstate \<Rightarrow> kfile \<Rightarrow> uaddr \<Rightarrow> size_t \<Rightarrow> loff_t \<Rightarrow> (ssize_t \<times> kstate \<times> loff_t) option" where
  "aesd_write K s filp buf count fpos =
     (let (p, h1) = kmalloc K (kmem s) count in
      if p = NULL then Some (- of_nat ENOMEM, s\<lparr>kmem := h1\<rparr>, fpos)
      else do {
        let (left, cs) = copy_from_user K (user s) buf count;
        h2 \<leftarrow> heap_write h1 p 0 cs;
        partial_data \<leftarrow> is_data_partial h2 p count;
        if \<not> partial_data then write_complete K s (private_data filp) h2 p count fpos
        else write_partial K s (private_data filp) h2 p count fpos
      })"

section \<open>Seek and ioctl\<close>

definition aesd_llseek ::
  "kernel \<Rightarrow> kstate \<Rightarrow> kfile \<Rightarrow> loff_t \<Rightarrow> int32 \<Rightarrow> (loff_t \<times> kstate \<times> kfile) option" where
  "aesd_llseek K s filp offset whence =
     (if whence \<in> {SEEK_SET, SEEK_CUR, SEEK_END}
      then do {
        dev \<leftarrow> deref_dev (private_data filp) s;
        let (rc, m) = mutex_lock_interruptible K (buf_lock dev);
        if rc \<noteq> 0 then Some (- of_nat ERESTARTSYS, set_lock m s, filp)
        else do {
          m' \<leftarrow> mutex_unlock K m;
          let (r, pos) = fixed_size_llseek K (f_pos filp) offset whence
                           (uint_to_size (cb_size (buffer dev)));
          Some (r, set_lock m' s, filp\<lparr>f_pos := pos\<rparr>)
        }
      }
      else Some (- of_nat EINVAL, s, filp))"

record aesd_seekto =
  write_cmd :: uint32
  write_cmd_offset :: uint32

definition AESD_IOC_MAGIC :: byte where "AESD_IOC_MAGIC = 0x16"

text \<open>\<^verbatim>\<open>sizeof(struct aesd_seekto)\<close> is 8; its fields are little-endian in user memory.\<close>

definition AESDCHAR_IOCSEEKTO :: "kernel \<Rightarrow> uint32" where
  "AESDCHAR_IOCSEEKTO K = IOWR K AESD_IOC_MAGIC 1 8"

definition le32 :: "byte list \<Rightarrow> uint32" where
  "le32 bs = foldr (\<lambda>b acc. ucast b + 256 * acc) bs 0"

definition seekto_of_bytes :: "byte list \<Rightarrow> aesd_seekto" where
  "seekto_of_bytes bs = \<lparr>write_cmd = le32 (take 4 bs), write_cmd_offset = le32 (take 4 (drop 4 bs))\<rparr>"

definition aesd_ioctl ::
  "kernel \<Rightarrow> kstate \<Rightarrow> kfile \<Rightarrow> uint32 \<Rightarrow> uaddr \<Rightarrow> (int32 \<times> kstate \<times> kfile) option" where
  "aesd_ioctl K s filp cmd arg =
     (if cmd = AESDCHAR_IOCSEEKTO K
      then let (left, bs) = copy_from_user K (user s) arg 8 in
        if left \<noteq> 0 then Some (of_nat EFAULT, s, filp)
        else do {
          let seekto = seekto_of_bytes bs;
          dev \<leftarrow> deref_dev (private_data filp) s;
          let (rc, m) = mutex_lock_interruptible K (buf_lock dev);
          if rc \<noteq> 0 then Some (- of_nat ERESTARTSYS, set_lock m s, filp)
          else do {
            (retval, pos) \<leftarrow> aesd_adjust_file_offset (buffer dev) (f_pos filp)
                               (write_cmd seekto) (write_cmd_offset seekto);
            m' \<leftarrow> mutex_unlock K m;
            Some (retval, set_lock m' s, filp\<lparr>f_pos := pos\<rparr>)
          }
        }
      else Some (-1, s, filp))"

record file_operations =
  fop_owner :: module_ptr
  fop_read :: "kernel \<Rightarrow> kstate \<Rightarrow> kfile \<Rightarrow> uaddr \<Rightarrow> size_t \<Rightarrow> loff_t \<Rightarrow> (ssize_t \<times> kstate \<times> loff_t) option"
  fop_write :: "kernel \<Rightarrow> kstate \<Rightarrow> kfile \<Rightarrow> uaddr \<Rightarrow> size_t \<Rightarrow> loff_t \<Rightarrow> (ssize_t \<times> kstate \<times> loff_t) option"
  fop_open :: "dev_ptr \<Rightarrow> kfile \<Rightarrow> int32 \<times> kfile"
  fop_llseek :: "kernel \<Rightarrow> kstate \<Rightarrow> kfile \<Rightarrow> loff_t \<Rightarrow> int32 \<Rightarrow> (loff_t \<times> kstate \<times> kfile) option"
  fop_release :: "kfile \<Rightarrow> int32 \<times> kfile"
  fop_ioctl :: "kernel \<Rightarrow> kstate \<Rightarrow> kfile \<Rightarrow> uint32 \<Rightarrow> uaddr \<Rightarrow> (int32 \<times> kstate \<times> kfile) option"

definition aesd_fops :: file_operations where
  "aesd_fops =
     \<lparr>fop_owner = THIS_MODULE, fop_read = aesd_read, fop_write = aesd_write,
      fop_open = aesd_open, fop_llseek = aesd_llseek, fop_release = aesd_release,
      fop_ioctl = aesd_ioctl\<rparr>"

section \<open>Module entry and exit\<close>

definition unregister_chrdev_region :: "uint32 \<Rightarrow> kstate \<Rightarrow> kstate" where
  "unregister_chrdev_region d s =
     s\<lparr>chrdev_region := (if chrdev_region s = Some d then None else chrdev_region s)\<rparr>"

definition aesd_setup_cdev :: "kernel \<Rightarrow> kstate \<Rightarrow> int32 \<times> kstate" where
  "aesd_setup_cdev K s =
     (let devno = MKDEV K (aesd_major s) aesd_minor;
          s1 = s\<lparr>aesd_device := (aesd_device s)
                  \<lparr>dev_cdev := \<lparr>cdev_owner = THIS_MODULE, cdev_ops = Ptr_aesd_fops\<rparr>\<rparr>\<rparr>;
          err = cdev_add K devno
      in (err, if err = 0 then s1\<lparr>cdev_live := Some devno\<rparr> else s1))"

definition zero_dev :: "aesd_dev \<Rightarrow> aesd_dev" where
  "zero_dev d =
     d\<lparr>buffer := aesd_circular_buffer_init (buffer d), part_mem_ptr := NULL, part_buf_size := 0,
       buf_lock := Unlocked, dev_cdev := \<lparr>cdev_owner = No_module, cdev_ops = No_fops\<rparr>\<rparr>"

definition aesd_init_module :: "kernel \<Rightarrow> kstate \<Rightarrow> int32 \<times> kstate" where
  "aesd_init_module K s =
     (let (result, d) = alloc_chrdev_region K aesd_minor;
          s1 = s\<lparr>aesd_major := MAJOR K d\<rparr> in
      if sint result < 0 then (result, s1)
      else let s2 = s1\<lparr>chrdev_region := Some d, aesd_device := zero_dev (aesd_device s1)\<rparr>;
               s3 = set_lock Unlocked s2;
               (result, s4) = aesd_setup_cdev K s3
           in (result, if result \<noteq> 0 then unregister_chrdev_region d s4 else s4))"

text \<open>An interrupted lock is only logged; the cleanup and the unlock follow all the same.\<close>

definition aesd_cleanup_module :: "kernel \<Rightarrow> kstate \<Rightarrow> kstate option" where
  "aesd_cleanup_module K s =
     do {
       let devno = MKDEV K (aesd_major s) aesd_minor;
       let (rc, m) = mutex_lock_interruptible K (buf_lock (aesd_device s));
       h \<leftarrow> cleanup_circulat_buffers K (Some (buffer (aesd_device s))) (kmem s);
       m' \<leftarrow> mutex_unlock K m;
       Some (unregister_chrdev_region devno ((set_lock m' s)\<lparr>kmem := h, cdev_live := None\<rparr>))
     }"

end
