(* ===== verification/Driver_Refinement.thy ===== *)
theory Driver_Refinement
  imports Char_Device
begin

text \<open>
  The device as its users see it: a log of at most ten commands and the bytes of a command
  whose newline has not arrived yet.  \<open>dev_inv\<close> ties the circular buffer, the partial
  buffer and the heap together; \<open>dev_cmds\<close> and \<open>dev_pending\<close> are the abstraction.  The
  lemmas follow each handler through its branches.
\<close>

section \<open>Invariant and abstraction\<close>

definition entry_ok :: "heap \<Rightarrow> aesd_buffer_entry \<Rightarrow> bool" where
  "entry_ok h e \<longleftrightarrow>
     entry_len e = length (block_of h (buffptr e)) \<and> 0 < entry_len e \<and> entry_len e \<le> KMALLOC_MAX_SIZE"

lemma entry_ok_cong:
  "block_of h' (buffptr e) = block_of h (buffptr e) \<Longrightarrow> entry_ok h' e = entry_ok h e"
  by (simp add: entry_ok_def)

definition part_ptrs :: "aesd_dev \<Rightarrow> ptr list" where
  "part_ptrs d = (if part_mem_ptr d = NULL then [] else [part_mem_ptr d])"

definition entry_ptrs :: "aesd_dev \<Rightarrow> ptr list" where
  "entry_ptrs d = map buffptr (entries (buffer d))"

definition dev_cmds :: "kstate \<Rightarrow> byte list list" where
  "dev_cmds s = map (block_of (kmem s)) (entry_ptrs (aesd_device s))"

definition dev_pending :: "kstate \<Rightarrow> byte list" where
  "dev_pending s = block_of (kmem s) (part_mem_ptr (aesd_device s))"

definition dev_inv :: "kstate \<Rightarrow> bool" where
  "dev_inv s \<longleftrightarrow>
     (let d = aesd_device s; h = kmem s in
      cb_inv (buffer d) \<and>
      owned h (entry_ptrs d @ part_ptrs d) \<and>
      (\<forall>e\<in>set (entries (buffer d)). entry_ok h e) \<and>
      unat (part_buf_size d) = length (dev_pending s) \<and>
      length (dev_pending s) \<le> KMALLOC_MAX_SIZE \<and>
      buf_lock d = Unlocked)"

text \<open>Allocated blocks that neither the log nor the partial buffer refers to.\<close>

definition garbage :: "kstate \<Rightarrow> nat set" where
  "garbage s = dom (kmem s) - set (all_blocks (entry_ptrs (aesd_device s) @ part_ptrs (aesd_device s)))"

lemma KMALLOC_MAX_value: "KMALLOC_MAX_SIZE = 33554432"
  by (simp add: KMALLOC_MAX_SIZE_def)

section \<open>The staged copy of the user's data\<close>

lemma stage_user_data:
  assumes K: "kernel_ok K" and alloc: "kmalloc K (kmem s) count = (p, h1)" "p \<noteq> NULL"
    and copy: "copy_from_user K (user s) buf count = (left, cs)"
  obtains h2 bs where "heap_write h1 p 0 cs = Some h2" "points_to h2 p bs"
    "length bs = unat count" "unat count \<le> KMALLOC_MAX_SIZE"
    "\<forall>a\<in>set (blocks_of p). kmem s a = None"
    "\<forall>a. a \<notin> set (blocks_of p) \<longrightarrow> h2 a = kmem s a"
    "left = 0 \<longrightarrow> bs = uload (user s) buf (unat count)"
proof -
  obtain bs where bs: "points_to h1 p bs" "length bs = unat count" "unat count \<le> KMALLOC_MAX_SIZE"
    "\<And>a. a \<in> set (blocks_of p) \<Longrightarrow> kmem s a = None"
    "\<And>a. a \<notin> set (blocks_of p) \<Longrightarrow> h1 a = kmem s a"
    using kmalloc_points_to [OF kernel_okD(1) [OF K] alloc] by blast
  have cs: "length cs \<le> length bs"
    using copy_from_user_length [OF kernel_okD(3) [OF K] copy] bs(2) by simp
  obtain h2 where h2: "heap_write h1 p 0 cs = Some h2" "points_to h2 p (cs @ drop (length cs) bs)"
    "\<forall>a. a \<notin> set (blocks_of p) \<longrightarrow> h2 a = h1 a"
    using points_to_write_prefix [OF bs(1) cs] by blast
  have "cs @ drop (length cs) bs = uload (user s) buf (unat count)" if "left = 0"
    using copy_from_user_all [OF kernel_okD(3) [OF K], of "user s" buf count cs] copy that bs(2)
    by simp
  then show ?thesis
    using that [OF h2(1,2)] h2(3) bs cs by simp
qed

lemma is_data_partial_loop_correct:
  assumes "points_to h p bs" and "n \<le> length bs"
  shows "is_data_partial_loop h p n (length bs) c = Some (c \<and> newline \<notin> set (drop n bs))"
  using assms(2)
proof (induction "length bs - n" arbitrary: n c)
  case 0
  then show ?case by (simp add: is_data_partial_loop.simps)
next
  case (Suc m)
  then have "drop n bs = bs ! n # drop (Suc n) bs" by (simp add: Cons_nth_drop_Suc)
  with Suc assms(1) show ?case
    by (subst is_data_partial_loop.simps) (auto simp: points_to_byte)
qed

lemma is_data_partial_correct:
  assumes "points_to h p bs" and "length bs = unat count"
  shows "is_data_partial h p count = Some (newline \<notin> set bs)"
  using is_data_partial_loop_correct [OF assms(1), of 0 True] assms(2)
  by (simp add: is_data_partial_def)

section \<open>Joining the partial buffer\<close>

lemma new_size_word:
  assumes "unat (psize :: int32) = m" and "unat (count :: size_t) = n" and "m + n < 2 ^ 31"
  shows "unat (size_to_int (int_to_size psize + count)) = m + n"
    and "int_to_size (size_to_int (int_to_size psize + count)) = of_nat (m + n)"
    and "unat (int_to_size (size_to_int (int_to_size psize + count) - psize)) = n"
    and "unat (int_to_size psize) = m"
proof -
  have p: "unat (int_to_size psize) = m"
    using assms by (subst unat_scast_nonneg) auto
  then show "unat (int_to_size psize) = m" .
  have sum: "unat (int_to_size psize + count) = m + n"
    using p assms by (simp add: unat_word_ariths)
  then show i: "unat (size_to_int (int_to_size psize + count)) = m + n"
    using assms(3) by (subst unat_ucast_64_32) auto
  then have "unat (int_to_size (size_to_int (int_to_size psize + count))) = m + n"
    using assms(3) by (subst unat_scast_nonneg) auto
  then show "int_to_size (size_to_int (int_to_size psize + count)) = of_nat (m + n)"
    by (rule size_t_eq_of_natI)
  have "unat (size_to_int (int_to_size psize + count) - psize) = n"
    using i assms(1) by (simp add: unat_sub word_le_nat_alt)
  then show "unat (int_to_size (size_to_int (int_to_size psize + count) - psize)) = n"
    using assms(3) by (subst unat_scast_nonneg) auto
qed

text \<open>
  With pending data and a successful allocation the result is a new block that holds the
  pending bytes followed by the new ones; the old partial buffer is freed, the staged copy
  \<open>p\<close> is not.
\<close>

lemma handle_partial_data_join:
  assumes K: "kernel_ok K" and q: "points_to h q ps" and p: "points_to h p ns"
    and disj: "set (blocks_of p) \<inter> set (blocks_of q) = {}"
    and len: "unat psize = length ps" "unat count = length ns" "length ps + length ns < 2 ^ 31"
    and alloc: "fst (kmalloc K h (of_nat (length ps + length ns))) \<noteq> NULL"
  obtains r h' where
    "handle_partial_data K h q psize p (size_to_int (int_to_size psize + count)) = Some (r, h')"
    "points_to h' r (ps @ ns)" "length ps + length ns \<le> KMALLOC_MAX_SIZE"
    "\<And>a. a \<in> set (blocks_of r) \<Longrightarrow> h a = None"
    "\<And>a. a \<notin> set (blocks_of r) \<Longrightarrow> h' a = (if a \<in> set (blocks_of q) then None else h a)"
proof -
  note w = new_size_word [OF len]
  have qn: "q \<noteq> NULL" using q by auto
  obtain r h1 where rh: "kmalloc K h (of_nat (length ps + length ns)) = (r, h1)" "r \<noteq> NULL"
    using alloc by (cases "kmalloc K h (of_nat (length ps + length ns))") auto
  have "unat (of_nat (length ps + length ns) :: size_t) = length ps + length ns"
    using len(3) by (intro unat_of_nat_size) simp
  then obtain bs where bs: "points_to h1 r bs" "length bs = length ps + length ns"
    "length ps + length ns \<le> KMALLOC_MAX_SIZE"
    "\<And>a. a \<in> set (blocks_of r) \<Longrightarrow> h a = None"
    "\<And>a. a \<notin> set (blocks_of r) \<Longrightarrow> h1 a = h a"
    using kmalloc_points_to [OF kernel_okD(1) [OF K] rh] by metis
  have fresh: "set (blocks_of r) \<inter> set (blocks_of q) = {}" "set (blocks_of r) \<inter> set (blocks_of p) = {}"
    using bs(4) q p points_to_allocated by fastforce+
  have q1: "points_to h1 q ps" and p1: "points_to h1 p ns"
    using points_to_frame [OF q, of h1] points_to_frame [OF p, of h1] bs(5) fresh by blast+
  obtain h2 where h2: "heap_write h1 r 0 ps = Some h2" "points_to h2 r (ps @ drop (length ps) bs)"
    "\<forall>a. a \<notin> set (blocks_of r) \<longrightarrow> h2 a = h1 a"
    using points_to_write_prefix [OF bs(1), of ps] bs(2) by auto
  have p2: "points_to h2 p ns" and q2: "points_to h2 q ps"
    using points_to_frame [OF p1, of h2] points_to_frame [OF q1, of h2] h2(3) fresh by blast+
  obtain h3 where h3: "heap_write h2 r (length ps) ns = Some h3" "points_to h3 r (ps @ ns)"
    "\<forall>a. a \<notin> set (blocks_of r) \<longrightarrow> h3 a = h2 a"
    using points_to_write_suffix [OF h2(2), of "length ps" ns] bs(2) by auto
  have q3: "points_to h3 q ps"
    using points_to_frame [OF q2, of h3] h3(3) fresh by blast
  obtain h4 where h4: "kfree K h3 q = Some h4"
    "\<And>a. a \<notin> set (blocks_of q) \<Longrightarrow> h4 a = h3 a" "\<And>a. a \<in> set (blocks_of q) \<Longrightarrow> h4 a = None"
    using kfree_points_to [OF kernel_okD(2) [OF K] q3] by blast
  have "handle_partial_data K h q psize p (size_to_int (int_to_size psize + count)) = Some (r, h4)"
    using qn rh q1 p2 h2(1) h3(1) h4(1) w
    by (simp add: handle_partial_data_def memcpy_def points_to_read)
  moreover have "points_to h4 r (ps @ ns)"
    using points_to_frame [OF h3(2), of h4] h4(2) fresh by blast
  ultimately show ?thesis
    using that [of r h4] bs(3,4,5) h2(3) h3(3) h4(2,3) by simp
qed

lemma handle_partial_data_fail:
  assumes "kernel_ok K" and "q \<noteq> NULL" and "unat psize = m" and "unat count = n" and "m + n < 2 ^ 31"
    and "fst (kmalloc K h (of_nat (m + n))) = NULL"
  shows "handle_partial_data K h q psize p (size_to_int (int_to_size psize + count)) = Some (NULL, h)"
proof -
  obtain h1 where h1: "kmalloc K h (of_nat (m + n)) = (NULL, h1)"
    using assms(6) by (cases "kmalloc K h (of_nat (m + n))") auto
  then have "h1 = h"
    using kernel_okD(1) [OF assms(1)] by (auto elim: kmalloc_cases)
  with h1 assms(2) new_size_word(2) [OF assms(3-5)] show ?thesis
    by (simp add: handle_partial_data_def)
qed

section \<open>Committing a command\<close>

definition evicted :: "aesd_circular_buffer \<Rightarrow> ptr list" where
  "evicted b = (if length (entries b) = 10 then [buffptr (hd (entries b))] else [])"

lemma set_all_blocks_push:
  assumes "distinct (all_blocks (map buffptr (entries b) @ [buffptr e]))"
  shows "set (all_blocks (map buffptr (push 10 (entries b) e)))
     = set (all_blocks (map buffptr (entries b) @ [buffptr e])) - set (all_blocks (evicted b))"
proof (cases "entries b")
  case Nil
  then show ?thesis by (simp add: push_def evicted_def)
next
  case (Cons x xs)
  then have "length xs \<le> 9" using ring_count_le [of b] by (simp flip: length_entries)
  with Cons assms show ?thesis by (auto simp: push_def evicted_def)
qed

lemma commit_entry:
  assumes K: "kernel_ok K" and inv: "cb_inv b"
    and own: "owned h (map buffptr (entries b) @ [buffptr e])"
    and ok: "\<forall>x\<in>set (entries b). entry_ok h x" "entry_ok h e"
  obtains b' rm h' where
    "aesd_circular_buffer_add_entry (Some b) e = Some (Some b', rm)"
    "(if rm \<noteq> NULL then kfree K h rm else Some h) = Some h'"
    "cb_inv b'" "entries b' = push 10 (entries b) e"
    "\<And>a. h' a = (if a \<in> set (all_blocks (evicted b)) then None else h a)"
proof -
  obtain b' where b': "aesd_circular_buffer_add_entry (Some b) e =
      Some (Some b', if length (entries b) = 10 then buffptr (hd (entries b)) else NULL)"
    "cb_inv b'" "entries b' = push 10 (entries b) e"
    using add_entry_correct [OF inv] by blast
  show ?thesis
  proof (cases "length (entries b) = 10")
    case True
    then obtain x xs where es: "entries b = x # xs" by (cases "entries b") auto
    have px: "points_to h (buffptr x) (block_of h (buffptr x))"
      using own es by (simp add: owned_Cons)
    obtain h' where h': "kfree K h (buffptr x) = Some h'"
      "\<And>a. a \<notin> set (blocks_of (buffptr x)) \<Longrightarrow> h' a = h a"
      "\<And>a. a \<in> set (blocks_of (buffptr x)) \<Longrightarrow> h' a = None"
      using kfree_points_to [OF kernel_okD(2) [OF K] px] by blast
    have "buffptr x \<noteq> NULL" using px by auto
    then show ?thesis
      using that [of b' "buffptr x" h'] b' True es h' by (simp add: evicted_def)
  next
    case False
    then show ?thesis using that [of b' NULL h] b' by (simp add: evicted_def)
  qed
qed

lemma commit_entry_state:
  assumes inv: "cb_inv b" and ent: "entries b' = push 10 (entries b) e"
    and own: "owned h (map buffptr (entries b) @ [buffptr e])"
    and ok: "\<forall>x\<in>set (entries b). entry_ok h x" "entry_ok h e"
    and h': "\<And>a. h' a = (if a \<in> set (all_blocks (evicted b)) then None else h a)"
  shows "owned h' (map buffptr (entries b'))"
    and "\<forall>x\<in>set (entries b'). entry_ok h' x"
    and "map (block_of h') (map buffptr (entries b'))
           = push 10 (map (block_of h) (map buffptr (entries b))) (block_of h (buffptr e))"
proof -
  have dist: "distinct (all_blocks (map buffptr (entries b) @ [buffptr e]))"
    using own by (simp add: owned_iff)
  have new: "owned h (map buffptr (entries b'))"
  proof (cases "length (entries b) < 10")
    case True
    then show ?thesis using own ent by (simp add: push_def)
  next
    case False
    then show ?thesis
      using own ent by (cases "entries b") (auto simp: push_def owned_Cons owned_append)
  qed
  have same: "h' a = h a" if "a \<in> set (all_blocks (map buffptr (entries b')))" for a
    using that h' set_all_blocks_push [OF dist] ent by auto
  show "owned h' (map buffptr (entries b'))"
    by (rule owned_frame(1) [OF new same])
  have blk: "map (block_of h') (map buffptr (entries b')) = map (block_of h) (map buffptr (entries b'))"
    by (rule owned_frame(2) [OF new same])
  then show "map (block_of h') (map buffptr (entries b'))
           = push 10 (map (block_of h) (map buffptr (entries b))) (block_of h (buffptr e))"
    unfolding ent by (simp add: map_push)
  have "set (entries b') \<subseteq> insert e (set (entries b))"
    using set_push ent by metis
  then have "\<forall>x\<in>set (entries b'). entry_ok h x"
    using ok by blast
  moreover have "block_of h' (buffptr x) = block_of h (buffptr x)" if "x \<in> set (entries b')" for x
    using blk that by simp
  ultimately show "\<forall>x\<in>set (entries b'). entry_ok h' x"
    using entry_ok_cong by metis
qed

definition staged :: "kstate \<Rightarrow> heap \<Rightarrow> ptr \<Rightarrow> byte list \<Rightarrow> bool" where
  "staged s h p bs \<longleftrightarrow>
     points_to h p bs \<and> length bs \<le> KMALLOC_MAX_SIZE \<and>
     (\<forall>a\<in>set (blocks_of p). kmem s a = None) \<and>
     (\<forall>a. a \<notin> set (blocks_of p) \<longrightarrow> h a = kmem s a)"

lemma dev_invD:
  assumes "dev_inv s"
  shows "cb_inv (buffer (aesd_device s))"
    and "owned (kmem s) (entry_ptrs (aesd_device s))"
    and "owned (kmem s) (part_ptrs (aesd_device s))"
    and "set (all_blocks (entry_ptrs (aesd_device s))) \<inter> set (all_blocks (part_ptrs (aesd_device s))) = {}"
    and "\<forall>e\<in>set (entries (buffer (aesd_device s))). entry_ok (kmem s) e"
    and "unat (part_buf_size (aesd_device s)) = length (dev_pending s)"
    and "length (dev_pending s) \<le> KMALLOC_MAX_SIZE"
    and "buf_lock (aesd_device s) = Unlocked"
  using assms by (auto simp: dev_inv_def Let_def owned_append)

lemma dev_inv_pending_null:
  assumes "dev_inv s" and "part_mem_ptr (aesd_device s) = NULL"
  shows "dev_pending s = []" and "part_buf_size (aesd_device s) = 0"
proof -
  show "dev_pending s = []" using assms(2) by (simp add: dev_pending_def)
  then show "part_buf_size (aesd_device s) = 0"
    using dev_invD(6) [OF assms(1)] by (simp add: unat_eq_0)
qed

lemma dev_inv_pending_ptr:
  assumes "dev_inv s" and "part_mem_ptr (aesd_device s) \<noteq> NULL"
  shows "points_to (kmem s) (part_mem_ptr (aesd_device s)) (dev_pending s)"
  using dev_invD(3) [OF assms(1)] assms(2) by (simp add: part_ptrs_def owned_Cons dev_pending_def)

lemma staged_entries:
  assumes "dev_inv s" and "staged s h p bs"
  shows "owned h (entry_ptrs (aesd_device s))"
    and "map (block_of h) (entry_ptrs (aesd_device s)) = dev_cmds s"
    and "set (all_blocks (entry_ptrs (aesd_device s))) \<inter> set (blocks_of p) = {}"
    and "set (all_blocks (part_ptrs (aesd_device s))) \<inter> set (blocks_of p) = {}"
proof -
  note inv = dev_invD [OF assms(1)]
  show e: "set (all_blocks (entry_ptrs (aesd_device s))) \<inter> set (blocks_of p) = {}"
    using assms(2) owned_allocated [OF inv(2)] by (fastforce simp: staged_def)
  show "set (all_blocks (part_ptrs (aesd_device s))) \<inter> set (blocks_of p) = {}"
    using assms(2) owned_allocated [OF inv(3)] by (fastforce simp: staged_def)
  have same: "h a = kmem s a" if "a \<in> set (all_blocks (entry_ptrs (aesd_device s)))" for a
    using that e assms(2) by (auto simp: staged_def)
  show "owned h (entry_ptrs (aesd_device s))"
    by (rule owned_frame(1) [OF inv(2) same])
  show "map (block_of h) (entry_ptrs (aesd_device s)) = dev_cmds s"
    unfolding dev_cmds_def by (rule owned_frame(2) [OF inv(2) same])
qed

lemma staged_pending:
  assumes "dev_inv s" and "staged s h p bs" and "part_mem_ptr (aesd_device s) \<noteq> NULL"
  shows "points_to h (part_mem_ptr (aesd_device s)) (dev_pending s)"
    and "set (blocks_of p) \<inter> set (blocks_of (part_mem_ptr (aesd_device s))) = {}"
proof -
  show d: "set (blocks_of p) \<inter> set (blocks_of (part_mem_ptr (aesd_device s))) = {}"
    using staged_entries(4) [OF assms(1,2)] assms(3) by (auto simp: part_ptrs_def)
  show "points_to h (part_mem_ptr (aesd_device s)) (dev_pending s)"
  proof (rule points_to_frame [OF dev_inv_pending_ptr [OF assms(1,3)]])
    fix a assume "a \<in> set (blocks_of (part_mem_ptr (aesd_device s)))"
    then have "a \<notin> set (blocks_of p)" using d by blast
    then show "h a = kmem s a" using assms(2) by (simp add: staged_def)
  qed
qed

lemma join_correct:
  assumes K: "kernel_ok K" and inv: "dev_inv s" and st: "staged s h p bs"
    and len: "unat count = length bs"
    and alloc: "part_mem_ptr (aesd_device s) \<noteq> NULL \<Longrightarrow>
      fst (kmalloc K h (of_nat (length (dev_pending s) + length bs))) \<noteq> NULL"
  obtains bp h1 where
    "handle_partial_data K h (part_mem_ptr (aesd_device s)) (part_buf_size (aesd_device s)) p
       (size_to_int (int_to_size (part_buf_size (aesd_device s)) + count)) = Some (bp, h1)"
    "points_to h1 bp (dev_pending s @ bs)" "length (dev_pending s @ bs) \<le> KMALLOC_MAX_SIZE"
    "owned h1 (entry_ptrs (aesd_device s) @ [bp])"
    "map (block_of h1) (entry_ptrs (aesd_device s)) = dev_cmds s"
    "dom h1 - set (blocks_of bp) = (dom (kmem s) - set (all_blocks (part_ptrs (aesd_device s))))
       \<union> (if part_mem_ptr (aesd_device s) = NULL then {} else set (blocks_of p))"
proof (cases "part_mem_ptr (aesd_device s) = NULL")
  case True
  have st': "points_to h p bs" "length bs \<le> KMALLOC_MAX_SIZE" "\<forall>a\<in>set (blocks_of p). kmem s a = None"
    "\<forall>a. a \<notin> set (blocks_of p) \<longrightarrow> h a = kmem s a"
    using st by (auto simp: staged_def)
  have "a \<in> dom h - set (blocks_of p) \<longleftrightarrow> a \<in> dom (kmem s)" for a
    using st'(3,4) by (cases "a \<in> set (blocks_of p)") auto
  then have "dom h - set (blocks_of p) = dom (kmem s)" by blast
  moreover have "owned h (entry_ptrs (aesd_device s) @ [p])"
    using staged_entries [OF inv st] st'(1)
    by (simp add: owned_append owned_Cons points_to_block_of)
  ultimately show ?thesis
    using that [of p h] True dev_inv_pending_null [OF inv True] st' staged_entries(2) [OF inv st]
    by (simp add: handle_partial_data_def part_ptrs_def)
next
  case False
  let ?q = "part_mem_ptr (aesd_device s)" and ?ps = "dev_pending s"
  have lt: "length ?ps + length bs < 2 ^ 31"
    using dev_invD(7) [OF inv] st by (simp add: staged_def KMALLOC_MAX_value)
  have st': "points_to h p bs" "\<forall>a\<in>set (blocks_of p). kmem s a = None"
    "\<forall>a. a \<notin> set (blocks_of p) \<longrightarrow> h a = kmem s a"
    using st by (auto simp: staged_def)
  obtain r h' where r: "handle_partial_data K h ?q (part_buf_size (aesd_device s)) p
        (size_to_int (int_to_size (part_buf_size (aesd_device s)) + count)) = Some (r, h')"
    "points_to h' r (?ps @ bs)" "length ?ps + length bs \<le> KMALLOC_MAX_SIZE"
    "\<And>a. a \<in> set (blocks_of r) \<Longrightarrow> h a = None"
    "\<And>a. a \<notin> set (blocks_of r) \<Longrightarrow> h' a = (if a \<in> set (blocks_of ?q) then None else h a)"
    using handle_partial_data_join [OF K staged_pending(1) [OF inv st False] st'(1)
        staged_pending(2) [OF inv st False] dev_invD(6) [OF inv] len lt alloc [OF False]] by blast
  have parts: "all_blocks (part_ptrs (aesd_device s)) = blocks_of ?q"
    using False by (simp add: part_ptrs_def)
  have fresh: "set (blocks_of r) \<inter> set (all_blocks (entry_ptrs (aesd_device s))) = {}"
    "set (blocks_of r) \<inter> set (blocks_of p) = {}"
    using r(4) owned_allocated [OF staged_entries(1) [OF inv st]] points_to_allocated [OF st'(1)] by fastforce+
  have same: "h' a = h a" if "a \<in> set (all_blocks (entry_ptrs (aesd_device s)))" for a
  proof -
    have "a \<notin> set (blocks_of r)" "a \<notin> set (blocks_of ?q)"
      using that fresh(1) dev_invD(4) [OF inv] parts by auto
    then show ?thesis using r(5) by simp
  qed
  have own: "owned h' (entry_ptrs (aesd_device s) @ [r])"
    using owned_frame(1) [OF staged_entries(1) [OF inv st] same] r(2) fresh
    by (auto simp: owned_append owned_Cons points_to_block_of)
  have cmds: "map (block_of h') (entry_ptrs (aesd_device s)) = dev_cmds s"
    using owned_frame(2) [OF staged_entries(1) [OF inv st] same] staged_entries(2) [OF inv st] by simp
  have kr: "kmem s a = None" if "a \<in> set (blocks_of r)" for a
    using r(4) [OF that] st'(3) fresh that by fastforce
  have "a \<in> dom h' - set (blocks_of r) \<longleftrightarrow> a \<in> (dom (kmem s) - set (blocks_of ?q)) \<union> set (blocks_of p)" for a
    using r(5) [of a] st'(3) points_to_allocated [OF st'(1)] kr fresh(2)
      staged_pending(2) [OF inv st False]
    by (cases "a \<in> set (blocks_of r)"; cases "a \<in> set (blocks_of p)") (auto simp: dom_def)
  then have dom: "dom h' - set (blocks_of r) = (dom (kmem s) - set (blocks_of ?q)) \<union> set (blocks_of p)"
    by blast
  show ?thesis
    using that [of r h'] False r(1-3) own cmds dom parts by simp
qed

text \<open>The pointer, the size and the fields the complete branch goes on with.\<close>

lemma merged_ptr_of_join:
  assumes inv: "dev_inv s" and len: "unat count = length bs" and ne: "bs \<noteq> []"
    and max: "length bs \<le> KMALLOC_MAX_SIZE"
    and join: "handle_partial_data K h (part_mem_ptr (aesd_device s)) (part_buf_size (aesd_device s)) p
       (size_to_int (int_to_size (part_buf_size (aesd_device s)) + count)) = Some (bp, h1)"
  obtains total where
    "merged_ptr K (aesd_device s) h p count = Some (bp, total, h1, NULL, 0)"
    "(if total \<noteq> 0 then int_to_size total else count) = of_nat (length (dev_pending s @ bs))"
proof (cases "part_mem_ptr (aesd_device s) = NULL")
  case True
  then show ?thesis
    using that [of 0] dev_inv_pending_null [OF inv True] len join size_t_eq_of_natI [OF len]
    by (simp add: merged_ptr_def handle_partial_data_def)
next
  case False
  have lt: "length (dev_pending s) + length bs < 2 ^ 31"
    using dev_invD(7) [OF inv] max by (simp add: KMALLOC_MAX_value)
  note w = new_size_word [OF dev_invD(6) [OF inv] len lt]
  have nz: "size_to_int (int_to_size (part_buf_size (aesd_device s)) + count) \<noteq> 0"
    using w(1) ne by (metis add_is_0 length_0_conv unat_0)
  then show ?thesis
    using that False join w(2) by (simp add: merged_ptr_def)
qed

section \<open>The write handler\<close>

lemma lock_taken:
  assumes "kernel_ok K" and "fst (mutex_lock_interruptible K Unlocked) = 0"
  shows "mutex_lock_interruptible K Unlocked = (0, Locked)"
proof (cases "mutex_lock_interruptible K Unlocked")
  case (Pair rc m)
  with assms(2) show ?thesis
    by (cases rule: mutex_lock_cases [OF kernel_okD(4) [OF assms(1)] Pair]) auto
qed

lemma lock_interrupted:
  assumes "kernel_ok K" and "fst (mutex_lock_interruptible K m) \<noteq> 0"
  shows "\<exists>rc. mutex_lock_interruptible K m = (rc, m) \<and> rc \<noteq> 0"
proof (cases "mutex_lock_interruptible K m")
  case (Pair rc m')
  with assms(2) show ?thesis
    by (cases rule: mutex_lock_cases [OF kernel_okD(4) [OF assms(1)] Pair]) auto
qed

lemma write_complete_correct:
  assumes K: "kernel_ok K" and inv: "dev_inv s" and st: "staged s h p bs"
    and len: "unat count = length bs" and ne: "bs \<noteq> []"
    and lock: "fst (mutex_lock_interruptible K Unlocked) = 0"
    and alloc: "part_mem_ptr (aesd_device s) \<noteq> NULL \<Longrightarrow>
      fst (kmalloc K h (of_nat (length (dev_pending s) + length bs))) \<noteq> NULL"
  obtains s' where
    "write_complete K s Dev_aesd_device h p count fpos =
       Some (count, s', fpos + of_nat (length (dev_pending s @ bs)))"
    "dev_inv s'" "dev_cmds s' = push 10 (dev_cmds s) (dev_pending s @ bs)" "dev_pending s' = []"
    "user s' = user s"
    "garbage s' = garbage s \<union> (if part_mem_ptr (aesd_device s) = NULL then {} else set (blocks_of p))"
proof -
  let ?d = "aesd_device s" and ?b = "buffer (aesd_device s)"
  obtain bp h1 where join: "handle_partial_data K h (part_mem_ptr ?d) (part_buf_size ?d) p
       (size_to_int (int_to_size (part_buf_size ?d) + count)) = Some (bp, h1)"
    and bp: "points_to h1 bp (dev_pending s @ bs)" and lmax: "length (dev_pending s @ bs) \<le> KMALLOC_MAX_SIZE"
    and own: "owned h1 (entry_ptrs ?d @ [bp])"
    and cmds: "map (block_of h1) (entry_ptrs ?d) = dev_cmds s"
    and dom: "dom h1 - set (blocks_of bp) = (dom (kmem s) - set (all_blocks (part_ptrs ?d)))
       \<union> (if part_mem_ptr ?d = NULL then {} else set (blocks_of p))"
    by (rule join_correct [OF K inv st len alloc])
  obtain total where mp: "merged_ptr K ?d h p count = Some (bp, total, h1, NULL, 0)"
    and sz: "(if total \<noteq> 0 then int_to_size total else count) = of_nat (length (dev_pending s @ bs))"
    using merged_ptr_of_join [OF inv len ne _ join] lmax by auto
  let ?e = "\<lparr>buffptr = bp, entry_size = of_nat (length (dev_pending s @ bs)) :: size_t\<rparr>"
  have lene: "unat (of_nat (length (dev_pending s @ bs)) :: size_t) = length (dev_pending s @ bs)"
    using lmax by (intro unat_of_nat_size) (simp add: KMALLOC_MAX_value)
  have eok: "entry_ok h1 ?e"
    using lene lmax ne points_to_block_of [OF bp]
    by (simp add: entry_ok_def entry_len_def del: of_nat_add length_append)
  have blk: "block_of h1 (buffptr x) = block_of (kmem s) (buffptr x)" if "x \<in> set (entries ?b)" for x
    using cmds that unfolding dev_cmds_def entry_ptrs_def by simp
  have ok: "\<forall>x\<in>set (entries ?b). entry_ok h1 x"
    using dev_invD(5) [OF inv] blk entry_ok_cong by metis
  have own': "owned h1 (map buffptr (entries ?b) @ [buffptr ?e])"
    using own by (simp add: entry_ptrs_def)
  obtain b' rm h2 where add: "aesd_circular_buffer_add_entry (Some ?b) ?e = Some (Some b', rm)"
    and free: "(if rm \<noteq> NULL then kfree K h1 rm else Some h1) = Some h2"
    and b': "cb_inv b'" "entries b' = push 10 (entries ?b) ?e"
    and h2: "\<And>a. h2 a = (if a \<in> set (all_blocks (evicted ?b)) then None else h1 a)"
    using commit_entry [OF K dev_invD(1) [OF inv] own' ok eok] by blast
  note post = commit_entry_state [OF dev_invD(1) [OF inv] b'(2) own' ok eok h2]
  let ?s' = "s\<lparr>kmem := h2, aesd_device := ?d\<lparr>buffer := b', part_mem_ptr := NULL,
       part_buf_size := 0, buf_lock := Unlocked\<rparr>\<rparr>"
  have run: "write_complete K s Dev_aesd_device h p count fpos =
      Some (count, ?s', fpos + of_nat (length (dev_pending s @ bs)))"
    using lock_taken [OF K lock] mp sz add free kernel_okD(4) [OF K] dev_invD(8) [OF inv]
    by (simp add: write_complete_def Let_def del: of_nat_add length_append)
  have pend: "dev_pending ?s' = []" by (simp add: dev_pending_def)
  have inv': "dev_inv ?s'"
    using b'(1) post(1,2) pend by (simp add: dev_inv_def Let_def entry_ptrs_def part_ptrs_def)
  have cmds': "dev_cmds ?s' = push 10 (dev_cmds s) (dev_pending s @ bs)"
  proof -
    have "dev_cmds ?s' = map (block_of h2) (map buffptr (entries b'))"
      by (simp add: dev_cmds_def entry_ptrs_def)
    also note post(3)
    also have "map (block_of h1) (map buffptr (entries ?b)) = dev_cmds s"
      using cmds by (simp only: entry_ptrs_def)
    finally show ?thesis using points_to_block_of [OF bp] by simp
  qed
  have dist: "distinct (all_blocks (map buffptr (entries ?b) @ [buffptr ?e]))"
    using own' by (simp add: owned_iff)
  have evs: "set (all_blocks (evicted ?b)) \<subseteq> set (all_blocks (entry_ptrs ?d))"
    by (cases "entries ?b") (auto simp: evicted_def entry_ptrs_def)
  have domh2: "dom h2 = dom h1 - set (all_blocks (evicted ?b))"
    using h2 by (auto simp: dom_def split: if_splits)
  have newblk: "set (all_blocks (map buffptr (entries b')))
      = set (all_blocks (entry_ptrs ?d)) \<union> set (blocks_of bp) - set (all_blocks (evicted ?b))"
    using set_all_blocks_push [OF dist] unfolding b'(2) by (simp add: entry_ptrs_def)
  have "garbage ?s' = (dom h1 - set (blocks_of bp)) - set (all_blocks (entry_ptrs ?d))"
    using domh2 newblk evs by (auto simp: garbage_def entry_ptrs_def part_ptrs_def)
  also have "\<dots> = garbage s \<union> (if part_mem_ptr ?d = NULL then {} else set (blocks_of p))"
    using dom staged_entries(3) [OF inv st] by (auto simp: garbage_def)
  finally show ?thesis
    using that [OF run inv' cmds' pend] by simp
qed

lemma write_partial_correct:
  assumes K: "kernel_ok K" and inv: "dev_inv s" and st: "staged s h p bs"
    and len: "unat count = length bs"
    and lock: "fst (mutex_lock_interruptible K Unlocked) = 0"
    and alloc: "part_mem_ptr (aesd_device s) \<noteq> NULL \<Longrightarrow>
      fst (kmalloc K h (of_nat (length (dev_pending s) + length bs))) \<noteq> NULL"
  obtains s' where
    "write_partial K s Dev_aesd_device h p count fpos = Some (count, s', fpos)"
    "dev_inv s'" "dev_cmds s' = dev_cmds s" "dev_pending s' = dev_pending s @ bs"
    "user s' = user s"
    "garbage s' = garbage s \<union> (if part_mem_ptr (aesd_device s) = NULL then {} else set (blocks_of p))"
proof -
  let ?d = "aesd_device s" and ?n = "size_to_int (int_to_size (part_buf_size (aesd_device s)) + count)"
  obtain bp h1 where join: "handle_partial_data K h (part_mem_ptr ?d) (part_buf_size ?d) p ?n = Some (bp, h1)"
    and bp: "points_to h1 bp (dev_pending s @ bs)" and lmax: "length (dev_pending s @ bs) \<le> KMALLOC_MAX_SIZE"
    and own: "owned h1 (entry_ptrs ?d @ [bp])"
    and cmds: "map (block_of h1) (entry_ptrs ?d) = dev_cmds s"
    and dom: "dom h1 - set (blocks_of bp) = (dom (kmem s) - set (all_blocks (part_ptrs ?d)))
       \<union> (if part_mem_ptr ?d = NULL then {} else set (blocks_of p))"
    by (rule join_correct [OF K inv st len alloc])
  let ?s' = "s\<lparr>kmem := h1, aesd_device := ?d\<lparr>part_mem_ptr := bp, part_buf_size := ?n,
       buf_lock := Unlocked\<rparr>\<rparr>"
  have n: "unat ?n = length (dev_pending s @ bs)"
    using new_size_word(1) [OF dev_invD(6) [OF inv] len] lmax by (simp add: KMALLOC_MAX_value)
  have run: "write_partial K s Dev_aesd_device h p count fpos = Some (count, ?s', fpos)"
    using lock_taken [OF K lock] join kernel_okD(4) [OF K] dev_invD(8) [OF inv]
    by (simp add: write_partial_def Let_def)
  have parts: "part_ptrs (aesd_device ?s') = [bp]"
    using bp by (auto simp: part_ptrs_def)
  have ents: "entry_ptrs (aesd_device ?s') = entry_ptrs ?d"
    by (simp add: entry_ptrs_def)
  have pend: "dev_pending ?s' = dev_pending s @ bs"
    using points_to_block_of [OF bp] by (simp add: dev_pending_def)
  have cmds': "dev_cmds ?s' = dev_cmds s"
    using cmds ents by (simp add: dev_cmds_def)
  have "block_of h1 (buffptr x) = block_of (kmem s) (buffptr x)" if "x \<in> set (entries (buffer ?d))" for x
    using cmds that unfolding dev_cmds_def entry_ptrs_def by simp
  then have ok: "\<forall>x\<in>set (entries (buffer ?d)). entry_ok h1 x"
    using dev_invD(5) [OF inv] entry_ok_cong by metis
  have inv': "dev_inv ?s'"
    unfolding dev_inv_def Let_def parts ents pend
    using own ok n lmax dev_invD(1) [OF inv] by simp
  have "garbage ?s' = (dom h1 - set (blocks_of bp)) - set (all_blocks (entry_ptrs ?d))"
    unfolding garbage_def parts ents by auto
  also have "\<dots> = garbage s \<union> (if part_mem_ptr ?d = NULL then {} else set (blocks_of p))"
    using dom staged_entries(3) [OF inv st] by (auto simp: garbage_def)
  finally show ?thesis
    using that [OF run inv' cmds' pend] by simp
qed

definition log_write :: "byte list list \<times> byte list \<Rightarrow> byte list \<Rightarrow> byte list list \<times> byte list" where
  "log_write L bs =
     (if newline \<in> set bs then (push 10 (fst L) (snd L @ bs), []) else (fst L, snd L @ bs))"

definition dev_log :: "kstate \<Rightarrow> byte list list \<times> byte list" where
  "dev_log s = (dev_cmds s, dev_pending s)"

definition join_ok :: "kernel \<Rightarrow> kstate \<Rightarrow> heap \<Rightarrow> size_t \<Rightarrow> bool" where
  "join_ok K s h count \<longleftrightarrow>
     part_mem_ptr (aesd_device s) = NULL \<or>
     fst (kmalloc K h (of_nat (length (dev_pending s) + unat count))) \<noteq> NULL"

definition write_join_ok :: "kernel \<Rightarrow> kstate \<Rightarrow> uaddr \<Rightarrow> size_t \<Rightarrow> bool" where
  "write_join_ok K s buf count \<longleftrightarrow>
     (case kmalloc K (kmem s) count of (p, h1) \<Rightarrow>
        (case heap_write h1 p 0 (snd (copy_from_user K (user s) buf count)) of
           None \<Rightarrow> False
         | Some h2 \<Rightarrow> join_ok K s h2 count))"

definition write_services_ok :: "kernel \<Rightarrow> kstate \<Rightarrow> uaddr \<Rightarrow> size_t \<Rightarrow> bool" where
  "write_services_ok K s buf count \<longleftrightarrow>
     fst (kmalloc K (kmem s) count) \<noteq> NULL \<and> fst (copy_from_user K (user s) buf count) = 0 \<and>
     fst (mutex_lock_interruptible K Unlocked) = 0 \<and> write_join_ok K s buf count"

lemma aesd_write_staged:
  assumes K: "kernel_ok K" and inv: "dev_inv s" and alloc: "fst (kmalloc K (kmem s) count) \<noteq> NULL"
  obtains p h bs where "staged s h p bs" "unat count = length bs"
    "aesd_write K s filp buf count fpos =
       (if newline \<in> set bs then write_complete K s (private_data filp) h p count fpos
        else write_partial K s (private_data filp) h p count fpos)"
    "fst (copy_from_user K (user s) buf count) = 0 \<longrightarrow> bs = uload (user s) buf (unat count)"
    "write_join_ok K s buf count = join_ok K s h count"
proof -
  obtain p h1 where a: "kmalloc K (kmem s) count = (p, h1)" "p \<noteq> NULL"
    using alloc by (cases "kmalloc K (kmem s) count") auto
  obtain left cs where c: "copy_from_user K (user s) buf count = (left, cs)" by fastforce
  obtain h2 bs where h2: "heap_write h1 p 0 cs = Some h2" "points_to h2 p bs"
    "length bs = unat count" "unat count \<le> KMALLOC_MAX_SIZE"
    "\<forall>a\<in>set (blocks_of p). kmem s a = None"
    "\<forall>a. a \<notin> set (blocks_of p) \<longrightarrow> h2 a = kmem s a"
    "left = 0 \<longrightarrow> bs = uload (user s) buf (unat count)"
    by (rule stage_user_data [OF K a c])
  have "staged s h2 p bs" using h2(2-6) by (simp add: staged_def)
  moreover have "is_data_partial h2 p count = Some (newline \<notin> set bs)"
    by (rule is_data_partial_correct [OF h2(2,3)])
  ultimately show ?thesis
    using that [of h2 p bs] a c h2(1,3,7) by (simp add: aesd_write_def write_join_ok_def)
qed

lemma aesd_write_stores:
  assumes K: "kernel_ok K" and inv: "dev_inv s" and f: "private_data filp = Dev_aesd_device"
    and alloc: "fst (kmalloc K (kmem s) count) \<noteq> NULL"
    and lock: "fst (mutex_lock_interruptible K Unlocked) = 0"
    and jok: "write_join_ok K s buf count"
  obtains s' bs where
    "aesd_write K s filp buf count fpos =
       Some (count, s', fpos + (if newline \<in> set bs then of_nat (length (dev_pending s @ bs)) else 0))"
    "dev_inv s'" "dev_log s' = log_write (dev_log s) bs" "user s' = user s"
    "part_mem_ptr (aesd_device s) = NULL \<longrightarrow> garbage s' = garbage s"
    "length bs = unat count"
    "fst (copy_from_user K (user s) buf count) = 0 \<longrightarrow> bs = uload (user s) buf (unat count)"
proof -
  obtain p h cs where st: "staged s h p cs" "unat count = length cs"
    and run: "aesd_write K s filp buf count fpos =
       (if newline \<in> set cs then write_complete K s (private_data filp) h p count fpos
        else write_partial K s (private_data filp) h p count fpos)"
    and cs: "fst (copy_from_user K (user s) buf count) = 0 \<longrightarrow> cs = uload (user s) buf (unat count)"
    and jo: "write_join_ok K s buf count = join_ok K s h count"
    by (rule aesd_write_staged [OF K inv alloc, where filp = filp and buf = buf and fpos = fpos])
  have join: "fst (kmalloc K h (of_nat (length (dev_pending s) + length cs))) \<noteq> NULL"
    if "part_mem_ptr (aesd_device s) \<noteq> NULL"
    using that jo jok st(2) by (simp add: join_ok_def)
  show ?thesis
  proof (cases "newline \<in> set cs")
    case True
    then have ne: "cs \<noteq> []" by auto
    obtain s' where "write_complete K s Dev_aesd_device h p count fpos =
       Some (count, s', fpos + of_nat (length (dev_pending s @ cs)))"
      "dev_inv s'" "dev_cmds s' = push 10 (dev_cmds s) (dev_pending s @ cs)" "dev_pending s' = []"
      "user s' = user s"
      "garbage s' = garbage s \<union> (if part_mem_ptr (aesd_device s) = NULL then {} else set (blocks_of p))"
      by (rule write_complete_correct [OF K inv st ne lock join])
    then show ?thesis
      using run f True
      by (intro that [of s' cs, OF _ _ _ _ _ st(2) [symmetric] cs]) (simp_all add: log_write_def dev_log_def)
  next
    case False
    obtain s' where "write_partial K s Dev_aesd_device h p count fpos = Some (count, s', fpos)"
      "dev_inv s'" "dev_cmds s' = dev_cmds s" "dev_pending s' = dev_pending s @ cs" "user s' = user s"
      "garbage s' = garbage s \<union> (if part_mem_ptr (aesd_device s) = NULL then {} else set (blocks_of p))"
      by (rule write_partial_correct [OF K inv st lock join])
    then show ?thesis
      using run f False
      by (intro that [of s' cs, OF _ _ _ _ _ st(2) [symmetric] cs]) (simp_all add: log_write_def dev_log_def)
  qed
qed

lemma aesd_write_commits:
  assumes K: "kernel_ok K" and inv: "dev_inv s" and f: "private_data filp = Dev_aesd_device"
    and ok: "write_services_ok K s buf count"
  defines "bs \<equiv> uload (user s) buf (unat count)"
  obtains s' where
    "aesd_write K s filp buf count fpos =
       Some (count, s', fpos + (if newline \<in> set bs then of_nat (length (dev_pending s @ bs)) else 0))"
    "dev_inv s'" "dev_log s' = log_write (dev_log s) bs" "user s' = user s"
    "part_mem_ptr (aesd_device s) = NULL \<longrightarrow> garbage s' = garbage s"
proof -
  have ok': "fst (kmalloc K (kmem s) count) \<noteq> NULL" "fst (copy_from_user K (user s) buf count) = 0"
    "fst (mutex_lock_interruptible K Unlocked) = 0" "write_join_ok K s buf count"
    using ok by (auto simp: write_services_ok_def)
  show ?thesis
    by (rule aesd_write_stores [OF K inv f ok'(1,3,4), of fpos])
      (use that ok'(2) in \<open>simp add: bs_def\<close>)
qed

lemma set_lock_same: "set_lock (buf_lock (aesd_device s)) s = s"
  by (simp add: set_lock_def)

lemma aesd_write_nomem:
  assumes "kernel_ok K" and "fst (kmalloc K (kmem s) count) = NULL"
  shows "aesd_write K s filp buf count fpos = Some (- of_nat ENOMEM, s, fpos)"
proof -
  obtain h1 where h1: "kmalloc K (kmem s) count = (NULL, h1)"
    using assms(2) by (cases "kmalloc K (kmem s) count") auto
  then have "h1 = kmem s"
    using kernel_okD(1) [OF assms(1)] by (auto elim: kmalloc_cases)
  then show ?thesis using h1 by (simp add: aesd_write_def)
qed

lemma staged_keeps_inv:
  assumes inv: "dev_inv s" and same: "\<And>a. a \<notin> set (blocks_of p) \<Longrightarrow> h a = kmem s a"
    and fresh: "\<forall>a\<in>set (blocks_of p). kmem s a = None"
  shows "dev_inv (s\<lparr>kmem := h\<rparr>)" and "dev_log (s\<lparr>kmem := h\<rparr>) = dev_log s"
proof -
  let ?d = "aesd_device s"
  have own: "owned (kmem s) (entry_ptrs ?d @ part_ptrs ?d)"
    using inv by (simp add: dev_inv_def Let_def)
  have eq: "h a = kmem s a" if "a \<in> set (all_blocks (entry_ptrs ?d @ part_ptrs ?d))" for a
  proof (rule same)
    show "a \<notin> set (blocks_of p)" using fresh owned_allocated [OF own that] by auto
  qed
  have own': "owned h (entry_ptrs ?d @ part_ptrs ?d)"
    and blk: "map (block_of h) (entry_ptrs ?d @ part_ptrs ?d)
      = map (block_of (kmem s)) (entry_ptrs ?d @ part_ptrs ?d)"
    using owned_frame [OF own eq] by simp_all
  have cmds: "map (block_of h) (entry_ptrs ?d) = dev_cmds s"
    using blk by (simp add: dev_cmds_def)
  have pend: "block_of h (part_mem_ptr ?d) = dev_pending s"
    using blk by (auto simp: dev_pending_def part_ptrs_def split: if_splits)
  have "block_of h (buffptr x) = block_of (kmem s) (buffptr x)" if "x \<in> set (entries (buffer ?d))" for x
    using cmds that unfolding dev_cmds_def entry_ptrs_def by simp
  then have "\<forall>x\<in>set (entries (buffer ?d)). entry_ok h x"
    using dev_invD(5) [OF inv] entry_ok_cong by metis
  then show "dev_inv (s\<lparr>kmem := h\<rparr>)"
    using own' pend dev_invD [OF inv] by (simp add: dev_inv_def Let_def dev_pending_def)
  show "dev_log (s\<lparr>kmem := h\<rparr>) = dev_log s"
    using cmds pend by (simp add: dev_log_def dev_cmds_def dev_pending_def)
qed

lemma aesd_write_interrupted:
  assumes K: "kernel_ok K" and inv: "dev_inv s" and f: "private_data filp = Dev_aesd_device"
    and alloc: "fst (kmalloc K (kmem s) count) \<noteq> NULL"
    and lock: "fst (mutex_lock_interruptible K Unlocked) \<noteq> 0"
  obtains s' where "aesd_write K s filp buf count fpos = Some (0, s', fpos)"
    "dev_inv s'" "dev_log s' = dev_log s" "user s' = user s"
proof -
  obtain p h bs where st: "staged s h p bs" "unat count = length bs"
    and run: "aesd_write K s filp buf count fpos =
       (if newline \<in> set bs then write_complete K s (private_data filp) h p count fpos
        else write_partial K s (private_data filp) h p count fpos)"
    by (rule aesd_write_staged [OF K inv alloc, where filp = filp and buf = buf and fpos = fpos])
  have st': "points_to h p bs" "\<forall>a\<in>set (blocks_of p). kmem s a = None"
    "\<And>a. a \<notin> set (blocks_of p) \<Longrightarrow> h a = kmem s a"
    using st(1) by (auto simp: staged_def)
  obtain rc where l: "mutex_lock_interruptible K Unlocked = (rc, Unlocked)" "rc \<noteq> 0"
    using lock_interrupted [OF K lock] by blast
  have unl: "buf_lock (aesd_device s) = Unlocked" by (rule dev_invD(8) [OF inv])
  have sl: "set_lock Unlocked s = s" using set_lock_same [of s] unl by simp
  show ?thesis
  proof (cases "newline \<in> set bs")
    case True
    obtain h' where h': "kfree K h p = Some h'" "\<And>a. a \<notin> set (blocks_of p) \<Longrightarrow> h' a = h a"
      using kfree_points_to [OF kernel_okD(2) [OF K] st'(1)] by metis
    have "\<And>a. a \<notin> set (blocks_of p) \<Longrightarrow> h' a = kmem s a" using h'(2) st'(3) by simp
    note keep = staged_keeps_inv [OF inv this st'(2)]
    show ?thesis
      using that [of "s\<lparr>kmem := h'\<rparr>"] keep run f True l unl h'(1) sl
      by (simp add: write_complete_def Let_def)
  next
    case False
    note keep = staged_keeps_inv [OF inv st'(3,2)]
    show ?thesis
      using that [of "s\<lparr>kmem := h\<rparr>"] keep run f False l unl sl
      by (simp add: write_partial_def Let_def)
  qed
qed

text \<open>
  Whatever the services answer, a write returns, keeps the invariant and leaves user memory
  alone, unless the allocation of the joined buffer fails.
\<close>

lemma aesd_write_total:
  assumes K: "kernel_ok K" and inv: "dev_inv s" and f: "private_data filp = Dev_aesd_device"
    and jok: "fst (kmalloc K (kmem s) count) \<noteq> NULL \<Longrightarrow> write_join_ok K s buf count"
  shows "\<exists>r s' fpos'. aesd_write K s filp buf count fpos = Some (r, s', fpos') \<and> dev_inv s' \<and>
           user s' = user s \<and>
           (dev_log s' = dev_log s \<or> (\<exists>bs. length bs = unat count \<and> dev_log s' = log_write (dev_log s) bs))"
proof (cases "fst (kmalloc K (kmem s) count) = NULL")
  case True
  with aesd_write_nomem [OF K] inv show ?thesis by blast
next
  case alloc: False
  show ?thesis
  proof (cases "fst (mutex_lock_interruptible K Unlocked) = 0")
    case True
    show ?thesis
      by (rule aesd_write_stores [OF K inv f alloc True jok [OF alloc], of fpos]) blast
  next
    case False
    show ?thesis
      by (rule aesd_write_interrupted [OF K inv f alloc False, of buf fpos]) blast
  qed
qed

section \<open>Read\<close>

lemma dev_cmds_lengths:
  assumes "dev_inv s"
  shows "map length (dev_cmds s) = map entry_len (entries (buffer (aesd_device s)))"
  using dev_invD(5) [OF assms] by (simp add: dev_cmds_def entry_ptrs_def entry_ok_def)

lemma dev_cmds_nth:
  assumes "dev_inv s" and "j < ring_count (buffer (aesd_device s))"
  shows "points_to (kmem s) (buffptr (entries (buffer (aesd_device s)) ! j)) (dev_cmds s ! j)"
    and "entry_len (entries (buffer (aesd_device s)) ! j) = length (dev_cmds s ! j)"
proof -
  let ?e = "entries (buffer (aesd_device s)) ! j"
  have j: "j < length (entries (buffer (aesd_device s)))" using assms(2) by simp
  then have e: "?e \<in> set (entries (buffer (aesd_device s)))" by (rule nth_mem)
  have nth: "dev_cmds s ! j = block_of (kmem s) (buffptr ?e)"
    using j by (simp add: dev_cmds_def entry_ptrs_def del: entries_nth)
  have "buffptr ?e \<in> set (entry_ptrs (aesd_device s))"
    using e by (simp add: entry_ptrs_def)
  then show "points_to (kmem s) (buffptr ?e) (dev_cmds s ! j)"
    using dev_invD(2) [OF assms(1)] nth by (simp add: owned_iff)
  show "entry_len ?e = length (dev_cmds s ! j)"
    using dev_invD(5) [OF assms(1)] e nth by (simp add: entry_ok_def)
qed

lemma dev_inv_update_user: "dev_inv (s\<lparr>user := um\<rparr>) = dev_inv s"
  by (simp add: dev_inv_def dev_pending_def)

lemma dev_log_update_user: "dev_log (s\<lparr>user := um\<rparr>) = dev_log s"
  by (simp add: dev_log_def dev_cmds_def dev_pending_def)

lemma aesd_read_hit:
  assumes K: "kernel_ok K" and inv: "dev_inv s" and f: "private_data filp = Dev_aesd_device"
    and lock: "fst (mutex_lock_interruptible K Unlocked) = 0"
    and find: "aesd_circular_buffer_find_entry_offset_for_fpos (Some (buffer (aesd_device s))) fpos
      = Some (Some (ring_slot (buffer (aesd_device s)) j, off))"
    and j: "j < ring_count (buffer (aesd_device s))" "off < entry_size (entries (buffer (aesd_device s)) ! j)"
  defines "data \<equiv> drop (unat off) (dev_cmds s ! j)"
  shows "aesd_read K s filp buf count fpos =
     Some (if fst (copy_to_user K (user s) buf data) = 0
           then (of_nat (length data), s\<lparr>user := snd (copy_to_user K (user s) buf data)\<rparr>,
                 fpos + of_nat (length data))
           else (0, s\<lparr>user := snd (copy_to_user K (user s) buf data)\<rparr>, fpos))"
proof -
  let ?b = "buffer (aesd_device s)"
  let ?e = "entries ?b ! j"
  have pt: "points_to (kmem s) (buffptr ?e) (dev_cmds s ! j)" and len: "unat (entry_size ?e) = length (dev_cmds s ! j)"
    using dev_cmds_nth [OF inv j(1)] by (simp_all add: entry_len_def)
  have n: "unat (entry_size ?e - off) = length data"
    using j(2) len by (simp add: unat_sub word_less_nat_alt word_le_nat_alt data_def)
  have rd: "heap_read (kmem s) (buffptr ?e) (unat off) (unat (entry_size ?e - off)) = Some data"
    using points_to_read [OF pt, of "unat off" "length data"] n j(2) len
    by (simp add: data_def word_less_nat_alt)
  have nth: "nth_opt (entry ?b) (ring_slot ?b j) = Some ?e"
    using slot_ring_slot [OF dev_invD(1) [OF inv] j(1)] by (simp add: slot_def)
  have unl: "set_lock Unlocked s = s"
    using set_lock_same [of s] dev_invD(8) [OF inv] by simp
  obtain left um where c: "copy_to_user K (user s) buf data = (left, um)" by fastforce
  show ?thesis
    using lock_taken [OF K lock] f find nth rd c unl kernel_okD(4) [OF K] dev_invD(8) [OF inv]
      size_t_eq_of_natI [OF n]
    by (simp add: aesd_read_def Let_def)
qed

lemma aesd_read_end:
  assumes K: "kernel_ok K" and inv: "dev_inv s" and f: "private_data filp = Dev_aesd_device"
    and lock: "fst (mutex_lock_interruptible K Unlocked) = 0"
    and find: "aesd_circular_buffer_find_entry_offset_for_fpos (Some (buffer (aesd_device s))) fpos = Some None"
  shows "aesd_read K s filp buf count fpos = Some (0, s, fpos)"
proof -
  have "set_lock Unlocked s = s"
    using set_lock_same [of s] dev_invD(8) [OF inv] by simp
  then show ?thesis
    using lock_taken [OF K lock] f find kernel_okD(4) [OF K] dev_invD(8) [OF inv]
    by (simp add: aesd_read_def Let_def)
qed

lemma aesd_read_interrupted:
  assumes K: "kernel_ok K" and inv: "dev_inv s" and f: "private_data filp = Dev_aesd_device"
    and lock: "fst (mutex_lock_interruptible K Unlocked) \<noteq> 0"
  shows "aesd_read K s filp buf count fpos = Some (- of_nat ERESTARTSYS, s, fpos)"
proof -
  obtain rc where "mutex_lock_interruptible K Unlocked = (rc, Unlocked)" "rc \<noteq> 0"
    using lock_interrupted [OF K lock] by blast
  moreover have "set_lock Unlocked s = s"
    using set_lock_same [of s] dev_invD(8) [OF inv] by simp
  ultimately show ?thesis
    using f dev_invD(8) [OF inv] by (simp add: aesd_read_def Let_def)
qed

text \<open>A read returns for every position and never touches the device.\<close>

lemma aesd_read_total:
  assumes K: "kernel_ok K" and inv: "dev_inv s" and f: "private_data filp = Dev_aesd_device"
  shows "\<exists>r um fpos'. aesd_read K s filp buf count fpos = Some (r, s\<lparr>user := um\<rparr>, fpos')"
proof (cases "fst (mutex_lock_interruptible K Unlocked) = 0")
  case True
  show ?thesis
  proof (cases rule: find_total [OF dev_invD(1) [OF inv], of fpos])
    case 1
    then have "aesd_read K s filp buf count fpos = Some (0, s\<lparr>user := user s\<rparr>, fpos)"
      using aesd_read_end [OF K inv f True] by simp
    then show ?thesis by blast
  next
    case (2 j off)
    let ?c = "copy_to_user K (user s) buf (drop (unat off) (dev_cmds s ! j))"
    show ?thesis
      using aesd_read_hit [OF K inv f True 2, of buf count]
      by (auto intro!: exI [of _ "snd ?c"] split: if_splits)
  qed
next
  case False
  then have "aesd_read K s filp buf count fpos = Some (- of_nat ERESTARTSYS, s\<lparr>user := user s\<rparr>, fpos)"
    using aesd_read_interrupted [OF K inv f] by simp
  then show ?thesis by blast
qed

text \<open>Inside the log, below two gigabytes: the rest of the command that holds the position.\<close>

lemma aesd_read_locate:
  assumes K: "kernel_ok K" and inv: "dev_inv s" and f: "private_data filp = Dev_aesd_device"
    and lock: "fst (mutex_lock_interruptible K Unlocked) = 0"
    and pos: "unat fpos < 2 ^ 31" and loc: "locate (map length (dev_cmds s)) (unat fpos) = Some (j, off)"
    and copy: "fst (copy_to_user K (user s) buf (drop off (dev_cmds s ! j))) = 0"
  shows "aesd_read K s filp buf count fpos =
     Some (of_nat (length (drop off (dev_cmds s ! j))),
           s\<lparr>user := ustore (user s) buf (drop off (dev_cmds s ! j))\<rparr>,
           fpos + of_nat (length (drop off (dev_cmds s ! j))))"
proof -
  let ?b = "buffer (aesd_device s)"
  have lj: "j < ring_count ?b" "off < length (dev_cmds s ! j)"
    using locate_SomeD [OF loc] by (auto simp: dev_cmds_def entry_ptrs_def)
  have find: "aesd_circular_buffer_find_entry_offset_for_fpos (Some ?b) fpos
      = Some (Some (ring_slot ?b j, of_nat off))"
    using find_correct [OF dev_invD(1) [OF inv] pos] loc dev_cmds_lengths [OF inv] by simp
  have lt: "length (dev_cmds s ! j) < 2 ^ 64"
    using dev_cmds_nth(2) [OF inv lj(1)] unsigned_less [of "entry_size (entries ?b ! j)", where 'a = nat]
    by (simp add: entry_len_def)
  then have off: "unat (of_nat off :: size_t) = off"
    using lj(2) by (intro unat_of_nat_size) simp
  then have "of_nat off < entry_size (entries ?b ! j)"
    using lj dev_cmds_nth(2) [OF inv lj(1)] by (simp add: word_less_nat_alt entry_len_def)
  note hit = aesd_read_hit [OF K inv f lock find lj(1) this, of buf count, unfolded off]
  have "snd (copy_to_user K (user s) buf (drop off (dev_cmds s ! j)))
      = ustore (user s) buf (drop off (dev_cmds s ! j))"
    using copy copy_to_user_all [OF kernel_okD(3) [OF K]] by (metis prod.collapse)
  then show ?thesis using hit copy by simp
qed

section \<open>The size of the log\<close>

lemma total_size_bound:
  assumes "dev_inv s"
  shows "total_size (entries (buffer (aesd_device s))) \<le> 10 * KMALLOC_MAX_SIZE"
    and "sum_list (map length (dev_cmds s)) = total_size (entries (buffer (aesd_device s)))"
proof -
  let ?es = "entries (buffer (aesd_device s))"
  have "sum_list (map entry_len ?es) \<le> length (map entry_len ?es) * KMALLOC_MAX_SIZE"
    using dev_invD(5) [OF assms] by (intro sum_list_bound) (auto simp: entry_ok_def)
  also have "\<dots> \<le> 10 * KMALLOC_MAX_SIZE"
    using ring_count_le by simp
  finally show "total_size ?es \<le> 10 * KMALLOC_MAX_SIZE" by (simp add: total_size_def)
  show "sum_list (map length (dev_cmds s)) = total_size ?es"
    using dev_cmds_lengths [OF assms] by (simp add: total_size_def)
qed

definition log_size :: "kstate \<Rightarrow> nat" where
  "log_size s = length (concat (dev_cmds s))"

lemma log_size_cb_size:
  assumes "dev_inv s"
  shows "unat (cb_size (buffer (aesd_device s))) = log_size s" and "log_size s < 2 ^ 31"
proof -
  let ?b = "buffer (aesd_device s)"
  have t: "log_size s = total_size (entries ?b)"
    using total_size_bound(2) [OF assms] by (simp add: log_size_def length_concat)
  have "total_size (entries ?b) < 2 ^ 31"
    using total_size_bound(1) [OF assms] by (simp add: KMALLOC_MAX_value)
  then show "log_size s < 2 ^ 31" using t by simp
  moreover have "cb_size ?b = of_nat (total_size (entries ?b))"
    using dev_invD(1) [OF assms] by (simp add: cb_inv_def)
  ultimately show "unat (cb_size ?b) = log_size s"
    using t by (simp add: unat_of_nat)
qed

section \<open>Seek and ioctl\<close>

lemma aesd_llseek_moves:
  fixes offset :: loff_t
  assumes K: "kernel_ok K" and inv: "dev_inv s" and f: "private_data filp = Dev_aesd_device"
    and lock: "fst (mutex_lock_interruptible K Unlocked) = 0"
    and wh: "whence \<in> {SEEK_SET, SEEK_CUR, SEEK_END}"
  defines "r \<equiv> fixed_size_llseek K (f_pos filp) offset whence (of_nat (log_size s))"
  shows "aesd_llseek K s filp offset whence = Some (fst r, s, filp\<lparr>f_pos := snd r\<rparr>)"
proof -
  have sl: "set_lock Unlocked s = s"
    using set_lock_same [of s] dev_invD(8) [OF inv] by simp
  have sz: "uint_to_size (cb_size (buffer (aesd_device s))) = of_nat (log_size s)"
    using log_size_cb_size [OF inv] by (intro size_t_eq_of_natI) (simp add: unat_ucast_32_64)
  show ?thesis
    using lock_taken [OF K lock] f wh sl sz kernel_okD(4) [OF K] dev_invD(8) [OF inv]
    by (simp add: aesd_llseek_def Let_def case_prod_unfold r_def)
qed

lemma aesd_llseek_total:
  assumes K: "kernel_ok K" and inv: "dev_inv s" and f: "private_data filp = Dev_aesd_device"
  shows "\<exists>r pos. aesd_llseek K s filp offset whence = Some (r, s, filp\<lparr>f_pos := pos\<rparr>)"
proof (cases "whence \<in> {SEEK_SET, SEEK_CUR, SEEK_END}")
  case True
  show ?thesis
  proof (cases "fst (mutex_lock_interruptible K Unlocked) = 0")
    case lock: True
    show ?thesis using aesd_llseek_moves [OF K inv f lock True] by blast
  next
    case False
    obtain rc where "mutex_lock_interruptible K Unlocked = (rc, Unlocked)" "rc \<noteq> 0"
      using lock_interrupted [OF K False] by blast
    moreover have "set_lock Unlocked s = s"
      using set_lock_same [of s] dev_invD(8) [OF inv] by simp
    ultimately have "aesd_llseek K s filp offset whence =
        Some (- of_nat ERESTARTSYS, s, filp\<lparr>f_pos := f_pos filp\<rparr>)"
      using True f dev_invD(8) [OF inv] by (simp add: aesd_llseek_def Let_def)
    then show ?thesis by blast
  qed
next
  case False
  then have "aesd_llseek K s filp offset whence = Some (- of_nat EINVAL, s, filp\<lparr>f_pos := f_pos filp\<rparr>)"
    by (simp add: aesd_llseek_def)
  then show ?thesis by blast
qed

lemma adjust_total:
  assumes "cb_inv b"
  obtains r pos where "aesd_adjust_file_offset b f wc off = Some (r, pos)"
proof (cases "aesd_adjust_file_offset b f wc off")
  case None
  then show ?thesis
    using adjust_correct [OF assms, of f wc off] adjust_empty [OF assms, of f wc off]
    by (cases "entries b = []") simp_all
next
  case (Some x)
  then show ?thesis using that by (cases x) simp
qed

lemma aesd_ioctl_total:
  assumes K: "kernel_ok K" and inv: "dev_inv s" and f: "private_data filp = Dev_aesd_device"
  shows "\<exists>r pos. aesd_ioctl K s filp cmd arg = Some (r, s, filp\<lparr>f_pos := pos\<rparr>)"
proof -
  have sl: "set_lock Unlocked s = s"
    using set_lock_same [of s] dev_invD(8) [OF inv] by simp
  obtain left bs where c: "copy_from_user K (user s) arg 8 = (left, bs)" by fastforce
  have same: "filp\<lparr>f_pos := f_pos filp\<rparr> = filp" by simp
  consider (other) "cmd \<noteq> AESDCHAR_IOCSEEKTO K"
    | (fault) "cmd = AESDCHAR_IOCSEEKTO K" "left \<noteq> 0"
    | (intr) "cmd = AESDCHAR_IOCSEEKTO K" "left = 0" "fst (mutex_lock_interruptible K Unlocked) \<noteq> 0"
    | (seek) "cmd = AESDCHAR_IOCSEEKTO K" "left = 0" "fst (mutex_lock_interruptible K Unlocked) = 0"
    by blast
  then show ?thesis
  proof cases
    case other
    then have "aesd_ioctl K s filp cmd arg = Some (-1, s, filp\<lparr>f_pos := f_pos filp\<rparr>)"
      by (simp add: aesd_ioctl_def)
    then show ?thesis by blast
  next
    case fault
    then have "aesd_ioctl K s filp cmd arg = Some (of_nat EFAULT, s, filp\<lparr>f_pos := f_pos filp\<rparr>)"
      using c by (simp add: aesd_ioctl_def)
    then show ?thesis by blast
  next
    case intr
    obtain rc where "mutex_lock_interruptible K Unlocked = (rc, Unlocked)" "rc \<noteq> 0"
      using lock_interrupted [OF K intr(3)] by blast
    then have "aesd_ioctl K s filp cmd arg = Some (- of_nat ERESTARTSYS, s, filp\<lparr>f_pos := f_pos filp\<rparr>)"
      using intr c f sl dev_invD(8) [OF inv] by (simp add: aesd_ioctl_def Let_def)
    then show ?thesis by blast
  next
    case seek
    let ?t = "seekto_of_bytes bs"
    obtain r pos where a: "aesd_adjust_file_offset (buffer (aesd_device s)) (f_pos filp)
        (write_cmd ?t) (write_cmd_offset ?t) = Some (r, pos)"
      by (rule adjust_total [OF dev_invD(1) [OF inv]])
    then have "aesd_ioctl K s filp cmd arg = Some (r, s, filp\<lparr>f_pos := pos\<rparr>)"
      using seek c f sl lock_taken [OF K seek(3)] kernel_okD(4) [OF K] dev_invD(8) [OF inv]
      by (simp add: aesd_ioctl_def Let_def)
    then show ?thesis by blast
  qed
qed

lemma aesd_ioctl_seeks:
  assumes K: "kernel_ok K" and inv: "dev_inv s" and f: "private_data filp = Dev_aesd_device"
    and lock: "fst (mutex_lock_interruptible K Unlocked) = 0"
    and copy: "copy_from_user K (user s) arg 8 = (0, bs)"
    and ne: "dev_cmds s \<noteq> []"
  defines "t \<equiv> seekto_of_bytes bs"
  shows "aesd_ioctl K s filp (AESDCHAR_IOCSEEKTO K) arg =
     Some (case seek_spec (map length (dev_cmds s)) (unat (write_cmd t)) (unat (write_cmd_offset t)) of
             None \<Rightarrow> (- of_nat EINVAL, s, filp)
           | Some p \<Rightarrow> (0, s, filp\<lparr>f_pos := of_nat p\<rparr>))"
proof -
  have sl: "set_lock Unlocked s = s"
    using set_lock_same [of s] dev_invD(8) [OF inv] by simp
  have "entries (buffer (aesd_device s)) \<noteq> []"
    using ne by (auto simp: dev_cmds_def entry_ptrs_def)
  from adjust_correct [OF dev_invD(1) [OF inv] this]
  show ?thesis
    using copy f sl lock_taken [OF K lock] kernel_okD(4) [OF K] dev_invD(8) [OF inv]
      dev_cmds_lengths [OF inv]
    by (simp add: aesd_ioctl_def Let_def t_def split: option.split)
qed

section \<open>Module entry and exit\<close>

lemma init_module_inv:
  assumes "aesd_init_module K s = (r, s')" and "r = 0"
  shows "dev_inv s'" and "dev_log s' = ([], [])" and "kmem s' = kmem s"
    and "dev_cdev (aesd_device s') = \<lparr>cdev_owner = THIS_MODULE, cdev_ops = Ptr_aesd_fops\<rparr>"
proof -
  have d: "buffer (aesd_device s') = aesd_circular_buffer_init (buffer (aesd_device s))"
    "part_mem_ptr (aesd_device s') = NULL" "part_buf_size (aesd_device s') = 0"
    "buf_lock (aesd_device s') = Unlocked" "kmem s' = kmem s"
    "dev_cdev (aesd_device s') = \<lparr>cdev_owner = THIS_MODULE, cdev_ops = Ptr_aesd_fops\<rparr>"
    using assms
    by (auto simp: aesd_init_module_def aesd_setup_cdev_def zero_dev_def set_lock_def
        unregister_chrdev_region_def Let_def split: prod.splits if_splits)
  then show "dev_inv s'" "dev_log s' = ([], [])" "kmem s' = kmem s"
    "dev_cdev (aesd_device s') = \<lparr>cdev_owner = THIS_MODULE, cdev_ops = Ptr_aesd_fops\<rparr>"
    by (simp_all add: dev_inv_def dev_log_def dev_cmds_def dev_pending_def entry_ptrs_def part_ptrs_def
        init_correct Let_def)
qed

lemma cleanup_module_frees:
  assumes K: "kernel_ok K" and inv: "dev_inv s"
    and lock: "fst (mutex_lock_interruptible K Unlocked) = 0"
  obtains s' where "aesd_cleanup_module K s = Some s'"
    "dom (kmem s') = garbage s \<union> set (all_blocks (part_ptrs (aesd_device s)))"
    "cdev_live s' = None"
    "chrdev_region s = Some (MKDEV K (aesd_major s) aesd_minor) \<longrightarrow> chrdev_region s' = None"
proof -
  let ?d = "aesd_device s"
  obtain h where h: "kfree_all K (entry_ptrs ?d) (kmem s) = Some h"
    "\<forall>a. h a = (if a \<in> set (all_blocks (entry_ptrs ?d)) then None else kmem s a)"
    using kfree_all_owned [OF kernel_okD(2) [OF K]] dev_invD(2) [OF inv] unfolding owned_def by blast
  let ?s' = "unregister_chrdev_region (MKDEV K (aesd_major s) aesd_minor)
      ((set_lock Unlocked s)\<lparr>kmem := h, cdev_live := None\<rparr>)"
  have run: "aesd_cleanup_module K s = Some ?s'"
    using h(1) lock_taken [OF K lock] cleanup_correct [OF dev_invD(1) [OF inv]] dev_invD(8) [OF inv]
      kernel_okD(4) [OF K]
    by (simp add: aesd_cleanup_module_def Let_def entry_ptrs_def)
  have "dom h = dom (kmem s) - set (all_blocks (entry_ptrs ?d))"
    using h(2) by (auto simp: dom_def split: if_splits)
  also have "\<dots> = garbage s \<union> set (all_blocks (part_ptrs ?d))"
    using dev_invD(4) [OF inv] owned_allocated [OF dev_invD(3) [OF inv]]
    by (auto simp: garbage_def dom_def)
  finally show ?thesis
    using that [OF run] by (simp add: unregister_chrdev_region_def set_lock_def)
qed

end
