(* ===== verification/Device_Traces.thy ===== *)
theory Device_Traces
  imports Driver_Refinement
begin

text \<open>
  The device under any sequence of system calls.  \<open>vfs_call\<close> dispatches a call on an open
  file through the operation table \<open>aesd_fops\<close>, the way the virtual file system does
  (\<^verbatim>\<open>read\<close> and \<^verbatim>\<open>write\<close> pass the position of the file, \<^verbatim>\<open>pread\<close> a position of its own).
  \<open>dev_step\<close> is one event: an open, a release, a call on some open file under some kernel
  that meets its contract, or a change of user memory.  \<open>dev_reach\<close> collects the states
  after loading the module, together with the data of the writes that were stored.
\<close>

section \<open>System calls\<close>

datatype syscall =
    Sys_read uaddr size_t
  | Sys_pread uaddr size_t loff_t
  | Sys_write uaddr size_t
  | Sys_lseek loff_t int32
  | Sys_ioctl uint32 uaddr

fun vfs_call :: "kernel \<Rightarrow> syscall \<Rightarrow> kstate \<Rightarrow> kfile \<Rightarrow> (64 word \<times> kstate \<times> kfile) option" where
  "vfs_call K (Sys_read buf n) s f =
     do { (r, s', p) \<leftarrow> fop_read aesd_fops K s f buf n (f_pos f); Some (r, s', f\<lparr>f_pos := p\<rparr>) }"
| "vfs_call K (Sys_pread buf n pos) s f =
     do { (r, s', p) \<leftarrow> fop_read aesd_fops K s f buf n pos; Some (r, s', f) }"
| "vfs_call K (Sys_write buf n) s f =
     do { (r, s', p) \<leftarrow> fop_write aesd_fops K s f buf n (f_pos f); Some (r, s', f\<lparr>f_pos := p\<rparr>) }"
| "vfs_call K (Sys_lseek off whence) s f = fop_llseek aesd_fops K s f off whence"
| "vfs_call K (Sys_ioctl cmd arg) s f =
     do { (r, s', f') \<leftarrow> fop_ioctl aesd_fops K s f cmd arg; Some (scast r, s', f') }"

text \<open>
  The service failure the driver does not survive is a lack of memory for the joined buffer
  (\<open>call_safe\<close> excludes it); a failing copy from user memory is survived but stores bytes the
  user did not write (\<open>call_ok\<close> excludes that as well).
\<close>

fun call_safe :: "kernel \<Rightarrow> syscall \<Rightarrow> kstate \<Rightarrow> bool" where
  "call_safe K (Sys_write buf n) s =
     (fst (kmalloc K (kmem s) n) = NULL \<or> write_join_ok K s buf n)"
| "call_safe K c s = True"

fun call_ok :: "kernel \<Rightarrow> syscall \<Rightarrow> kstate \<Rightarrow> bool" where
  "call_ok K (Sys_write buf n) s =
     (call_safe K (Sys_write buf n) s \<and> fst (copy_from_user K (user s) buf n) = 0)"
| "call_ok K c s = True"

definition file_ok :: "kfile \<Rightarrow> bool" where
  "file_ok f \<longleftrightarrow> private_data f = Dev_aesd_device"

text \<open>The data a call stored, judged by its return value: a write that returns its count.\<close>

fun stored :: "syscall \<Rightarrow> kstate \<Rightarrow> 64 word \<Rightarrow> byte list list" where
  "stored (Sys_write buf n) s r =
     (if r = n \<and> 0 \<le> sint r then [uload (user s) buf (unat n)] else [])"
| "stored c s r = []"

lemma call_ok_safe: "call_ok K c s \<Longrightarrow> call_safe K c s"
  by (cases c) auto

lemma vfs_call_returns:
  assumes K: "kernel_ok K" and inv: "dev_inv s" and f: "file_ok f" and ok: "call_safe K c s"
  shows "\<exists>r s' f'. vfs_call K c s f = Some (r, s', f') \<and> dev_inv s' \<and> file_ok f'"
proof -
  have pd: "private_data f = Dev_aesd_device" using f by (simp add: file_ok_def)
  have um: "dev_inv (s\<lparr>user := um\<rparr>)" for um
    using inv by (simp add: dev_inv_update_user)
  show ?thesis
  proof (cases c)
    case (Sys_read buf n)
    then show ?thesis
      using aesd_read_total [OF K inv pd, of buf n "f_pos f"] um f
      by (auto simp: aesd_fops_def file_ok_def)
  next
    case (Sys_pread buf n pos)
    then show ?thesis
      using aesd_read_total [OF K inv pd, of buf n pos] um f by (auto simp: aesd_fops_def)
  next
    case (Sys_write buf n)
    with ok have jok: "fst (kmalloc K (kmem s) n) \<noteq> NULL \<Longrightarrow> write_join_ok K s buf n" by simp
    obtain r s' p where "aesd_write K s f buf n (f_pos f) = Some (r, s', p)" "dev_inv s'"
      using aesd_write_total [OF K inv pd jok, where fpos = "f_pos f"] by blast
    then show ?thesis using Sys_write f by (auto simp: aesd_fops_def file_ok_def)
  next
    case (Sys_lseek off whence)
    then show ?thesis
      using aesd_llseek_total [OF K inv pd, of off whence] inv f
      by (auto simp: aesd_fops_def file_ok_def)
  next
    case (Sys_ioctl cmd arg)
    then show ?thesis
      using aesd_ioctl_total [OF K inv pd, of cmd arg] inv f
      by (auto simp: aesd_fops_def file_ok_def)
  qed
qed

lemma aesd_write_log:
  assumes K: "kernel_ok K" and inv: "dev_inv s" and pd: "private_data f = Dev_aesd_device"
    and ok: "call_ok K (Sys_write buf n) s"
    and run: "aesd_write K s f buf n fpos = Some (r, s', fpos')"
  shows "dev_log s' = foldl log_write (dev_log s) (stored (Sys_write buf n) s r)"
proof (cases "fst (kmalloc K (kmem s) n) = NULL")
  case True
  then have "r = - of_nat ENOMEM" "s' = s" using aesd_write_nomem [OF K True] run by auto
  then show ?thesis by (simp add: ENOMEM_def)
next
  case alloc: False
  have jok: "write_join_ok K s buf n" and copy: "fst (copy_from_user K (user s) buf n) = 0"
    using ok alloc by auto
  show ?thesis
  proof (cases "fst (mutex_lock_interruptible K Unlocked) = 0")
    case True
    have "write_services_ok K s buf n"
      using alloc jok copy True by (simp add: write_services_ok_def)
    then obtain t where t: "aesd_write K s f buf n fpos = Some (n, t, fpos + (if newline \<in> set (uload (user s) buf (unat n))
          then of_nat (length (dev_pending s @ uload (user s) buf (unat n))) else 0))"
      "dev_log t = log_write (dev_log s) (uload (user s) buf (unat n))"
      using aesd_write_commits [OF K inv pd, of buf n fpos] by metis
    have "unat n \<le> KMALLOC_MAX_SIZE"
      using kmalloc_points_to [OF kernel_okD(1) [OF K], of "kmem s" n] alloc by (metis prod.collapse)
    then have "0 \<le> sint n" by (intro sint_size_nonneg) (simp add: KMALLOC_MAX_value)
    then show ?thesis using t run by simp
  next
    case False
    have "log_write (dev_log s) [] = dev_log s" by (simp add: log_write_def)
    moreover obtain t where "aesd_write K s f buf n fpos = Some (0, t, fpos)" "dev_log t = dev_log s"
      using aesd_write_interrupted [OF K inv pd alloc False] by metis
    ultimately show ?thesis using run by (auto simp: uload_def)
  qed
qed

lemma vfs_call_log:
  assumes K: "kernel_ok K" and inv: "dev_inv s" and f: "file_ok f" and ok: "call_ok K c s"
    and run: "vfs_call K c s f = Some (r, s', f')"
  shows "dev_log s' = foldl log_write (dev_log s) (stored c s r)"
proof -
  have pd: "private_data f = Dev_aesd_device" using f by (simp add: file_ok_def)
  show ?thesis
  proof (cases c)
    case (Sys_read buf n)
    then show ?thesis
      using aesd_read_total [OF K inv pd, of buf n "f_pos f"] run
      by (auto simp: aesd_fops_def dev_log_update_user)
  next
    case (Sys_pread buf n pos)
    then show ?thesis
      using aesd_read_total [OF K inv pd, of buf n pos] run
      by (auto simp: aesd_fops_def dev_log_update_user)
  next
    case (Sys_write buf n)
    then obtain p where "aesd_write K s f buf n (f_pos f) = Some (r, s', p)"
      using run by (auto simp: aesd_fops_def bind_eq_Some_conv)
    from aesd_write_log [OF K inv pd ok [unfolded Sys_write] this] Sys_write show ?thesis by simp
  next
    case (Sys_lseek off whence)
    then show ?thesis
      using aesd_llseek_total [OF K inv pd, of off whence] run by (auto simp: aesd_fops_def)
  next
    case (Sys_ioctl cmd arg)
    then show ?thesis
      using aesd_ioctl_total [OF K inv pd, of cmd arg] run by (auto simp: aesd_fops_def)
  qed
qed

section \<open>Reachable states\<close>

inductive dev_step ::
  "kstate \<times> (nat \<rightharpoonup> kfile) \<Rightarrow> byte list list \<Rightarrow> kstate \<times> (nat \<rightharpoonup> kfile) \<Rightarrow> bool" where
  step_open: "fs i = None \<Longrightarrow> aesd_open Dev_aesd_device \<lparr>f_pos = 0, private_data = Dev_NULL\<rparr> = (0, f) \<Longrightarrow>
     dev_step (s, fs) [] (s, fs(i \<mapsto> f))"
| step_release: "fs i = Some f \<Longrightarrow> aesd_release f = (0, f') \<Longrightarrow> dev_step (s, fs) [] (s, fs(i := None))"
| step_call: "fs i = Some f \<Longrightarrow> kernel_ok K \<Longrightarrow> call_ok K c s \<Longrightarrow>
     vfs_call K c s f = Some (r, s', f') \<Longrightarrow>
     dev_step (s, fs) (stored c s r) (s', fs(i \<mapsto> f'))"
| step_user: "dev_step (s, fs) [] (s\<lparr>user := um\<rparr>, fs)"

inductive dev_reach :: "kstate \<times> (nat \<rightharpoonup> kfile) \<Rightarrow> byte list list \<Rightarrow> bool" where
  reach_load: "aesd_init_module K s0 = (0, s) \<Longrightarrow> dev_reach (s, Map.empty) []"
| reach_step: "dev_reach st hist \<Longrightarrow> dev_step st new st' \<Longrightarrow> dev_reach st' (hist @ new)"

inductive_cases dev_stepE: "dev_step (s, fs) new st'"

definition sys_inv :: "kstate \<times> (nat \<rightharpoonup> kfile) \<Rightarrow> bool" where
  "sys_inv st \<longleftrightarrow> dev_inv (fst st) \<and> (\<forall>i f. snd st i = Some f \<longrightarrow> file_ok f)"

lemma dev_step_inv:
  assumes "dev_step st new st'" and "sys_inv st"
  shows "sys_inv st' \<and> dev_log (fst st') = foldl log_write (dev_log (fst st)) new"
  using assms
proof (induction rule: dev_step.induct)
  case (step_open fs i f s)
  then show ?case by (auto simp: sys_inv_def aesd_open_def file_ok_def)
next
  case (step_release fs i f f' s)
  then show ?case by (auto simp: sys_inv_def)
next
  case (step_call fs i f K c s r s' f')
  then have si: "dev_inv s" "file_ok f" by (auto simp: sys_inv_def)
  show ?case
    using vfs_call_returns [OF step_call(2) si call_ok_safe [OF step_call(3)]]
      vfs_call_log [OF step_call(2) si step_call(3,4)] step_call(4,5)
    by (auto simp: sys_inv_def)
next
  case (step_user s fs um)
  then show ?case by (simp add: sys_inv_def dev_inv_update_user dev_log_update_user)
qed

lemma dev_reach_inv:
  assumes "dev_reach st hist"
  shows "sys_inv st \<and> dev_log (fst st) = foldl log_write ([], []) hist"
  using assms
proof (induction rule: dev_reach.induct)
  case (reach_load K s0 s)
  then show ?case using init_module_inv [OF reach_load refl] by (simp add: sys_inv_def)
next
  case (reach_step st hist new st')
  then show ?case using dev_step_inv [OF reach_step(2)] by (simp add: foldl_append)
qed

section \<open>The log as a function of the write history\<close>

text \<open>Cutting the stream of writes into commands, with nothing dropped.\<close>

definition cut_write :: "byte list list \<times> byte list \<Rightarrow> byte list \<Rightarrow> byte list list \<times> byte list" where
  "cut_write L bs = (if newline \<in> set bs then (fst L @ [snd L @ bs], []) else (fst L, snd L @ bs))"

definition cut_history :: "byte list list \<Rightarrow> byte list list \<times> byte list" where
  "cut_history hist = foldl cut_write ([], []) hist"

lemma cut_history_snoc: "cut_history (hist @ [bs]) = cut_write (cut_history hist) bs"
  by (simp add: cut_history_def)

lemma cut_history_stream:
  "concat (fst (cut_history hist)) @ snd (cut_history hist) = concat hist"
  by (induction hist rule: rev_induct)
    (auto simp: cut_history_snoc cut_write_def cut_history_def simp flip: append_assoc)

lemma log_history:
  "foldl log_write ([], []) hist =
     (drop (length (fst (cut_history hist)) - 10) (fst (cut_history hist)), snd (cut_history hist))"
proof (induction hist rule: rev_induct)
  case Nil
  then show ?case by (simp add: cut_history_def)
next
  case (snoc bs hist)
  then show ?case
    using push_last_cap [of 10 "fst (cut_history hist)" "snd (cut_history hist) @ bs"]
    by (simp add: log_write_def cut_history_snoc cut_write_def)
qed

lemma cut_history_newline:
  "(\<forall>c\<in>set (fst (cut_history hist)). newline \<in> set c) \<and> newline \<notin> set (snd (cut_history hist))"
  by (induction hist rule: rev_induct) (auto simp: cut_history_snoc cut_write_def cut_history_def)

end
