(* ===== verification/Client_Session.thy ===== *)
theory Client_Session
  imports Device_Traces
begin

text \<open>
  One client connection of \<^verbatim>\<open>server/aesdsocket.c\<close>, built with \<^verbatim>\<open>USE_AESD_CHAR_DEVICE\<close>: the
  packet buffer and its scan for newlines, the seek command, and the replies.  The open file
  on the device, the connection and the allocator are what the code calls: \<open>aesd_file\<close> holds
  the system calls on \<^verbatim>\<open>fd\<close> over a device state of any type, \<open>conn\<close> is the connection with
  the data and errors its reads will deliver and the bytes sent on it, \<open>libc\<close> holds \<^verbatim>\<open>malloc\<close>
  and \<^verbatim>\<open>realloc\<close>.  \<open>None\<close> is a crash of the server or the kernel (an access outside a buffer, a
  signed overflow) or a loop that does not end.  Logging is left out.
\<close>

section \<open>Surroundings\<close>

record 'd aesd_file =
  file_write :: "'d \<Rightarrow> byte list \<Rightarrow> (int \<times> 'd) option"
  file_rewind :: "'d \<Rightarrow> 'd option"
  file_read :: "'d \<Rightarrow> nat \<Rightarrow> (int \<times> byte list \<times> 'd) option"
  file_seekto :: "'d \<Rightarrow> aesd_seekto \<Rightarrow> (int \<times> 'd) option"

text \<open>
  \<open>conn_in\<close> lists what arrives: data, or \<open>None\<close> for a failing read; after it the peer has
  closed.  \<open>conn_lim\<close> lists how the next writes end: \<open>None\<close> is an error, \<open>Some k\<close> accepts at
  most \<open>k\<close> bytes; after it every write is accepted whole.
\<close>

record conn =
  conn_in :: "byte list option list"
  conn_out :: "byte list"
  conn_lim :: "nat option list"

definition sock_read :: "conn \<Rightarrow> nat \<Rightarrow> int \<times> byte list \<times> conn" where
  "sock_read c n =
     (case conn_in c of
        [] \<Rightarrow> (0, [], c)
      | None # r \<Rightarrow> (-1, [], c\<lparr>conn_in := r\<rparr>)
      | Some bs # r \<Rightarrow>
          if length bs \<le> n then (int (length bs), bs, c\<lparr>conn_in := r\<rparr>)
          else (int n, take n bs, c\<lparr>conn_in := Some (drop n bs) # r\<rparr>))"

text \<open>A negative count is a huge one for the kernel, which refuses it.\<close>

definition sock_write :: "conn \<Rightarrow> byte list \<Rightarrow> int \<Rightarrow> int \<times> conn" where
  "sock_write c buf n =
     (if n < 0 then (-1, c)
      else case conn_lim c of
        [] \<Rightarrow> (n, c\<lparr>conn_out := conn_out c @ take (nat n) buf\<rparr>)
      | None # ls \<Rightarrow> (-1, c\<lparr>conn_lim := ls\<rparr>)
      | Some k # ls \<Rightarrow>
          (min (int k) n, c\<lparr>conn_out := conn_out c @ take (min k (nat n)) buf, conn_lim := ls\<rparr>))"

record libc =
  c_malloc :: "nat \<Rightarrow> byte list option"
  c_realloc :: "byte list \<Rightarrow> nat \<Rightarrow> byte list option"

definition libc_ok :: "libc \<Rightarrow> bool" where
  "libc_ok L \<longleftrightarrow>
     (\<forall>n bs. c_malloc L n = Some bs \<longrightarrow> length bs = n) \<and>
     (\<forall>old n new. c_realloc L old n = Some new \<longrightarrow>
        length new = n \<and> take (length old) new = take n old)"

section \<open>Replies\<close>

definition MAX_BUF_SIZE :: nat where "MAX_BUF_SIZE = 1024"

text \<open>Writing \<open>bs\<close> into a buffer at an index; outside the buffer is a crash.\<close>

definition overlay :: "byte list \<Rightarrow> nat \<Rightarrow> byte list \<Rightarrow> byte list option" where
  "overlay buf i bs =
     (if i + length bs \<le> length buf then Some (take i buf @ bs @ drop (i + length bs) buf) else None)"

text \<open>The loop that sends the device's contents back; the flag is false when a send failed.\<close>

partial_function (option) send_back ::
  "'d aesd_file \<Rightarrow> 'd \<Rightarrow> conn \<Rightarrow> byte list \<Rightarrow> (bool \<times> 'd \<times> conn \<times> byte list) option" where
  "send_back F d c write_back_pkt =
     do {
       (read_bytes, bs, d') \<leftarrow> file_read F d MAX_BUF_SIZE;
       if read_bytes = 0 then Some (True, d', c, write_back_pkt)
       else do {
         pkt \<leftarrow> overlay write_back_pkt 0 bs;
         let (written, c') = sock_write c pkt read_bytes;
         if written \<noteq> read_bytes then Some (False, d', c', pkt)
         else send_back F d' c' pkt
       }
     }"

definition process_packet ::
  "'d aesd_file \<Rightarrow> conn \<Rightarrow> nat \<Rightarrow> byte list \<Rightarrow> 'd \<Rightarrow> byte list \<Rightarrow> (int \<times> 'd \<times> conn \<times> byte list) option" where
  "process_packet F c len buff d write_back_pkt =
     (if length buff < len then None
      else do {
        (write_bytes, d1) \<leftarrow> file_write F d (take len buff);
        d2 \<leftarrow> file_rewind F d1;
        (sent, d3, c', pkt) \<leftarrow> send_back F d2 c write_back_pkt;
        Some (if sent then 0 else -1, d3, c', pkt)
      })"

section \<open>The seek command\<close>

text \<open>\<^verbatim>\<open>AESDCHAR_IOCSEEKTO:\<close> and the delimiters colon, comma and newline.\<close>

definition ioctl_cmd :: "byte list" where
  "ioctl_cmd = map (of_nat \<circ> of_char) ''AESDCHAR_IOCSEEKTO:''"

definition tok_delim :: "byte list" where "tok_delim = [58, 44, 10]"

function scan_while :: "(byte \<Rightarrow> bool) \<Rightarrow> byte list \<Rightarrow> nat \<Rightarrow> nat option" where
  "scan_while P buf i =
     (if i < length buf then (if P (buf ! i) then scan_while P buf (Suc i) else Some i) else None)"
  by pat_completeness auto
termination
  by (relation "measure (\<lambda>(P, buf, i). length buf - i)") auto

declare scan_while.simps [simp del]

text \<open>
  \<^verbatim>\<open>strtok\<close> from the saved position \<open>p\<close>: the start of the token or none, the buffer in which
  the delimiter behind the token is overwritten by a zero, and the position saved.
\<close>

definition strtok :: "byte list \<Rightarrow> nat \<Rightarrow> byte list \<Rightarrow> (nat option \<times> byte list \<times> nat) option" where
  "strtok delim p buf =
     do {
       i \<leftarrow> scan_while (\<lambda>b. b \<in> set delim) buf p;
       if buf ! i = 0 then Some (None, buf, i)
       else do {
         j \<leftarrow> scan_while (\<lambda>b. b \<noteq> 0 \<and> b \<notin> set delim) buf i;
         if buf ! j = 0 then Some (Some i, buf, j) else Some (Some i, buf[j := 0], Suc j)
       }
     }"

definition c_str :: "byte list \<Rightarrow> nat \<Rightarrow> byte list" where
  "c_str buf i = takeWhile (\<lambda>b. b \<noteq> 0) (drop i buf)"

definition is_digit :: "byte \<Rightarrow> bool" where "is_digit b \<longleftrightarrow> 48 \<le> b \<and> b \<le> 57"

definition is_space :: "byte \<Rightarrow> bool" where "is_space b \<longleftrightarrow> b = 32 \<or> (9 \<le> b \<and> b \<le> 13)"

definition digits_value :: "byte list \<Rightarrow> int" where
  "digits_value bs = foldl (\<lambda>v b. 10 * v + (uint b - 48)) 0 (takeWhile is_digit bs)"

text \<open>\<^verbatim>\<open>atoi\<close> is \<^verbatim>\<open>strtol\<close>, which saturates at 64 bits, cut to an \<^verbatim>\<open>int\<close>.\<close>

definition atoi :: "byte list \<Rightarrow> int32" where
  "atoi s =
     (let t = dropWhile is_space s;
          v = (case t of
                 [] \<Rightarrow> 0
               | b # r \<Rightarrow> if b = 45 then - digits_value r
                         else if b = 43 then digits_value r else digits_value t)
      in word_of_int (max (- (2 ^ 63)) (min (2 ^ 63 - 1) v)))"

definition seek_and_read ::
  "'d aesd_file \<Rightarrow> byte list \<Rightarrow> 'd \<Rightarrow> conn \<Rightarrow> byte list \<Rightarrow> (byte list \<times> 'd \<times> conn \<times> byte list) option" where
  "seek_and_read F buf d c write_back_pkt =
     do {
       (arg1, buf1, p1) \<leftarrow> strtok tok_delim 0 buf;
       (arg2, buf2, p2) \<leftarrow> strtok tok_delim p1 buf1;
       (arg3, buf3, p3) \<leftarrow> strtok tok_delim p2 buf2;
       case (arg1, arg2, arg3) of
         (Some a1, Some a2, Some a3) \<Rightarrow> do {
           (r, d1) \<leftarrow> file_seekto F d \<lparr>write_cmd = atoi (c_str buf3 a2), write_cmd_offset = atoi (c_str buf3 a3)\<rparr>;
           if r \<noteq> 0 then Some (buf3, d1, c, write_back_pkt)
           else do {
             (sent, d2, c', pkt) \<leftarrow> send_back F d1 c write_back_pkt;
             Some (buf3, d2, c', pkt)
           }
         }
       | _ \<Rightarrow> Some (buf3, d, c, write_back_pkt)
     }"

section \<open>The connection thread\<close>

record client_queue =
  connfd :: int
  task_finished :: int
  threadId :: nat
  fd :: int
  write_back_pkt :: "byte list"

record 'd session =
  buff :: "byte list"
  len :: nat
  dev :: 'd
  peer :: conn
  pkt :: "byte list"

text \<open>One newline found at \<open>len - 1\<close>: the flag is false when the thread has to stop.\<close>

definition handle_line :: "'d aesd_file \<Rightarrow> 'd session \<Rightarrow> (bool \<times> 'd session) option" where
  "handle_line F \<sigma> =
     (if take (length ioctl_cmd) (buff \<sigma>) = ioctl_cmd
      then do {
        (b, d, c, p) \<leftarrow> seek_and_read F (buff \<sigma>) (dev \<sigma>) (peer \<sigma>) (pkt \<sigma>);
        Some (True, \<sigma>\<lparr>buff := b, dev := d, peer := c, pkt := p\<rparr>)
      }
      else do {
        (rc, d, c, p) \<leftarrow> process_packet F (peer \<sigma>) (len \<sigma>) (buff \<sigma>) (dev \<sigma>) (pkt \<sigma>);
        Some (rc = 0, \<sigma>\<lparr>dev := d, peer := c, pkt := p\<rparr>)
      })"

text \<open>The \<^verbatim>\<open>for\<close> loop: the next \<open>n\<close> bytes of the buffer, however many were received.\<close>

fun scan_chunk :: "'d aesd_file \<Rightarrow> nat \<Rightarrow> 'd session \<Rightarrow> (bool \<times> 'd session) option" where
  "scan_chunk F 0 \<sigma> = Some (True, \<sigma>)"
| "scan_chunk F (Suc n) \<sigma> =
     do {
       b \<leftarrow> nth_opt (buff \<sigma>) (len \<sigma>);
       let \<sigma>1 = \<sigma>\<lparr>len := Suc (len \<sigma>)\<rparr>;
       if b = newline
       then do {
         (go, \<sigma>2) \<leftarrow> handle_line F \<sigma>1;
         if go then scan_chunk F n \<sigma>2 else Some (False, \<sigma>2)
       }
       else scan_chunk F n \<sigma>1
     }"

text \<open>
  The \<^verbatim>\<open>while\<close> loop.  After a failed \<^verbatim>\<open>realloc\<close> the buffer is \<^verbatim>\<open>NULL\<close>: the thread ends if the
  peer has closed and crashes otherwise.
\<close>

partial_function (option) chat_loop :: "libc \<Rightarrow> 'd aesd_file \<Rightarrow> 'd session \<Rightarrow> 'd session option" where
  "chat_loop L F \<sigma> =
     do {
       let (n, bs, c) = sock_read (peer \<sigma>) MAX_BUF_SIZE;
       if n = 0 then Some (\<sigma>\<lparr>peer := c\<rparr>)
       else do {
         b \<leftarrow> overlay (buff \<sigma>) (len \<sigma>) bs;
         (go, \<sigma>1) \<leftarrow> scan_chunk F MAX_BUF_SIZE (\<sigma>\<lparr>buff := b, peer := c\<rparr>);
         if \<not> go then Some \<sigma>1
         else if 2 ^ 31 \<le> len \<sigma>1 + MAX_BUF_SIZE then None
         else case c_realloc L (buff \<sigma>1) (len \<sigma>1 + MAX_BUF_SIZE) of
             Some b' \<Rightarrow> chat_loop L F (\<sigma>1\<lparr>buff := b'\<rparr>)
           | None \<Rightarrow> if fst (sock_read (peer \<sigma>1) MAX_BUF_SIZE) = 0 then Some \<sigma>1 else None
       }
     }"

definition process_client_connection ::
  "libc \<Rightarrow> 'd aesd_file \<Rightarrow> client_queue \<Rightarrow> 'd \<Rightarrow> conn \<Rightarrow> (client_queue \<times> 'd \<times> conn) option" where
  "process_client_connection L F e d c =
     (case c_malloc L MAX_BUF_SIZE of
        None \<Rightarrow> Some (e\<lparr>task_finished := 1\<rparr>, d, c)
      | Some block \<Rightarrow> do {
          \<sigma> \<leftarrow> chat_loop L F \<lparr>buff = replicate (length block) 0, len = 0, dev = d, peer = c, pkt = write_back_pkt e\<rparr>;
          Some (e\<lparr>write_back_pkt := pkt \<sigma>, task_finished := 1\<rparr>, dev \<sigma>, peer \<sigma>)
        })"

text \<open>Of its own structure the thread writes the reply buffer and the flag, nothing else.\<close>

lemma session_frame:
  assumes "process_client_connection L F e d c = Some (e', d', c')"
  shows "e' = e\<lparr>write_back_pkt := write_back_pkt e', task_finished := 1\<rparr>"
  using assms by (auto simp: process_client_connection_def bind_eq_Some_conv split: option.splits)

section \<open>The contract of the device file\<close>

text \<open>What a read at position \<open>p\<close> of the stored commands returns.\<close>

definition rest_at :: "byte list list \<Rightarrow> nat \<Rightarrow> byte list" where
  "rest_at css p = (case locate (map length css) p of None \<Rightarrow> [] | Some (j, off) \<Rightarrow> drop off (css ! j))"

lemma rest_at_end: "length (concat css) \<le> p \<Longrightarrow> rest_at css p = []"
  using locate_None_iff [of "map length css" p] by (simp add: rest_at_def length_concat)

lemma rest_at_inside:
  assumes "p < length (concat css)"
  shows "rest_at css p \<noteq> []" and "\<exists>c\<in>set css. length (rest_at css p) \<le> length c"
    and "drop p (concat css) = rest_at css p @ drop (p + length (rest_at css p)) (concat css)"
    and "p + length (rest_at css p) \<le> length (concat css)"
proof -
  obtain j off where loc: "locate (map length css) p = Some (j, off)"
    using assms locate_None_iff [of "map length css" p] by (auto simp: length_concat)
  note d = locate_SomeD [OF loc]
  have r: "rest_at css p = drop off (css ! j)" using loc by (simp add: rest_at_def)
  show "rest_at css p \<noteq> []" "\<exists>c\<in>set css. length (rest_at css p) \<le> length c"
    using d r by (auto intro!: bexI [of _ "css ! j"])
  have dc: "drop p (concat css) = rest_at css p @ concat (drop (Suc j) css)"
    unfolding r by (rule drop_concat_locate [OF loc])
  then have "drop (length (rest_at css p)) (drop p (concat css)) = concat (drop (Suc j) css)" by simp
  then show "drop p (concat css) = rest_at css p @ drop (p + length (rest_at css p)) (concat css)"
    using dc by (metis add.commute drop_drop)
  have "length (rest_at css p) \<le> length (drop p (concat css))" unfolding dc by simp
  then show "p + length (rest_at css p) \<le> length (concat css)" using assms by simp
qed

text \<open>
  The laws the server relies on, over a log of stored commands and a pending command, the
  position of the file and a condition \<open>ready\<close> under which a write succeeds.
\<close>

locale char_file =
  fixes F :: "'d aesd_file"
    and inv :: "'d \<Rightarrow> bool"
    and log :: "'d \<Rightarrow> byte list list \<times> byte list"
    and pos :: "'d \<Rightarrow> nat"
    and ready :: "'d \<Rightarrow> byte list \<Rightarrow> bool"
  assumes write_ok: "inv d \<Longrightarrow> ready d bs \<Longrightarrow>
      \<exists>d'. file_write F d bs = Some (int (length bs), d') \<and> inv d' \<and> log d' = log_write (log d) bs"
    and rewind_ok: "inv d \<Longrightarrow> \<exists>d'. file_rewind F d = Some d' \<and> inv d' \<and> log d' = log d \<and> pos d' = 0"
    and read_ok: "inv d \<Longrightarrow> pos d \<le> length (concat (fst (log d))) \<Longrightarrow>
      \<exists>d'. file_read F d n = Some (int (length (rest_at (fst (log d)) (pos d))), rest_at (fst (log d)) (pos d), d') \<and>
           inv d' \<and> log d' = log d \<and> pos d' = pos d + length (rest_at (fst (log d)) (pos d))"
    and seekto_ok: "inv d \<Longrightarrow> fst (log d) \<noteq> [] \<Longrightarrow>
      \<exists>r d'. file_seekto F d t = Some (r, d') \<and> inv d' \<and> log d' = log d \<and>
        (case seek_spec (map length (fst (log d))) (unat (write_cmd t)) (unat (write_cmd_offset t)) of
           None \<Rightarrow> r \<noteq> 0 \<and> pos d' = pos d
         | Some p \<Rightarrow> r = 0 \<and> pos d' = p)"
begin

text \<open>The replies: from the position of the file to the end of the log.\<close>

lemma send_back_rest:
  assumes "inv d" and "pos d \<le> length (concat (fst (log d)))"
    and "\<forall>c\<in>set (fst (log d)). length c \<le> MAX_BUF_SIZE"
    and "conn_lim c = []" and "length p = MAX_BUF_SIZE"
  shows "\<exists>d' p'. send_back F d c p =
           Some (True, d', c\<lparr>conn_out := conn_out c @ drop (pos d) (concat (fst (log d)))\<rparr>, p') \<and>
           inv d' \<and> log d' = log d \<and> length p' = MAX_BUF_SIZE"
  using assms
proof (induction "length (concat (fst (log d))) - pos d" arbitrary: d c p rule: less_induct)
  case less
  let ?css = "fst (log d)"
  let ?r = "rest_at ?css (pos d)"
  obtain d' where d': "file_read F d MAX_BUF_SIZE = Some (int (length ?r), ?r, d')" "inv d'"
    "log d' = log d" "pos d' = pos d + length ?r"
    using read_ok [OF less.prems(1,2)] by blast
  show ?case
  proof (cases "pos d < length (concat ?css)")
    case False
    then have "?r = []" "drop (pos d) (concat ?css) = []" by (simp_all add: rest_at_end)
    then show ?thesis using d' less.prems(5) by (subst send_back.simps) simp
  next
    case True
    note r = rest_at_inside [OF True]
    have fits: "length ?r \<le> MAX_BUF_SIZE" using r(2) less.prems(3) by fastforce
    define p' where "p' = ?r @ drop (length ?r) p"
    have p': "overlay p 0 ?r = Some p'" "length p' = MAX_BUF_SIZE" "take (length ?r) p' = ?r"
      using fits less.prems(5) by (simp_all add: overlay_def p'_def)
    define c' where "c' = c\<lparr>conn_out := conn_out c @ ?r\<rparr>"
    have w: "sock_write c p' (int (length ?r)) = (int (length ?r), c')"
      using less.prems(4) p'(3) by (simp add: sock_write_def c'_def)
    have "length (concat (fst (log d'))) - pos d' < length (concat ?css) - pos d"
      using d'(3,4) r(1) True by (simp add: diff_less_mono2)
    moreover have "pos d' \<le> length (concat (fst (log d')))"
      "\<forall>c\<in>set (fst (log d')). length c \<le> MAX_BUF_SIZE" "conn_lim c' = []"
      using d'(3,4) r(4) less.prems(3,4) by (simp_all add: c'_def)
    ultimately obtain d'' p'' where
      "send_back F d' c' p' = Some (True, d'', c'\<lparr>conn_out := conn_out c' @ drop (pos d') (concat (fst (log d')))\<rparr>, p'')"
      "inv d''" "log d'' = log d'" "length p'' = MAX_BUF_SIZE"
      using less.hyps [of d' c' p'] d'(2) p'(2) by blast
    moreover have "conn_out c' @ drop (pos d') (concat (fst (log d'))) = conn_out c @ drop (pos d) (concat ?css)"
      using d'(3,4) r(3) by (simp add: c'_def)
    ultimately show ?thesis
      using d' r(1) p'(1) w by (subst send_back.simps) (auto simp: c'_def)
  qed
qed

text \<open>A packet is stored and the whole log is sent back.\<close>

lemma process_packet_echo:
  assumes "inv d" and "n \<le> length b" and "ready d (take n b)"
    and "\<forall>c\<in>set (fst (log_write (log d) (take n b))). length c \<le> MAX_BUF_SIZE"
    and "conn_lim c = []" and "length p = MAX_BUF_SIZE"
  shows "\<exists>d' p'. process_packet F c n b d p =
           Some (0, d', c\<lparr>conn_out := conn_out c @ concat (fst (log_write (log d) (take n b)))\<rparr>, p') \<and>
           inv d' \<and> log d' = log_write (log d) (take n b) \<and> length p' = MAX_BUF_SIZE"
proof -
  obtain d1 where d1: "file_write F d (take n b) = Some (int (length (take n b)), d1)" "inv d1"
    "log d1 = log_write (log d) (take n b)"
    using write_ok [OF assms(1,3)] by blast
  obtain d2 where d2: "file_rewind F d1 = Some d2" "inv d2" "log d2 = log d1" "pos d2 = 0"
    using rewind_ok [OF d1(2)] by blast
  have "pos d2 \<le> length (concat (fst (log d2)))" "\<forall>c\<in>set (fst (log d2)). length c \<le> MAX_BUF_SIZE"
    using d2 d1(3) assms(4) by simp_all
  from send_back_rest [OF d2(2) this assms(5,6)] show ?thesis
    using d1 d2 assms(2) by (auto simp: process_packet_def)
qed

text \<open>A command longer than the reply buffer overruns it.\<close>

lemma process_packet_overrun:
  assumes "inv d" and "n \<le> length b" and "ready d (take n b)"
    and "fst (log_write (log d) (take n b)) = long # rest" and "MAX_BUF_SIZE < length long"
    and "length p = MAX_BUF_SIZE"
  shows "process_packet F c n b d p = None"
proof -
  obtain d1 where d1: "file_write F d (take n b) = Some (int (length (take n b)), d1)" "inv d1"
    "log d1 = log_write (log d) (take n b)"
    using write_ok [OF assms(1,3)] by blast
  obtain d2 where d2: "file_rewind F d1 = Some d2" "inv d2" "log d2 = log d1" "pos d2 = 0"
    using rewind_ok [OF d1(2)] by blast
  have r: "rest_at (fst (log d2)) (pos d2) = long"
    using d1(3) d2(3,4) assms(4,5) by (cases "long = []") (simp_all add: rest_at_def)
  have "pos d2 \<le> length (concat (fst (log d2)))" using d2(4) by simp
  from read_ok [OF d2(2) this, of MAX_BUF_SIZE] obtain d3
    where "file_read F d2 MAX_BUF_SIZE = Some (int (length long), long, d3)"
    unfolding r by blast
  moreover have "overlay p 0 long = None" using assms(5,6) by (simp add: overlay_def)
  ultimately have "send_back F d2 c p = None" using assms(5) by (subst send_back.simps) auto
  then show ?thesis using d1(1) d2(1) by (simp add: process_packet_def)
qed

end

section \<open>Scanning and parsing\<close>

lemma scan_while_eq:
  assumes "i \<le> length buf"
  shows "scan_while P buf i =
     (let k = i + length (takeWhile P (drop i buf)) in if k < length buf then Some k else None)"
  using assms
proof (induction "length buf - i" arbitrary: i)
  case 0
  then show ?case by (simp add: scan_while.simps)
next
  case (Suc n)
  then have i: "i < length buf" by simp
  have "drop i buf = buf ! i # drop (Suc i) buf" using i by (simp add: Cons_nth_drop_Suc)
  then show ?case using Suc i by (subst scan_while.simps) (auto simp: Let_def)
qed

text \<open>A token between delimiters: \<open>pre\<close> ends where the saved position is.\<close>

lemma strtok_token:
  assumes buf: "buf = pre @ ds @ tok @ b # post"
    and ds: "\<forall>x\<in>set ds. x \<in> set delim" and tok: "tok \<noteq> []" "\<forall>x\<in>set tok. x \<noteq> 0 \<and> x \<notin> set delim"
    and b: "b \<in> set delim" "b \<noteq> 0"
  shows "strtok delim (length pre) buf =
     Some (Some (length pre + length ds), pre @ ds @ tok @ 0 # post, Suc (length pre + length ds + length tok))"
proof -
  let ?i = "length pre + length ds"
  obtain t ts where t: "tok = t # ts" using tok(1) by (cases tok) auto
  have "takeWhile (\<lambda>x. x \<in> set delim) (ds @ tok @ b # post) = ds"
    using ds tok(2) t by (simp add: takeWhile_append2)
  then have i: "scan_while (\<lambda>x. x \<in> set delim) buf (length pre) = Some ?i"
    by (simp add: scan_while_eq buf t)
  have nz: "buf ! ?i \<noteq> 0" using tok(2) t by (simp add: buf nth_append)
  have "takeWhile (\<lambda>x. x \<noteq> 0 \<and> x \<notin> set delim) (tok @ b # post) = tok"
    using tok(2) b(1) by (simp add: takeWhile_append2)
  then have j: "scan_while (\<lambda>x. x \<noteq> 0 \<and> x \<notin> set delim) buf ?i = Some (?i + length tok)"
    by (simp add: scan_while_eq buf)
  have bj: "buf ! (?i + length tok) = b" "buf[?i + length tok := 0] = pre @ ds @ tok @ 0 # post"
    by (simp_all add: buf nth_append list_update_append)
  show ?thesis using i nz j bj b(2) by (simp add: strtok_def add.assoc)
qed

lemma takeWhile_digits: "\<forall>x\<in>set xs. is_digit x \<Longrightarrow> takeWhile is_digit xs = xs"
  by (simp add: takeWhile_eq_all_conv)

lemma digit_facts: "is_digit x \<Longrightarrow> x \<noteq> 0 \<and> x \<notin> set tok_delim \<and> \<not> is_space x \<and> x \<noteq> 45 \<and> x \<noteq> 43"
  by (auto simp: is_digit_def is_space_def tok_delim_def word_le_nat_alt)

lemma atoi_digits:
  assumes "xs \<noteq> []" and "\<forall>x\<in>set xs. is_digit x" and "digits_value xs < 2 ^ 32"
  shows "atoi xs = word_of_int (digits_value xs)"
proof -
  obtain x ys where x: "xs = x # ys" using assms(1) by (cases xs) auto
  have "dropWhile is_space xs = xs" using assms(2) digit_facts [of x] x by simp
  moreover have "0 \<le> digits_value xs"
  proof -
    have "0 \<le> foldl (\<lambda>v b. 10 * v + (uint b - 48)) v zs"
      if "0 \<le> v" "\<forall>b\<in>set zs. is_digit b" for v :: int and zs :: "byte list"
      using that
    proof (induction zs arbitrary: v)
      case Nil
      then show ?case by simp
    next
      case (Cons z zs)
      have "48 \<le> uint z" using Cons.prems(2) by (simp add: is_digit_def word_le_def)
      then show ?case using Cons by simp
    qed
    then show ?thesis using assms(2) by (simp add: digits_value_def takeWhile_digits)
  qed
  ultimately show ?thesis using assms(3) digit_facts [of x] assms(2) x by (simp add: atoi_def)
qed

definition seek_line :: "byte list \<Rightarrow> byte list \<Rightarrow> byte list" where
  "seek_line xs ys = ioctl_cmd @ xs @ [44] @ ys @ [newline]"

definition seek_name :: "byte list" where
  "seek_name = map (of_nat \<circ> of_char) ''AESDCHAR_IOCSEEKTO''"

lemma ioctl_cmd_name: "ioctl_cmd = seek_name @ [58]"
  by (simp add: ioctl_cmd_def seek_name_def)

lemma seek_name_plain: "seek_name \<noteq> []" "\<forall>x\<in>set seek_name. x \<noteq> 0 \<and> x \<notin> set tok_delim"
  by (simp_all add: seek_name_def tok_delim_def)

text \<open>The three tokens of a seek line.\<close>

lemma seek_line_tokens:
  fixes xs ys post :: "byte list"
  assumes xs: "xs \<noteq> []" "\<forall>x\<in>set xs. is_digit x" and ys: "ys \<noteq> []" "\<forall>x\<in>set ys. is_digit x"
  defines "n \<equiv> Suc (length seek_name)" and "m \<equiv> Suc (Suc (length seek_name + length xs))"
  defines "buf3 \<equiv> seek_name @ [0] @ xs @ [0] @ ys @ [0] @ post"
  obtains b1 p1 b2 p2 p3 where
    "strtok tok_delim 0 (seek_line xs ys @ post) = Some (Some 0, b1, p1)"
    "strtok tok_delim p1 b1 = Some (Some n, b2, p2)"
    "strtok tok_delim p2 b2 = Some (Some m, buf3, p3)"
    "c_str buf3 n = xs" "c_str buf3 m = ys"
proof -
  let ?b1 = "seek_name @ [0] @ xs @ [44] @ ys @ [10] @ post"
  let ?b2 = "seek_name @ [0] @ xs @ [0] @ ys @ [10] @ post"
  have dx: "\<forall>x\<in>set xs. x \<noteq> 0 \<and> x \<notin> set tok_delim" using xs(2) digit_facts by blast
  have dy: "\<forall>x\<in>set ys. x \<noteq> 0 \<and> x \<notin> set tok_delim" using ys(2) digit_facts by blast
  have d: "(58 :: byte) \<in> set tok_delim" "(44 :: byte) \<in> set tok_delim" "(10 :: byte) \<in> set tok_delim"
    by (simp_all add: tok_delim_def)
  have t1: "strtok tok_delim 0 (seek_line xs ys @ post) = Some (Some 0, ?b1, n)"
    using strtok_token [of "seek_line xs ys @ post" "[]" "[]" seek_name 58 "xs @ [44] @ ys @ [10] @ post" tok_delim]
      seek_name_plain d(1) by (simp add: seek_line_def ioctl_cmd_name newline_def n_def)
  have t2: "strtok tok_delim n ?b1 = Some (Some n, ?b2, m)"
    using strtok_token [of ?b1 "seek_name @ [0]" "[]" xs 44 "ys @ [10] @ post" tok_delim] xs(1) dx d(2)
    by (simp add: n_def m_def)
  have t3: "strtok tok_delim m ?b2 = Some (Some m, buf3, Suc (m + length ys))"
    using strtok_token [of ?b2 "seek_name @ [0] @ xs @ [0]" "[]" ys 10 post tok_delim] ys(1) dy d(3)
    by (simp add: m_def buf3_def)
  have c1: "c_str buf3 n = xs" using dx by (simp add: c_str_def buf3_def n_def takeWhile_append2)
  have "drop m buf3 = ys @ [0] @ post" by (simp add: buf3_def m_def)
  then have "c_str buf3 m = ys" using dy by (simp add: c_str_def takeWhile_append2)
  from that [OF t1 t2 t3 c1 this] show thesis .
qed

text \<open>A token that no delimiter and no zero ends: \<^verbatim>\<open>strtok\<close> leaves the buffer.\<close>

lemma strtok_runs_out:
  assumes buf: "buf = pre @ ds @ tok" and ds: "\<forall>x\<in>set ds. x \<in> set delim"
    and tok: "tok \<noteq> []" "\<forall>x\<in>set tok. x \<noteq> 0 \<and> x \<notin> set delim"
  shows "strtok delim (length pre) buf = None"
proof -
  let ?i = "length pre + length ds"
  obtain t ts where t: "tok = t # ts" using tok(1) by (cases tok) auto
  have "takeWhile (\<lambda>x. x \<in> set delim) (ds @ tok) = ds" using ds tok(2) t by (simp add: takeWhile_append2)
  then have i: "scan_while (\<lambda>x. x \<in> set delim) buf (length pre) = Some ?i" by (simp add: scan_while_eq buf t)
  have nz: "buf ! ?i \<noteq> 0" using tok(2) t by (simp add: buf nth_append)
  have "\<not> length (takeWhile (\<lambda>x. x \<noteq> 0 \<and> x \<notin> set delim) tok) < length tok"
    by (subst takeWhile_eq_all_conv [THEN iffD2, OF tok(2)]) simp
  then have "scan_while (\<lambda>x. x \<noteq> 0 \<and> x \<notin> set delim) buf ?i = None" by (simp add: scan_while_eq buf)
  then show ?thesis using i nz by (simp add: strtok_def)
qed

lemma seek_and_read_runs_out:
  assumes "rest \<noteq> []" and "\<forall>x\<in>set rest. x \<noteq> 0 \<and> x \<notin> set tok_delim"
  shows "seek_and_read F (ioctl_cmd @ newline # rest) d c p = None"
proof -
  have d: "(58 :: byte) \<in> set tok_delim" "newline \<in> set tok_delim" by (simp_all add: tok_delim_def newline_def)
  have "strtok tok_delim 0 (ioctl_cmd @ newline # rest) =
      Some (Some 0, seek_name @ 0 # newline # rest, Suc (length seek_name))"
    using strtok_token [of "ioctl_cmd @ newline # rest" "[]" "[]" seek_name 58 "newline # rest" tok_delim]
      seek_name_plain d(1) by (simp add: ioctl_cmd_name)
  moreover have "strtok tok_delim (Suc (length seek_name)) (seek_name @ 0 # newline # rest) = None"
    using strtok_runs_out [of "seek_name @ 0 # newline # rest" "seek_name @ [0]" "[newline]" rest tok_delim] assms d(2)
    by simp
  ultimately show ?thesis by (simp add: seek_and_read_def)
qed

section \<open>The scan of a chunk\<close>

lemma scan_chunk_quiet:
  assumes "len \<sigma> + n \<le> length (buff \<sigma>)" and "newline \<notin> set (take n (drop (len \<sigma>) (buff \<sigma>)))"
  shows "scan_chunk F n \<sigma> = Some (True, \<sigma>\<lparr>len := len \<sigma> + n\<rparr>)"
  using assms
proof (induction n arbitrary: \<sigma>)
  case 0
  then show ?case by simp
next
  case (Suc n)
  have i: "len \<sigma> < length (buff \<sigma>)" using Suc.prems(1) by simp
  then have "drop (len \<sigma>) (buff \<sigma>) = buff \<sigma> ! len \<sigma> # drop (Suc (len \<sigma>)) (buff \<sigma>)"
    by (simp add: Cons_nth_drop_Suc)
  then show ?case
    using Suc.prems i Suc.IH [of "\<sigma>\<lparr>len := Suc (len \<sigma>)\<rparr>"] by (auto simp: nth_opt_def)
qed

lemma scan_chunk_add:
  "scan_chunk F (m + n) \<sigma> =
     do { (go, \<sigma>1) \<leftarrow> scan_chunk F m \<sigma>; if go then scan_chunk F n \<sigma>1 else Some (False, \<sigma>1) }"
proof (induction m arbitrary: \<sigma>)
  case 0
  then show ?case by simp
next
  case (Suc m)
  show ?case
  proof (cases "nth_opt (buff \<sigma>) (len \<sigma>)")
    case None
    then show ?thesis by simp
  next
    case (Some b)
    show ?thesis
    proof (cases "b = newline \<and> handle_line F (\<sigma>\<lparr>len := Suc (len \<sigma>)\<rparr>) = None")
      case True
      then show ?thesis using Some by simp
    next
      case False
      then show ?thesis using Some by (auto simp: Suc.IH Let_def split: if_splits)
    qed
  qed
qed

text \<open>
  A chunk whose first \<open>k + 1\<close> bytes end in their only newline and are followed by no other:
  one line is handled, with the length up to the newline.
\<close>

lemma scan_chunk_line:
  assumes len: "length (buff \<sigma>) = len \<sigma> + (Suc k + m)"
    and line: "take (Suc k) (drop (len \<sigma>) (buff \<sigma>)) = bs @ [newline]" "newline \<notin> set bs"
    and run: "handle_line F (\<sigma>\<lparr>len := len \<sigma> + Suc k\<rparr>) = Some (go, \<tau>)"
    and tau: "len \<tau> = len \<sigma> + Suc k" "length (buff \<tau>) = length (buff \<sigma>)"
      "newline \<notin> set (drop (len \<tau>) (buff \<tau>))"
  shows "scan_chunk F (Suc k + m) \<sigma> = Some (go, if go then \<tau>\<lparr>len := len \<tau> + m\<rparr> else \<tau>)"
proof -
  have lb: "length bs = k" using line(1) len by (metis add.commute add_diff_cancel_left' butlast_snoc diff_Suc_1
        length_append_singleton length_drop length_take min.absorb2 le_add1)
  have t: "take k (drop (len \<sigma>) (buff \<sigma>)) = bs"
  proof -
    have "take k (take (Suc k) (drop (len \<sigma>) (buff \<sigma>))) = take k (bs @ [newline])" by (simp only: line(1))
    then show ?thesis using lb by simp
  qed
  have nl: "buff \<sigma> ! (len \<sigma> + k) = newline"
  proof -
    have "take (Suc k) (drop (len \<sigma>) (buff \<sigma>)) ! k = newline" unfolding line(1) using lb by (simp add: nth_append)
    then show ?thesis using len by simp
  qed
  have "scan_chunk F k \<sigma> = Some (True, \<sigma>\<lparr>len := len \<sigma> + k\<rparr>)"
    using len line(2) t by (intro scan_chunk_quiet) simp_all
  moreover have "scan_chunk F 1 (\<sigma>\<lparr>len := len \<sigma> + k\<rparr>) = Some (go, \<tau>)"
    using nl len run by (simp add: nth_opt_def)
  ultimately have "scan_chunk F (k + 1) \<sigma> = Some (go, \<tau>)"
    by (simp only: scan_chunk_add bind.bind_lunit prod.case if_True)
  moreover have "scan_chunk F m \<tau> = Some (True, \<tau>\<lparr>len := len \<tau> + m\<rparr>)"
    using len tau by (intro scan_chunk_quiet) simp_all
  ultimately show ?thesis using scan_chunk_add [of F "k + 1" m \<sigma>] by simp
qed

text \<open>A connection that delivers one line of at most 1024 bytes and then closes.\<close>

lemma single_line_session:
  assumes L: "libc_ok L" "c_malloc L MAX_BUF_SIZE \<noteq> None"
    and c: "conn_in c = [Some (bs @ [newline])]" "newline \<notin> set bs" "length bs < MAX_BUF_SIZE"
  defines "b0 \<equiv> bs @ [newline] @ replicate (MAX_BUF_SIZE - Suc (length bs)) 0"
  assumes run: "handle_line F \<lparr>buff = b0, len = Suc (length bs), dev = d, peer = c\<lparr>conn_in := []\<rparr>, pkt = p\<rparr> =
      Some (True, \<lparr>buff = b1, len = Suc (length bs), dev = d', peer = c', pkt = p'\<rparr>)"
    and b1: "length b1 = MAX_BUF_SIZE" "newline \<notin> set (drop (Suc (length bs)) b1)"
    and c': "conn_in c' = []" and e: "write_back_pkt e = p"
  shows "process_client_connection L F e d c =
     Some (e\<lparr>write_back_pkt := p', task_finished := 1\<rparr>, d', c')"
proof -
  let ?m = "MAX_BUF_SIZE - Suc (length bs)"
  let ?\<sigma> = "\<lparr>buff = b0, len = 0, dev = d, peer = c\<lparr>conn_in := []\<rparr>, pkt = p\<rparr>"
  let ?\<tau> = "\<lparr>buff = b1, len = Suc (length bs), dev = d', peer = c', pkt = p'\<rparr>"
  have m: "Suc (length bs) + ?m = MAX_BUF_SIZE" using c(3) by simp
  have scan: "scan_chunk F MAX_BUF_SIZE ?\<sigma> = Some (True, ?\<tau>\<lparr>len := MAX_BUF_SIZE\<rparr>)"
    using scan_chunk_line [of ?\<sigma> "length bs" ?m bs F True ?\<tau>] run b1 c(2) m by (simp add: b0_def)
  obtain blk where blk: "c_malloc L MAX_BUF_SIZE = Some blk" "length blk = MAX_BUF_SIZE"
    using L by (auto simp: libc_ok_def)
  have rd: "sock_read c MAX_BUF_SIZE = (int (Suc (length bs)), bs @ [newline], c\<lparr>conn_in := []\<rparr>)"
    using c by (simp add: sock_read_def)
  have ov: "overlay (replicate MAX_BUF_SIZE 0) 0 (bs @ [newline]) = Some b0"
    using c(3) by (simp add: overlay_def b0_def)
  have eof: "fst (sock_read c' MAX_BUF_SIZE) = 0" using c' by (simp add: sock_read_def)
  have small: "\<not> 2 ^ 31 \<le> MAX_BUF_SIZE + MAX_BUF_SIZE" by (simp add: MAX_BUF_SIZE_def)
  have fin: "chat_loop L F \<tau> = Some \<tau>" if "peer \<tau> = c'" for \<tau>
    using c' that by (subst chat_loop.simps) (simp add: sock_read_def)
  have "chat_loop L F \<lparr>buff = replicate MAX_BUF_SIZE 0, len = 0, dev = d, peer = c, pkt = p\<rparr> =
      Some (case c_realloc L b1 (MAX_BUF_SIZE + MAX_BUF_SIZE) of
              None \<Rightarrow> ?\<tau>\<lparr>len := MAX_BUF_SIZE\<rparr> | Some b' \<Rightarrow> ?\<tau>\<lparr>len := MAX_BUF_SIZE, buff := b'\<rparr>)"
    using eof small by (subst chat_loop.simps) (simp add: rd ov scan fin split: option.split)
  then show ?thesis using blk e by (auto simp: process_client_connection_def split: option.splits)
qed

section \<open>Sessions over any device file that meets the contract\<close>

text \<open>A line that is not a seek command.\<close>

definition plain_line :: "byte list \<Rightarrow> bool" where
  "plain_line bs \<longleftrightarrow> \<not> (\<exists>r. bs = ioctl_cmd @ r)"

lemma plain_line_take:
  assumes "plain_line (bs @ [newline])" and "newline \<notin> set bs"
  shows "take (length ioctl_cmd) (bs @ [newline] @ replicate k 0) \<noteq> ioctl_cmd"
proof
  assume h: "take (length ioctl_cmd) (bs @ [newline] @ replicate k 0) = ioctl_cmd"
  have z: "0 \<notin> set ioctl_cmd" "newline \<notin> set ioctl_cmd" by (simp_all add: ioctl_cmd_def newline_def)
  show False
  proof (cases "length ioctl_cmd \<le> length bs")
    case True
    then have "take (length ioctl_cmd) bs = ioctl_cmd" using h by simp
    then have "bs = ioctl_cmd @ drop (length ioctl_cmd) bs" by (metis append_take_drop_id)
    then have "bs @ [newline] = ioctl_cmd @ drop (length ioctl_cmd) bs @ [newline]" by simp
    then show False using assms(1) unfolding plain_line_def by blast
  next
    case False
    then have "newline \<in> set (take (length ioctl_cmd) (bs @ [newline] @ replicate k 0))"
      by (auto simp: take_Cons' split: if_splits)
    then show False using h z(2) by metis
  qed
qed

context char_file
begin

lemma session_echo:
  assumes L: "libc_ok L" "c_malloc L MAX_BUF_SIZE \<noteq> None"
    and c: "conn_in c = [Some (bs @ [newline])]" "newline \<notin> set bs" "length bs < MAX_BUF_SIZE"
      "conn_lim c = []"
    and plain: "plain_line (bs @ [newline])"
    and d: "inv d" "ready d (bs @ [newline])"
      "\<forall>x\<in>set (fst (log_write (log d) (bs @ [newline]))). length x \<le> MAX_BUF_SIZE"
    and e: "length (write_back_pkt e) = MAX_BUF_SIZE"
  shows "\<exists>e' d'. process_client_connection L F e d c =
           Some (e', d', c\<lparr>conn_in := [], conn_out := conn_out c @ concat (fst (log d'))\<rparr>) \<and>
           task_finished e' = 1 \<and> inv d' \<and> log d' = log_write (log d) (bs @ [newline])"
proof -
  let ?n = "Suc (length bs)"
  define b0 where "b0 = bs @ [newline] @ replicate (MAX_BUF_SIZE - ?n) 0"
  have tk: "take ?n b0 = bs @ [newline]" by (simp add: b0_def)
  have np: "take (length ioctl_cmd) b0 \<noteq> ioctl_cmd"
    unfolding b0_def by (rule plain_line_take [OF plain c(2)])
  have pre: "?n \<le> length b0" "ready d (take ?n b0)"
    "\<forall>x\<in>set (fst (log_write (log d) (take ?n b0))). length x \<le> MAX_BUF_SIZE"
    "conn_lim (c\<lparr>conn_in := []\<rparr>) = []"
    using d(2,3) c(4) unfolding tk by (simp_all add: b0_def)
  obtain d' p' where pp: "process_packet F (c\<lparr>conn_in := []\<rparr>) ?n b0 d (write_back_pkt e) =
      Some (0, d', c\<lparr>conn_in := [], conn_out := conn_out c @ concat (fst (log_write (log d) (bs @ [newline])))\<rparr>, p')"
    "inv d'" "log d' = log_write (log d) (bs @ [newline])"
    using process_packet_echo [OF d(1) pre e] unfolding tk by auto
  let ?c' = "c\<lparr>conn_in := [], conn_out := conn_out c @ concat (fst (log d'))\<rparr>"
  have "handle_line F \<lparr>buff = b0, len = ?n, dev = d, peer = c\<lparr>conn_in := []\<rparr>, pkt = write_back_pkt e\<rparr> =
      Some (True, \<lparr>buff = b0, len = ?n, dev = d', peer = ?c', pkt = p'\<rparr>)"
    using np pp by (simp add: handle_line_def)
  from single_line_session [OF L c(1-3) this [unfolded b0_def]]
  have "process_client_connection L F e d c = Some (e\<lparr>write_back_pkt := p', task_finished := 1\<rparr>, d', ?c')"
    using c(3) by (simp add: newline_def)
  then show ?thesis using pp(2,3) by auto
qed

lemma session_seek:
  assumes L: "libc_ok L" "c_malloc L MAX_BUF_SIZE \<noteq> None"
    and c: "conn_in c = [Some (seek_line xs ys)]" "length (seek_line xs ys) \<le> MAX_BUF_SIZE" "conn_lim c = []"
    and xs: "xs \<noteq> []" "\<forall>x\<in>set xs. is_digit x" "digits_value xs < 2 ^ 32"
    and ys: "ys \<noteq> []" "\<forall>x\<in>set ys. is_digit x" "digits_value ys < 2 ^ 32"
    and d: "inv d" "fst (log d) \<noteq> []" "\<forall>x\<in>set (fst (log d)). length x \<le> MAX_BUF_SIZE"
    and e: "length (write_back_pkt e) = MAX_BUF_SIZE"
  defines "target \<equiv> seek_spec (map length (fst (log d))) (unat (word_of_int (digits_value xs) :: uint32))
      (unat (word_of_int (digits_value ys) :: uint32))"
  shows "\<exists>e' d'. process_client_connection L F e d c =
           Some (e', d', c\<lparr>conn_in := [], conn_out := conn_out c @
             (case target of None \<Rightarrow> [] | Some p \<Rightarrow> drop p (concat (fst (log d))))\<rparr>) \<and>
           task_finished e' = 1 \<and> inv d' \<and> log d' = log d"
proof -
  define bs where "bs = ioctl_cmd @ xs @ [44] @ ys"
  have line: "seek_line xs ys = bs @ [newline]" by (simp add: seek_line_def bs_def)
  have nl: "newline \<notin> set bs"
    using xs(2) ys(2) digit_facts [of newline] by (auto simp: bs_def ioctl_cmd_def newline_def tok_delim_def)
  have lb: "length bs < MAX_BUF_SIZE" using c(2) line by simp
  let ?n = "Suc (length bs)" and ?z = "replicate (MAX_BUF_SIZE - Suc (length bs)) (0 :: byte)"
  let ?c0 = "c\<lparr>conn_in := []\<rparr>"
  let ?t = "\<lparr>write_cmd = word_of_int (digits_value xs), write_cmd_offset = word_of_int (digits_value ys)\<rparr>"
  let ?out = "case target of None \<Rightarrow> [] | Some p \<Rightarrow> drop p (concat (fst (log d)))"
  obtain b1 p1 b2 p2 p3 n m b3 where tok:
    "strtok tok_delim 0 (seek_line xs ys @ ?z) = Some (Some 0, b1, p1)"
    "strtok tok_delim p1 b1 = Some (Some n, b2, p2)" "strtok tok_delim p2 b2 = Some (Some m, b3, p3)"
    "c_str b3 n = xs" "c_str b3 m = ys" "b3 = seek_name @ [0] @ xs @ [0] @ ys @ [0] @ ?z"
    using seek_line_tokens [OF xs(1,2) ys(1,2)] by metis
  obtain r d1 where sk: "file_seekto F d ?t = Some (r, d1)" "inv d1" "log d1 = log d"
    "case target of None \<Rightarrow> r \<noteq> 0 \<and> pos d1 = pos d | Some p \<Rightarrow> r = 0 \<and> pos d1 = p"
    using seekto_ok [OF d(1,2), of ?t] by (auto simp: target_def)
  obtain d' p' where fin: "seek_and_read F (bs @ [newline] @ ?z) d ?c0 (write_back_pkt e) =
      Some (b3, d', ?c0\<lparr>conn_out := conn_out c @ ?out\<rparr>, p')" "inv d'" "log d' = log d"
  proof (cases target)
    case None
    then show ?thesis
      using that sk tok line atoi_digits [OF xs] atoi_digits [OF ys] by (simp add: seek_and_read_def)
  next
    case (Some p)
    have ple: "p \<le> length (concat (fst (log d)))"
    proof -
      let ?ns = "map length (fst (log d))"
      obtain i off where io: "i < length ?ns" "off \<le> ?ns ! i" "p = sum_list (take i ?ns) + off"
        using Some by (auto simp: target_def seek_spec_def split: if_splits)
      have "p \<le> sum_list (take (Suc i) ?ns)" using io by (simp add: take_Suc_conv_app_nth)
      also have "\<dots> \<le> sum_list ?ns"
        by (metis append_take_drop_id le_add1 sum_list_append)
      finally show ?thesis by (simp add: length_concat)
    qed
    have "pos d1 = p" "r = 0" using sk(4) Some by simp_all
    moreover obtain d' p' where "send_back F d1 ?c0 (write_back_pkt e) =
        Some (True, d', ?c0\<lparr>conn_out := conn_out ?c0 @ drop (pos d1) (concat (fst (log d1)))\<rparr>, p')"
      "inv d'" "log d' = log d1"
      using send_back_rest [OF sk(2), of ?c0 "write_back_pkt e"] sk(3) d(3) c(3) e ple \<open>pos d1 = p\<close> by auto
    ultimately show ?thesis
      using that sk tok line Some atoi_digits [OF xs] atoi_digits [OF ys] by (simp add: seek_and_read_def)
  qed
  have "take (length ioctl_cmd) (bs @ [newline] @ ?z) = ioctl_cmd" by (simp add: bs_def)
  then have h: "handle_line F \<lparr>buff = bs @ [newline] @ ?z, len = ?n, dev = d, peer = ?c0, pkt = write_back_pkt e\<rparr> =
      Some (True, \<lparr>buff = b3, len = ?n, dev = d', peer = ?c0\<lparr>conn_out := conn_out c @ ?out\<rparr>, pkt = p'\<rparr>)"
    using fin(1) by (simp add: handle_line_def)
  have lb3: "length b3 = MAX_BUF_SIZE" "newline \<notin> set (drop ?n b3)"
  proof -
    define pre where "pre = seek_name @ [0] @ xs @ [0] @ ys @ [0]"
    have "length pre = ?n" "b3 = pre @ ?z" by (simp_all add: pre_def bs_def ioctl_cmd_name tok(6))
    then show "length b3 = MAX_BUF_SIZE" "newline \<notin> set (drop ?n b3)"
      using lb by (simp_all add: newline_def)
  qed
  have "process_client_connection L F e d c =
      Some (e\<lparr>write_back_pkt := p', task_finished := 1\<rparr>, d', ?c0\<lparr>conn_out := conn_out c @ ?out\<rparr>)"
    by (rule single_line_session [OF L _ nl lb h lb3]) (simp_all add: c(1) line)
  then show ?thesis using fin(2,3) by auto
qed

end

end
