(* ===== verification/Driver_Properties.thy ===== *)
theory Driver_Properties
  imports Device_Traces
begin

text \<open>
  The properties of the char driver, over the refinement lemmas of \<open>Driver_Refinement\<close> and
  the traces of \<open>Device_Traces\<close>, with concrete instances: a module loaded on
  \<open>pool_kernel\<close> and a file on which the three bytes \<open>hi\<close> and newline have been written.
\<close>

section \<open>Sample states\<close>

definition blank_state :: kstate where
  "blank_state =
     \<lparr>kmem = Map.empty,
      user = (\<lambda>a. if a = 0 then 104 else if a = 1 then 105 else if a = 2 then 10 else 0),
      aesd_device = \<lparr>buffer = \<lparr>entry = [], in_offs = 0, out_offs = 0, full = False, cb_size = 0\<rparr>,
                     part_mem_ptr = NULL, part_buf_size = 0, buf_lock = Unlocked,
                     dev_cdev = \<lparr>cdev_owner = No_module, cdev_ops = No_fops\<rparr>\<rparr>,
      aesd_major = 0, chrdev_region = None, cdev_live = None\<rparr>"

definition loaded_state :: kstate where
  "loaded_state = snd (aesd_init_module pool_kernel blank_state)"

definition open_file :: kfile where
  "open_file = \<lparr>f_pos = 0, private_data = Dev_aesd_device\<rparr>"

definition written_state :: kstate where
  "written_state =
     (case aesd_write pool_kernel loaded_state open_file 0 3 0 of
        None \<Rightarrow> loaded_state | Some (r, s, p) \<Rightarrow> s)"

lemma loaded_state_inv: "dev_inv loaded_state" "dev_log loaded_state = ([], [])"
  "user loaded_state = user blank_state" "part_mem_ptr (aesd_device loaded_state) = NULL"
  "kmem loaded_state = Map.empty"
proof -
  have "aesd_init_module pool_kernel blank_state = (0, loaded_state)"
    by (simp add: loaded_state_def aesd_init_module_def aesd_setup_cdev_def pool_kernel_def Let_def)
  from init_module_inv [OF this refl] show "dev_inv loaded_state" "dev_log loaded_state = ([], [])"
    by simp_all
  show "user loaded_state = user blank_state" "part_mem_ptr (aesd_device loaded_state) = NULL"
    "kmem loaded_state = Map.empty"
    by (simp_all add: loaded_state_def aesd_init_module_def aesd_setup_cdev_def pool_kernel_def Let_def
        set_lock_def zero_dev_def blank_state_def)
qed

lemma hi_bytes: "uload (user blank_state) 0 3 = [104, 105, 10]"
  by (simp add: uload_def blank_state_def upt_rec numeral_eq_Suc)

lemma loaded_services_ok: "write_services_ok pool_kernel loaded_state 0 3"
  by (simp add: write_services_ok_def write_join_ok_def join_ok_def loaded_state_inv
      pool_kmalloc_at [of 0] KMALLOC_MAX_value)

lemma written_state_run:
  "aesd_write pool_kernel loaded_state open_file 0 3 0 = Some (3, written_state, 3)"
  "dev_inv written_state" "dev_log written_state = ([[104, 105, 10]], [])"
  "user written_state = user blank_state"
proof -
  have f: "private_data open_file = Dev_aesd_device" by (simp add: open_file_def)
  obtain s' where s': "aesd_write pool_kernel loaded_state open_file 0 3 0 =
      Some (3, s', 0 + (if newline \<in> set (uload (user loaded_state) 0 (unat (3 :: size_t)))
        then of_nat (length (dev_pending loaded_state @ uload (user loaded_state) 0 (unat (3 :: size_t)))) else 0))"
    "dev_inv s'" "dev_log s' = log_write (dev_log loaded_state) (uload (user loaded_state) 0 (unat (3 :: size_t)))"
    "user s' = user loaded_state"
    by (rule aesd_write_commits [OF pool_kernel_ok loaded_state_inv(1) f loaded_services_ok])
  have p: "dev_pending loaded_state = []" using loaded_state_inv(2) by (simp add: dev_log_def)
  have u: "uload (user loaded_state) 0 (unat (3 :: size_t)) = [104, 105, 10]"
    using hi_bytes loaded_state_inv(3) by simp
  have run: "aesd_write pool_kernel loaded_state open_file 0 3 0 = Some (3, s', 3)"
    using s'(1) unfolding u p by (simp add: newline_def)
  then have w: "written_state = s'" by (simp add: written_state_def)
  show "aesd_write pool_kernel loaded_state open_file 0 3 0 = Some (3, written_state, 3)"
    using run w by simp
  show "dev_inv written_state" using s'(2) w by simp
  show "dev_log written_state = ([[104, 105, 10]], [])"
    using s'(3) unfolding u w loaded_state_inv(2) by (simp add: log_write_def newline_def push_def)
  show "user written_state = user blank_state" using s'(4) w loaded_state_inv(3) by simp
qed

lemma loaded_state_eq:
  "loaded_state =
     \<lparr>kmem = Map.empty, user = user blank_state,
      aesd_device = \<lparr>buffer = \<lparr>entry = replicate 10 \<lparr>buffptr = NULL, entry_size = 0\<rparr>,
                               in_offs = 0, out_offs = 0, full = False, cb_size = 0\<rparr>,
                     part_mem_ptr = NULL, part_buf_size = 0, buf_lock = Unlocked,
                     dev_cdev = \<lparr>cdev_owner = THIS_MODULE, cdev_ops = Ptr_aesd_fops\<rparr>\<rparr>,
      aesd_major = 240, chrdev_region = Some 0xF000000, cdev_live = Some 0xF000000\<rparr>"
  by (simp add: loaded_state_def aesd_init_module_def aesd_setup_cdev_def pool_kernel_def Let_def
        set_lock_def zero_dev_def blank_state_def aesd_minor_def aesd_circular_buffer_init_def)

lemma newline_partial:
  "h a = Some bs \<Longrightarrow> newline \<in> set bs \<Longrightarrow> unat n = length bs \<Longrightarrow> is_data_partial h (Blk a) n = Some False"
  by (rule is_data_partial_correct [of h "Blk a" bs n, THEN trans]) auto

lemma no_newline_partial:
  "h a = Some bs \<Longrightarrow> bs \<noteq> [] \<Longrightarrow> newline \<notin> set bs \<Longrightarrow> unat n = length bs \<Longrightarrow>
     is_data_partial h (Blk a) n = Some True"
  by (rule is_data_partial_correct [of h "Blk a" bs n, THEN trans]) auto

lemmas run_simps = aesd_write_def write_complete_def write_partial_def merged_ptr_def
  handle_partial_data_def memcpy_def aesd_circular_buffer_add_entry_def upd_opt_def nth_opt_def
  nextPtr_def set_lock_def Let_def

lemma written_kmem: "kmem written_state = [0 \<mapsto> [104, 105, 10]]"
  by (simp add: written_state_def loaded_state_eq open_file_def run_simps hi_bytes
     pool_kmalloc_at [of 0] KMALLOC_MAX_value newline_partial [of _ _ "[104, 105, 10]"] newline_def)

section \<open>Writing\<close>

text \<open>
  C3: the write handler refines the abstract log: when the allocations, the copy from user
  memory and the lock succeed, it returns the byte count, keeps the device invariant, and
  the device's log becomes \<open>log_write\<close> of the old log and the user's bytes: without a
  newline they are appended to the pending command, with one the pending command and the
  bytes become the newest of at most ten commands.  User memory is untouched, and no kernel
  memory is lost when no command was pending.
\<close>

theorem aesd_write_refines_log:
  assumes "kernel_ok K" and "dev_inv s" and "private_data filp = Dev_aesd_device"
    and "write_services_ok K s buf count"
  shows "\<exists>s' fpos'. aesd_write K s filp buf count fpos = Some (count, s', fpos') \<and> dev_inv s' \<and>
           dev_log s' = log_write (dev_log s) (uload (user s) buf (unat count)) \<and>
           user s' = user s \<and>
           (part_mem_ptr (aesd_device s) = NULL \<longrightarrow> garbage s' = garbage s)"
  by (rule aesd_write_commits [OF assms, of fpos]) blast

theorem aesd_write_refines_log_witness:
  "\<exists>s' fpos'. aesd_write pool_kernel loaded_state open_file 0 3 0 = Some (3, s', fpos') \<and> dev_inv s' \<and>
     dev_log s' = ([[104, 105, 10]], []) \<and> garbage s' = garbage loaded_state"
proof -
  have f: "private_data open_file = Dev_aesd_device" by (simp add: open_file_def)
  have u: "uload (user loaded_state) 0 (unat (3 :: size_t)) = [104, 105, 10]"
    using hi_bytes loaded_state_inv(3) by simp
  show ?thesis
    using aesd_write_refines_log [OF pool_kernel_ok loaded_state_inv(1) f loaded_services_ok, of 0]
      loaded_state_inv(2,4)
    unfolding u by (auto simp: log_write_def newline_def push_def)
qed

text \<open>
  C18: a write that cannot allocate its buffer returns \<^verbatim>\<open>-ENOMEM\<close> and changes nothing; a write
  whose lock is interrupted returns 0 and leaves the log, the invariant and user memory as
  they were.
\<close>

theorem aesd_write_failures_keep_log:
  assumes "kernel_ok K" and "dev_inv s" and "private_data filp = Dev_aesd_device"
  shows "(fst (kmalloc K (kmem s) count) = NULL \<longrightarrow>
            aesd_write K s filp buf count fpos = Some (- of_nat ENOMEM, s, fpos)) \<and>
         (fst (kmalloc K (kmem s) count) \<noteq> NULL \<and> fst (mutex_lock_interruptible K Unlocked) \<noteq> 0 \<longrightarrow>
            (\<exists>s'. aesd_write K s filp buf count fpos = Some (0, s', fpos) \<and> dev_inv s' \<and>
                  dev_log s' = dev_log s \<and> user s' = user s))"
proof (intro conjI impI)
  show "aesd_write K s filp buf count fpos = Some (- of_nat ENOMEM, s, fpos)"
    if "fst (kmalloc K (kmem s) count) = NULL"
    by (rule aesd_write_nomem [OF assms(1) that])
  show "\<exists>s'. aesd_write K s filp buf count fpos = Some (0, s', fpos) \<and> dev_inv s' \<and>
      dev_log s' = dev_log s \<and> user s' = user s"
    if "fst (kmalloc K (kmem s) count) \<noteq> NULL \<and> fst (mutex_lock_interruptible K Unlocked) \<noteq> 0"
  proof -
    from that have a: "fst (kmalloc K (kmem s) count) \<noteq> NULL"
      and l: "fst (mutex_lock_interruptible K Unlocked) \<noteq> 0" by auto
    show ?thesis by (rule aesd_write_interrupted [OF assms a l, of buf fpos]) blast
  qed
qed

text \<open>A kernel on which every lock is interrupted by a signal.\<close>

definition signal_kernel :: kernel where
  "signal_kernel = pool_kernel\<lparr>mutex_lock_interruptible := (\<lambda>m. (- of_nat EINTR, m))\<rparr>"

lemma signal_kernel_ok: "kernel_ok signal_kernel"
  using pool_kernel_ok
  by (simp add: kernel_ok_def signal_kernel_def kmalloc_ok_def kfree_ok_def uaccess_ok_def mutex_ok_def
      llseek_ok_def)

theorem aesd_write_failures_keep_log_witness:
  "\<exists>s'. aesd_write signal_kernel written_state open_file 0 3 0 = Some (0, s', 0) \<and> dev_inv s' \<and>
        dev_log s' = ([[104, 105, 10]], [])"
proof -
  have f: "private_data open_file = Dev_aesd_device" by (simp add: open_file_def)
  have "fst (kmalloc signal_kernel (kmem written_state) 3) \<noteq> NULL"
    by (simp add: signal_kernel_def written_kmem pool_kmalloc_at [of 1] KMALLOC_MAX_value)
  moreover have "fst (mutex_lock_interruptible signal_kernel Unlocked) \<noteq> 0"
    by (simp add: signal_kernel_def)
  ultimately show ?thesis
    using aesd_write_failures_keep_log [OF signal_kernel_ok written_state_run(2) f, of 3 0 0]
      written_state_run(3) by auto
qed

section \<open>Reading\<close>

text \<open>No signal interrupts a lock and every user address is accessible.\<close>

definition undisturbed :: "kernel \<Rightarrow> bool" where
  "undisturbed K \<longleftrightarrow>
     fst (mutex_lock_interruptible K Unlocked) = 0 \<and>
     (\<forall>um a bs. fst (copy_to_user K um a bs) = 0) \<and> (\<forall>um a n. fst (copy_from_user K um a n) = 0)"

lemma pool_undisturbed: "undisturbed pool_kernel"
  by (simp add: undisturbed_def)

lemma aesd_read_cases:
  assumes K: "kernel_ok K" "undisturbed K" and inv: "dev_inv s"
    and f: "private_data filp = Dev_aesd_device" and pos: "unat fpos < 2 ^ 31"
  shows "aesd_read K s filp buf count fpos =
     Some (case locate (map length (dev_cmds s)) (unat fpos) of
             None \<Rightarrow> (0, s, fpos)
           | Some (j, off) \<Rightarrow>
               let data = drop off (dev_cmds s ! j)
               in (of_nat (length data), s\<lparr>user := ustore (user s) buf data\<rparr>, fpos + of_nat (length data)))"
proof -
  have lock: "fst (mutex_lock_interruptible K Unlocked) = 0" using K(2) by (simp add: undisturbed_def)
  show ?thesis
  proof (cases "locate (map length (dev_cmds s)) (unat fpos)")
    case None
    then have "aesd_circular_buffer_find_entry_offset_for_fpos (Some (buffer (aesd_device s))) fpos = Some None"
      using find_correct [OF dev_invD(1) [OF inv] pos] dev_cmds_lengths [OF inv] by simp
    from aesd_read_end [OF K(1) inv f lock this] None show ?thesis by simp
  next
    case (Some r)
    then obtain j off where r: "locate (map length (dev_cmds s)) (unat fpos) = Some (j, off)"
      by (cases r) auto
    have "fst (copy_to_user K (user s) buf (drop off (dev_cmds s ! j))) = 0"
      using K(2) by (simp add: undisturbed_def)
    from aesd_read_locate [OF K(1) inv f lock pos r this] r show ?thesis by (simp add: Let_def)
  qed
qed


lemma written_facts: "private_data open_file = Dev_aesd_device" "dev_cmds written_state = [[104, 105, 10]]"
  "dev_pending written_state = []" "log_size written_state = 3"
  using written_state_run(3) by (simp_all add: open_file_def dev_log_def log_size_def)


text \<open>
  A read does not respect the size the caller asked for: it returns more than
  \<^verbatim>\<open>count\<close> bytes, and writes them to user memory, when the rest of the command is longer.
\<close>

theorem aesd_read_exceeds_count:
  "\<exists>s'. aesd_read pool_kernel written_state open_file 100 1 0 = Some (3, s', 3) \<and>
        uload (user s') 100 3 = [104, 105, 10] \<and> user s' 102 \<noteq> user written_state 102"
proof -
  have "aesd_read pool_kernel written_state open_file 100 1 0 =
      Some (3, written_state\<lparr>user := ustore (user written_state) 100 [104, 105, 10]\<rparr>, 3)"
    using aesd_read_cases [OF pool_kernel_ok pool_undisturbed written_state_run(2) written_facts(1),
        of 0 100 1] by (simp add: written_facts Let_def)
  moreover have "uload (ustore (user written_state) 100 [104, 105, 10]) 100 3 = [104, 105, 10]"
    using uload_ustore [of "[104, 105, 10]" "user written_state" 100] by (simp add: numeral_3_eq_3)
  moreover have "ustore (user written_state) 100 [104, 105, 10] 102 \<noteq> user written_state 102"
    by (simp add: ustore_def written_state_run(4) blank_state_def)
  ultimately show ?thesis by simp
qed

text \<open>
  Reading a file to its end, the way \<^verbatim>\<open>cat\<close> does: reads of \<open>n\<close> bytes into \<open>buf\<close> until one
  returns 0 or a negative value; \<open>None\<close> when the fuel does not suffice or a call faults.
\<close>

fun read_stream ::
  "kernel \<Rightarrow> nat \<Rightarrow> kstate \<Rightarrow> kfile \<Rightarrow> uaddr \<Rightarrow> size_t \<Rightarrow> (byte list \<times> kstate \<times> kfile) option" where
  "read_stream K 0 s f buf n = None"
| "read_stream K (Suc fuel) s f buf n =
     do {
       (r, s', f') \<leftarrow> vfs_call K (Sys_read buf n) s f;
       if sint r \<le> 0 then Some ([], s', f')
       else do {
         (rest, s'', f'') \<leftarrow> read_stream K fuel s' f' buf n;
         Some (uload (user s') buf (unat r) @ rest, s'', f'')
       }
     }"

lemma dev_cmds_update_user [simp]: "dev_cmds (s\<lparr>user := um\<rparr>) = dev_cmds s"
  by (simp add: dev_cmds_def)

lemma log_size_update_user [simp]: "log_size (s\<lparr>user := um\<rparr>) = log_size s"
  by (simp add: log_size_def)

lemma cmd_length_bound:
  assumes "dev_inv s" and "j < length (dev_cmds s)"
  shows "0 < length (dev_cmds s ! j)" and "length (dev_cmds s ! j) \<le> KMALLOC_MAX_SIZE"
proof -
  let ?es = "entries (buffer (aesd_device s))"
  have j: "j < length ?es" using assms(2) by (simp add: dev_cmds_def entry_ptrs_def)
  then have "entry_ok (kmem s) (?es ! j)" using dev_invD(5) [OF assms(1)] nth_mem by blast
  then show "0 < length (dev_cmds s ! j)" "length (dev_cmds s ! j) \<le> KMALLOC_MAX_SIZE"
    using j by (auto simp: entry_ok_def dev_cmds_def entry_ptrs_def)
qed

lemma drop_after_command:
  assumes "locate (map length css) p = Some (j, off)"
  shows "drop (p + length (drop off (css ! j))) (concat css) = concat (drop (Suc j) css)"
    and "p + length (drop off (css ! j)) = length (concat (take (Suc j) css))"
proof -
  have d: "drop p (concat css) = drop off (css ! j) @ concat (drop (Suc j) css)"
    by (rule drop_concat_locate [OF assms])
  have "drop (length (drop off (css ! j))) (drop p (concat css)) = concat (drop (Suc j) css)"
    unfolding d by simp
  then show "drop (p + length (drop off (css ! j))) (concat css) = concat (drop (Suc j) css)"
    by (simp add: add.commute)
  have "j < length css" "off < length (css ! j)" "p = sum_list (take j (map length css)) + off"
    using locate_SomeD [OF assms] by auto
  then show "p + length (drop off (css ! j)) = length (concat (take (Suc j) css))"
    by (simp add: take_Suc_conv_app_nth length_concat take_map)
qed

lemma locate_boundary:
  assumes "i < length css" and "css ! i \<noteq> []"
  shows "locate (map length css) (length (concat (take i css))) = Some (i, 0)"
  using locate_SomeI [of i "map length css" 0] assms by (simp add: length_concat take_map)

lemma length_concat_take_le: "length (concat (take i css)) \<le> length (concat css)"
  by (metis append_take_drop_id concat_append le_add1 length_append)

text \<open>From a command boundary, one read per remaining command and one more.\<close>

lemma read_stream_boundary:
  assumes K: "kernel_ok K" "undisturbed K" and inv: "dev_inv s"
    and f: "private_data f = Dev_aesd_device"
    and pos: "unat (f_pos f) = length (concat (take i (dev_cmds s)))"
    and i: "i \<le> length (dev_cmds s)" and fuel: "length (dev_cmds s) - i < fuel"
  shows "\<exists>um. read_stream K fuel s f buf n =
           Some (concat (drop i (dev_cmds s)), s\<lparr>user := um\<rparr>, f\<lparr>f_pos := of_nat (log_size s)\<rparr>)"
  using inv f pos i fuel
proof (induction fuel arbitrary: s f i)
  case 0
  then show ?case by simp
next
  case (Suc fuel)
  let ?p = "f_pos f" and ?css = "dev_cmds s"
  have total: "log_size s < 2 ^ 31" by (rule log_size_cb_size [OF Suc.prems(1)])
  have le: "unat ?p \<le> log_size s"
    using Suc.prems(3) length_concat_take_le [of i ?css] by (simp add: log_size_def)
  then have pos31: "unat ?p < 2 ^ 31" using total by simp
  note run = aesd_read_cases [OF K Suc.prems(1,2) pos31, of buf n]
  show ?case
  proof (cases "i < length ?css")
    case False
    then have il: "i = length ?css" using Suc.prems(4) by simp
    then have up: "unat ?p = log_size s" using Suc.prems(3) by (simp add: log_size_def)
    then have "locate (map length ?css) (unat ?p) = None"
      by (simp add: locate_None_iff log_size_def length_concat)
    then have r: "aesd_read K s f buf n ?p = Some (0, s, ?p)" using run by simp
    have "?p = of_nat (log_size s)" using up by (simp flip: up)
    then show ?thesis using r il
      by (intro exI [of _ "user s"]) (simp add: aesd_fops_def)
  next
    case True
    let ?d = "?css ! i"
    have lb: "0 < length ?d" "length ?d \<le> KMALLOC_MAX_SIZE"
      using cmd_length_bound [OF Suc.prems(1) True] by auto
    have loc: "locate (map length ?css) (unat ?p) = Some (i, 0)"
      using locate_boundary [OF True] lb Suc.prems(3) by auto
    define s' where "s' = s\<lparr>user := ustore (user s) buf ?d\<rparr>"
    define f' where "f' = f\<lparr>f_pos := ?p + of_nat (length ?d)\<rparr>"
    have call: "vfs_call K (Sys_read buf n) s f = Some (of_nat (length ?d), s', f')"
      using run loc by (simp add: aesd_fops_def s'_def f'_def Let_def)
    have ud: "unat (of_nat (length ?d) :: size_t) = length ?d"
      using lb by (intro unat_of_nat_size) (simp add: KMALLOC_MAX_value)
    have sp: "\<not> sint (of_nat (length ?d) :: size_t) \<le> 0"
      using sint_size_nonneg(2) [of "of_nat (length ?d)"] lb ud by (simp add: KMALLOC_MAX_value)
    have nxt: "unat ?p + length ?d = length (concat (take (Suc i) ?css))"
      using drop_after_command(2) [OF loc] by simp
    have "length (concat (take (Suc i) ?css)) \<le> log_size s"
      unfolding log_size_def by (rule length_concat_take_le)
    then have "unat ?p + length ?d < 2 ^ 64" using nxt total by simp
    then have up: "unat (?p + of_nat (length ?d)) = unat ?p + length ?d"
      by (subst unat_add_lem [THEN iffD1]) (simp_all add: ud)
    have prem: "dev_inv s'" "private_data f' = Dev_aesd_device"
      "unat (f_pos f') = length (concat (take (Suc i) (dev_cmds s')))"
      "Suc i \<le> length (dev_cmds s')" "length (dev_cmds s') - Suc i < fuel"
      using Suc.prems True up nxt by (simp_all add: s'_def f'_def dev_inv_update_user)
    have data: "uload (user s') buf (length ?d) = ?d"
      using lb by (simp add: s'_def uload_ustore KMALLOC_MAX_value)
    have cc: "concat (drop i ?css) = ?d @ concat (drop (Suc i) ?css)"
      using True by (metis Cons_nth_drop_Suc concat.simps(2))
    show ?thesis
      using Suc.IH [OF prem] call sp data ud by (auto simp: cc) (auto simp: s'_def f'_def)
  qed
qed

text \<open>
  C5: opening the device and reading it to the end, as \<^verbatim>\<open>cat\<close> does, takes one read per
  stored command and one more, and yields exactly the concatenation of the stored commands;
  the device is unchanged and the position is left at the end of the log.
\<close>

theorem cat_returns_whole_log:
  assumes "kernel_ok K" and "undisturbed K" and "dev_inv s"
    and "aesd_open Dev_aesd_device \<lparr>f_pos = 0, private_data = Dev_NULL\<rparr> = (0, f)"
    and "length (dev_cmds s) < fuel"
  shows "\<exists>um. read_stream K fuel s f buf n =
           Some (concat (dev_cmds s), s\<lparr>user := um\<rparr>, f\<lparr>f_pos := of_nat (log_size s)\<rparr>)"
proof -
  have f: "private_data f = Dev_aesd_device" "unat (f_pos f) = length (concat (take 0 (dev_cmds s)))"
    using assms(4) by (auto simp: aesd_open_def)
  show ?thesis using read_stream_boundary [OF assms(1-3) f, of fuel buf n] assms(5) by simp
qed

theorem cat_returns_whole_log_witness:
  "\<exists>um. read_stream pool_kernel 2 written_state open_file 100 1024 =
     Some ([104, 105, 10], written_state\<lparr>user := um\<rparr>, open_file\<lparr>f_pos := 3\<rparr>)"
proof -
  have "aesd_open Dev_aesd_device \<lparr>f_pos = 0, private_data = Dev_NULL\<rparr> = (0, open_file)"
    by (simp add: aesd_open_def open_file_def)
  from cat_returns_whole_log [OF pool_kernel_ok pool_undisturbed written_state_run(2) this, of 2 100 1024]
  show ?thesis by (simp add: written_facts)
qed

section \<open>Seeking\<close>

text \<open>
  C16: the seek command followed by a read returns the addressed command from the given
  offset on: for an existing command and an offset inside it, \<^verbatim>\<open>AESDCHAR_IOCSEEKTO\<close> returns 0
  and the read at the position it sets delivers the rest of that command.
\<close>

theorem seekto_then_read:
  assumes "kernel_ok K" and "undisturbed K" and "dev_inv s"
    and "private_data f = Dev_aesd_device"
    and "seekto_of_bytes (uload (user s) arg 8) = \<lparr>write_cmd = c, write_cmd_offset = off\<rparr>"
    and "unat c < length (dev_cmds s)" and "unat off < length (dev_cmds s ! unat c)"
  shows "\<exists>f'. aesd_ioctl K s f (AESDCHAR_IOCSEEKTO K) arg = Some (0, s, f') \<and>
           aesd_read K s f' buf n (f_pos f') =
             Some (of_nat (length (dev_cmds s ! unat c) - unat off),
                   s\<lparr>user := ustore (user s) buf (drop (unat off) (dev_cmds s ! unat c))\<rparr>,
                   of_nat (length (concat (take (Suc (unat c)) (dev_cmds s)))))"
proof -
  let ?css = "dev_cmds s" and ?c = "unat c" and ?o = "unat off"
  have lock: "fst (mutex_lock_interruptible K Unlocked) = 0"
    using assms(2) by (simp add: undisturbed_def)
  have "fst (copy_from_user K (user s) arg 8) = 0" using assms(2) by (simp add: undisturbed_def)
  then have copy: "copy_from_user K (user s) arg 8 = (0, uload (user s) arg 8)"
    using copy_from_user_all [OF kernel_okD(3) [OF assms(1)], of "user s" arg 8]
    by (cases "copy_from_user K (user s) arg 8") simp
  have ne: "?css \<noteq> []" using assms(6) by auto
  let ?p = "sum_list (take ?c (map length ?css)) + ?o"
  have io: "aesd_ioctl K s f (AESDCHAR_IOCSEEKTO K) arg = Some (0, s, f\<lparr>f_pos := of_nat ?p\<rparr>)"
    using aesd_ioctl_seeks [OF assms(1,3,4) lock copy ne] assms(5-7) by (simp add: seek_spec_def)
  have loc: "locate (map length ?css) ?p = Some (?c, ?o)"
    using assms(6,7) by (intro locate_SomeI) simp_all
  have nxt: "?p + length (drop ?o (?css ! ?c)) = length (concat (take (Suc ?c) ?css))"
    by (rule drop_after_command(2) [OF loc])
  then have p31: "?p < 2 ^ 31"
    using length_concat_take_le [of "Suc ?c" ?css] log_size_cb_size(2) [OF assms(3)]
    by (simp add: log_size_def)
  then have up: "unat (of_nat ?p :: loff_t) = ?p" by (intro unat_of_nat_size) simp
  have f': "private_data (f\<lparr>f_pos := of_nat ?p\<rparr>) = Dev_aesd_device" using assms(4) by simp
  have pos: "unat (of_nat ?p :: loff_t) < 2 ^ 31" unfolding up by (rule p31)
  have rd: "aesd_read K s (f\<lparr>f_pos := of_nat ?p\<rparr>) buf n (of_nat ?p) =
      Some (of_nat (length (drop ?o (?css ! ?c))), s\<lparr>user := ustore (user s) buf (drop ?o (?css ! ?c))\<rparr>,
            of_nat (?p + length (drop ?o (?css ! ?c))))"
    using aesd_read_cases [OF assms(1-3) f' pos, of buf n] unfolding up loc by (simp add: Let_def)
  show ?thesis using io rd unfolding nxt by (intro exI [of _ "f\<lparr>f_pos := of_nat ?p\<rparr>"]) simp
qed

theorem seekto_then_read_witness:
  "\<exists>f'. aesd_ioctl pool_kernel written_state open_file (AESDCHAR_IOCSEEKTO pool_kernel) 200 =
          Some (0, written_state, f') \<and>
        aesd_read pool_kernel written_state f' 100 1 (f_pos f') =
          Some (3, written_state\<lparr>user := ustore (user written_state) 100 [104, 105, 10]\<rparr>, 3)"
proof -
  have "[0..<8] = [0, 1, 2, 3, 4, 5, 6, 7 :: nat]" by (simp add: upt_rec)
  then have "uload (user written_state) 200 8 = [0, 0, 0, 0, 0, 0, 0, 0]"
    by (simp add: uload_def written_state_run(4) blank_state_def)
  then have t: "seekto_of_bytes (uload (user written_state) 200 8) =
      \<lparr>write_cmd = 0, write_cmd_offset = 0\<rparr>"
    by (simp add: seekto_of_bytes_def le32_def)
  show ?thesis
    using seekto_then_read [OF pool_kernel_ok pool_undisturbed written_state_run(2) written_facts(1) t]
    by (simp add: written_facts)
qed





section \<open>Memory of the write path\<close>

text \<open>
  C22: a successful write of at least one byte while a command is pending loses memory: the
  block the data was staged in stays allocated and nothing refers to it, because
  \<^verbatim>\<open>handle_partial_data\<close> copies it into the joined buffer and frees only the old partial
  buffer.  Exactly one block is lost per such write.
\<close>

theorem aesd_write_leaks_staging_buffer:
  assumes K: "kernel_ok K" and inv: "dev_inv s" and f: "private_data filp = Dev_aesd_device"
    and ok: "write_services_ok K s buf count" and pend: "part_mem_ptr (aesd_device s) \<noteq> NULL"
    and pos: "0 < count"
  shows "\<exists>s' fpos' a. aesd_write K s filp buf count fpos = Some (count, s', fpos') \<and>
           a \<notin> garbage s \<and> garbage s' = insert a (garbage s)"
proof -
  have svc: "fst (kmalloc K (kmem s) count) \<noteq> NULL" "fst (mutex_lock_interruptible K Unlocked) = 0"
    "write_join_ok K s buf count"
    using ok by (auto simp: write_services_ok_def)
  obtain p h bs where st: "staged s h p bs" "unat count = length bs"
    and run: "aesd_write K s filp buf count fpos =
      (if newline \<in> set bs then write_complete K s Dev_aesd_device h p count fpos
       else write_partial K s Dev_aesd_device h p count fpos)"
    and j: "write_join_ok K s buf count = join_ok K s h count"
    using aesd_write_staged [OF K inv svc(1), of filp buf fpos] f by metis
  have ne: "bs \<noteq> []" using pos st(2) by (auto simp: word_less_nat_alt)
  have alloc: "fst (kmalloc K h (of_nat (length (dev_pending s) + length bs))) \<noteq> NULL"
    using svc(3) j pend st(2) by (auto simp: join_ok_def)
  obtain a where a: "p = Blk a" "kmem s a = None"
    using st(1) ne by (cases p) (auto simp: staged_def)
  obtain s' fpos' where "aesd_write K s filp buf count fpos = Some (count, s', fpos')"
    "garbage s' = garbage s \<union> set (blocks_of p)"
  proof (cases "newline \<in> set bs")
    case True
    then show ?thesis
      using write_complete_correct [OF K inv st(1,2) ne svc(2), of fpos] alloc pend run that by auto
  next
    case False
    then show ?thesis
      using write_partial_correct [OF K inv st(1,2) svc(2), of fpos] alloc pend run that by auto
  qed
  moreover have "a \<notin> garbage s" using a(2) by (auto simp: garbage_def)
  ultimately show ?thesis using a(1) by (intro exI [of _ s'] exI [of _ fpos'] exI [of _ a]) auto
qed

text \<open>The state after the two bytes \<open>hi\<close> were written, without a newline.\<close>

definition pending_state :: kstate where
  "pending_state = loaded_state
     \<lparr>kmem := [0 \<mapsto> [104, 105]],
      aesd_device := (aesd_device loaded_state)\<lparr>part_mem_ptr := Blk 0, part_buf_size := 2\<rparr>\<rparr>"

lemma pending_state_run: "aesd_write pool_kernel loaded_state open_file 0 2 0 = Some (2, pending_state, 0)"
proof -
  have u: "uload (user blank_state) 0 2 = [104, 105]"
    by (simp add: uload_def blank_state_def upt_rec numeral_eq_Suc)
  show ?thesis
    by (simp add: pending_state_def loaded_state_eq open_file_def run_simps u pool_kmalloc_at [of 0]
        KMALLOC_MAX_value no_newline_partial [of _ _ "[104, 105]"] newline_def)
qed

lemma pending_state_inv: "dev_inv pending_state" "dev_log pending_state = ([], [104, 105])"
  "part_mem_ptr (aesd_device pending_state) = Blk 0" "kmem pending_state = [0 \<mapsto> [104, 105]]"
  "user pending_state = user blank_state" "dev_pending pending_state = [104, 105]"
proof -
  have "write_services_ok pool_kernel loaded_state 0 2"
    by (simp add: write_services_ok_def write_join_ok_def join_ok_def loaded_state_inv
        pool_kmalloc_at [of 0] KMALLOC_MAX_value)
  from aesd_write_commits [OF pool_kernel_ok loaded_state_inv(1) written_facts(1) this, of 0]
  show "dev_inv pending_state" using pending_state_run by auto
  have u: "uload (user blank_state) 0 2 = [104, 105]"
    by (simp add: uload_def blank_state_def upt_rec numeral_eq_Suc)
  show "part_mem_ptr (aesd_device pending_state) = Blk 0" "kmem pending_state = [0 \<mapsto> [104, 105]]"
    "user pending_state = user blank_state" "dev_pending pending_state = [104, 105]"
    by (simp_all add: pending_state_def loaded_state_eq dev_pending_def)
  have "dev_cmds pending_state = dev_cmds loaded_state"
    using loaded_state_inv(2) by (simp add: pending_state_def dev_cmds_def entry_ptrs_def dev_log_def)
  then show "dev_log pending_state = ([], [104, 105])"
    using loaded_state_inv(2) \<open>dev_pending pending_state = _\<close> by (simp add: dev_log_def)
qed

lemma pool_kmalloc_succeeds:
  assumes "h a = None" and "a < 64" and "unat n \<le> KMALLOC_MAX_SIZE"
  shows "fst (pool_kmalloc h n) \<noteq> NULL"
proof -
  have "find (\<lambda>a. h a = None) [0..<64] \<noteq> None" using assms(1,2) by (auto simp: find_None_iff)
  then show ?thesis using assms(3) by (auto simp: pool_kmalloc_def)
qed

theorem aesd_write_leaks_staging_buffer_witness:
  "\<exists>s' fpos' a. aesd_write pool_kernel pending_state open_file 2 1 0 = Some (1, s', fpos') \<and>
     a \<notin> garbage pending_state \<and> garbage s' = insert a (garbage pending_state)"
proof -
  have "fst (pool_kmalloc [0 \<mapsto> [104, 105], 1 \<mapsto> bs] 3) \<noteq> NULL" for bs
    by (rule pool_kmalloc_succeeds [where a = 2]) (simp_all add: KMALLOC_MAX_value)
  then have "write_services_ok pool_kernel pending_state 2 1"
    by (simp add: write_services_ok_def write_join_ok_def join_ok_def pending_state_inv
        pool_kmalloc_at [of 1] KMALLOC_MAX_value)
  from aesd_write_leaks_staging_buffer [OF pool_kernel_ok pending_state_inv(1) written_facts(1) this, of 0]
  show ?thesis by (simp add: pending_state_inv)
qed

text \<open>
  When the joined buffer of a write without newline cannot be allocated, the write still
  reports success: it returns the byte count, the pending command is gone, and the size field
  keeps counting bytes that no buffer holds, so the device invariant is broken.
\<close>

theorem aesd_write_join_failure_loses_pending:
  assumes K: "kernel_ok K" and inv: "dev_inv s" and f: "private_data filp = Dev_aesd_device"
    and alloc: "fst (kmalloc K (kmem s) count) \<noteq> NULL" and copy: "fst (copy_from_user K (user s) buf count) = 0"
    and lock: "fst (mutex_lock_interruptible K Unlocked) = 0"
    and nl: "newline \<notin> set (uload (user s) buf (unat count))"
    and pend: "part_mem_ptr (aesd_device s) \<noteq> NULL" and ne: "dev_pending s \<noteq> []"
    and fail: "\<not> write_join_ok K s buf count"
  shows "\<exists>s'. aesd_write K s filp buf count fpos = Some (count, s', fpos) \<and> dev_pending s' = [] \<and>
           unat (part_buf_size (aesd_device s')) = length (dev_pending s) + unat count \<and> \<not> dev_inv s'"
proof -
  obtain p h bs where st: "staged s h p bs" "unat count = length bs"
    and run: "aesd_write K s filp buf count fpos =
      (if newline \<in> set bs then write_complete K s Dev_aesd_device h p count fpos
       else write_partial K s Dev_aesd_device h p count fpos)"
    and bs: "bs = uload (user s) buf (unat count)" and j: "write_join_ok K s buf count = join_ok K s h count"
    using aesd_write_staged [OF K inv alloc, of filp buf fpos] f copy by metis
  let ?d = "aesd_device s" and ?m = "length (dev_pending s)" and ?n = "unat count"
  have sz: "unat (part_buf_size ?d) = ?m" "?m + ?n < 2 ^ 31"
    using dev_invD(6,7) [OF inv] st by (auto simp: staged_def KMALLOC_MAX_value)
  have null: "fst (kmalloc K h (of_nat (?m + ?n))) = NULL" using fail j by (simp add: join_ok_def)
  note join = handle_partial_data_fail [OF K pend sz(1) refl sz(2) null]
  note size = new_size_word(1) [OF sz(1) refl sz(2)]
  define s' where "s' = s\<lparr>kmem := h, aesd_device := ?d\<lparr>part_mem_ptr := NULL,
      part_buf_size := size_to_int (int_to_size (part_buf_size ?d) + count), buf_lock := Unlocked\<rparr>\<rparr>"
  have "write_partial K s Dev_aesd_device h p count fpos = Some (count, s', fpos)"
    using join lock_taken [OF K lock] mutex_unlock_ok [OF kernel_okD(4) [OF K]] dev_invD(8) [OF inv]
    by (simp add: write_partial_def s'_def)
  then have "aesd_write K s filp buf count fpos = Some (count, s', fpos)" using run nl bs by simp
  moreover have p': "dev_pending s' = []" by (simp add: s'_def dev_pending_def)
  moreover have sz': "unat (part_buf_size (aesd_device s')) = ?m + ?n" using size by (simp add: s'_def)
  moreover have "\<not> dev_inv s'" using dev_invD(6) [of s'] p' sz' ne by auto
  ultimately show ?thesis by blast
qed

text \<open>A kernel short of memory: no allocation of more than two bytes succeeds.\<close>

definition tight_kernel :: kernel where
  "tight_kernel = pool_kernel\<lparr>kmalloc := (\<lambda>h n. if 2 < n then (NULL, h) else pool_kmalloc h n)\<rparr>"

lemma tight_kernel_ok: "kernel_ok tight_kernel"
proof -
  have "kmalloc_ok tight_kernel"
    using pool_kmalloc_ok by (auto simp: tight_kernel_def kmalloc_ok_def split: if_splits)
  then show ?thesis
    using pool_kernel_ok
    by (simp add: kernel_ok_def tight_kernel_def kfree_ok_def uaccess_ok_def mutex_ok_def llseek_ok_def)
qed

theorem aesd_write_join_failure_loses_pending_witness:
  "\<exists>s'. aesd_write tight_kernel pending_state open_file 0 1 0 = Some (1, s', 0) \<and>
        dev_pending pending_state = [104, 105] \<and> dev_pending s' = [] \<and>
        unat (part_buf_size (aesd_device s')) = 3 \<and> \<not> dev_inv s'"
proof -
  have km: "kmalloc tight_kernel (kmem pending_state) 1 = (Blk 1, [0 \<mapsto> [104, 105], 1 \<mapsto> [0]])"
    by (simp add: tight_kernel_def pending_state_inv pool_kmalloc_at [of 1] KMALLOC_MAX_value)
  have cp: "copy_from_user tight_kernel (user pending_state) 0 1 = (0, uload (user blank_state) 0 1)"
    and lk: "fst (mutex_lock_interruptible tight_kernel Unlocked) = 0"
    by (simp_all add: tight_kernel_def pending_state_inv)
  have fail: "\<not> write_join_ok tight_kernel pending_state 0 1"
    unfolding write_join_ok_def km cp by (simp add: join_ok_def pending_state_inv tight_kernel_def)
  have nl: "newline \<notin> set (uload (user pending_state) 0 (unat (1 :: size_t)))"
    by (simp add: uload_def pending_state_inv blank_state_def newline_def)
  have "fst (kmalloc tight_kernel (kmem pending_state) 1) \<noteq> NULL"
    "fst (copy_from_user tight_kernel (user pending_state) 0 1) = 0"
    unfolding km cp by simp_all
  from aesd_write_join_failure_loses_pending
    [OF tight_kernel_ok pending_state_inv(1) written_facts(1) this lk nl _ _ fail, of 0]
  show ?thesis by (simp add: pending_state_inv numeral_3_eq_3)
qed

section \<open>Any sequence of calls\<close>


lemma written_reach: "dev_reach (written_state, [0 \<mapsto> open_file\<lparr>f_pos := 3\<rparr>]) [[104, 105, 10]]"
proof -
  have "aesd_init_module pool_kernel blank_state = (0, loaded_state)"
    by (simp add: loaded_state_def aesd_init_module_def aesd_setup_cdev_def pool_kernel_def Let_def)
  then have load: "dev_reach (loaded_state, Map.empty) []" by (rule reach_load)
  have "dev_step (loaded_state, Map.empty) [] (loaded_state, [0 \<mapsto> open_file])"
    by (rule step_open) (simp_all add: aesd_open_def open_file_def)
  from reach_step [OF load this] have opened: "dev_reach (loaded_state, [0 \<mapsto> open_file]) []" by simp
  have call: "vfs_call pool_kernel (Sys_write 0 3) loaded_state open_file =
      Some (3, written_state, open_file\<lparr>f_pos := 3\<rparr>)"
    using written_state_run(1) by (simp add: aesd_fops_def open_file_def)
  have ok: "call_ok pool_kernel (Sys_write 0 3) loaded_state"
    using loaded_services_ok by (simp add: write_services_ok_def)
  have "dev_step (loaded_state, [0 \<mapsto> open_file]) (stored (Sys_write 0 3) loaded_state 3)
      (written_state, [0 \<mapsto> open_file, 0 \<mapsto> open_file\<lparr>f_pos := 3\<rparr>])"
    by (rule step_call [OF _ pool_kernel_ok ok call]) simp
  from reach_step [OF opened this] show ?thesis
    using hi_bytes loaded_state_inv(3) by simp
qed




section \<open>Loading and unloading the module\<close>

text \<open>
  C20: loading the module either succeeds, and then the device is registered under an
  allocated region, its operations are the driver's and its log is empty and well formed; or
  it fails, and then no region and no device stay registered.
\<close>

theorem aesd_init_module_all_or_nothing:
  assumes "aesd_init_module K s = (r, s')" and "chrdev_region s = None" and "cdev_live s = None"
  shows "(r = 0 \<longrightarrow> dev_inv s' \<and> dev_log s' = ([], []) \<and> chrdev_region s' \<noteq> None \<and>
            cdev_live s' = Some (MKDEV K (aesd_major s') aesd_minor) \<and>
            dev_cdev (aesd_device s') = \<lparr>cdev_owner = THIS_MODULE, cdev_ops = Ptr_aesd_fops\<rparr>) \<and>
         (r \<noteq> 0 \<longrightarrow> chrdev_region s' = None \<and> cdev_live s' = None) \<and> kmem s' = kmem s"
proof (intro conjI impI)
  note unf = aesd_init_module_def aesd_setup_cdev_def unregister_chrdev_region_def set_lock_def Let_def
  show "dev_inv s'" "dev_log s' = ([], [])"
    "dev_cdev (aesd_device s') = \<lparr>cdev_owner = THIS_MODULE, cdev_ops = Ptr_aesd_fops\<rparr>" if "r = 0"
    using init_module_inv [OF assms(1) that] by simp_all
  show "chrdev_region s' \<noteq> None" "cdev_live s' = Some (MKDEV K (aesd_major s') aesd_minor)" if "r = 0"
    using assms that by (auto simp: unf split: if_splits prod.splits)
  show "chrdev_region s' = None" "cdev_live s' = None" if "r \<noteq> 0"
    using assms that by (auto simp: unf split: if_splits prod.splits)
  show "kmem s' = kmem s"
    using assms(1) by (auto simp: unf split: if_splits prod.splits)
qed

text \<open>A kernel on which registering the character device fails.\<close>

definition full_kernel :: kernel where
  "full_kernel = pool_kernel\<lparr>cdev_add := (\<lambda>devno. - of_nat ENOMEM)\<rparr>"

theorem aesd_init_module_all_or_nothing_witness:
  "dev_inv (snd (aesd_init_module pool_kernel blank_state)) \<and>
   chrdev_region (snd (aesd_init_module full_kernel blank_state)) = None"
proof
  have "fst (aesd_init_module pool_kernel blank_state) = 0"
    by (simp add: aesd_init_module_def aesd_setup_cdev_def pool_kernel_def Let_def)
  then show "dev_inv (snd (aesd_init_module pool_kernel blank_state))"
    using aesd_init_module_all_or_nothing [of pool_kernel blank_state]
    by (cases "aesd_init_module pool_kernel blank_state") (simp add: blank_state_def)
  have "fst (aesd_init_module full_kernel blank_state) \<noteq> 0"
    by (simp add: aesd_init_module_def aesd_setup_cdev_def full_kernel_def pool_kernel_def Let_def ENOMEM_def)
  then show "chrdev_region (snd (aesd_init_module full_kernel blank_state)) = None"
    using aesd_init_module_all_or_nothing [of full_kernel blank_state]
    by (cases "aesd_init_module full_kernel blank_state") (simp add: blank_state_def)
qed

text \<open>
  C21: unloading the module after any history frees every stored command, once each, and
  unregisters device and region.  The only memory the driver leaves behind is the buffer of
  a pending command, which the exit function does not free, and the blocks the writes had
  already lost.
\<close>

theorem aesd_cleanup_module_releases:
  assumes "dev_reach (s, fs) hist" and "kernel_ok K" and "undisturbed K"
    and "chrdev_region s = Some (MKDEV K (aesd_major s) aesd_minor)"
  shows "\<exists>s'. aesd_cleanup_module K s = Some s' \<and> cdev_live s' = None \<and> chrdev_region s' = None \<and>
           dom (kmem s') = garbage s \<union> set (blocks_of (part_mem_ptr (aesd_device s)))"
proof -
  have inv: "dev_inv s" using dev_reach_inv [OF assms(1)] by (simp add: sys_inv_def)
  have lock: "fst (mutex_lock_interruptible K Unlocked) = 0"
    using assms(3) by (simp add: undisturbed_def)
  have "set (all_blocks (part_ptrs (aesd_device s))) = set (blocks_of (part_mem_ptr (aesd_device s)))"
    by (simp add: part_ptrs_def)
  then show ?thesis
    using cleanup_module_frees [OF assms(2) inv lock] assms(4) by metis
qed

lemma written_region: "chrdev_region written_state = Some (MKDEV pool_kernel (aesd_major written_state) aesd_minor)"
  "garbage written_state = {}" "part_mem_ptr (aesd_device written_state) = NULL"
proof -
  have "garbage written_state = garbage loaded_state"
    using aesd_write_commits [OF pool_kernel_ok loaded_state_inv(1) written_facts(1) loaded_services_ok, of 0]
      written_state_run(1) loaded_state_inv(4) by auto
  then show "garbage written_state = {}" by (simp add: garbage_def loaded_state_inv)
  show "chrdev_region written_state = Some (MKDEV pool_kernel (aesd_major written_state) aesd_minor)"
    "part_mem_ptr (aesd_device written_state) = NULL"
    by (simp_all add: written_state_def loaded_state_eq open_file_def run_simps hi_bytes
       pool_kmalloc_at [of 0] KMALLOC_MAX_value newline_partial [of _ _ "[104, 105, 10]"] newline_def
       pool_kernel_def aesd_minor_def pool_lock_def pool_unlock_def)
qed

theorem aesd_cleanup_module_releases_witness:
  "\<exists>s'. aesd_cleanup_module pool_kernel written_state = Some s' \<and> chrdev_region s' = None \<and>
        dom (kmem s') = {}"
  using aesd_cleanup_module_releases [OF written_reach pool_kernel_ok pool_undisturbed written_region(1)]
    written_region(2,3) by auto

text \<open>
  Unloading the module while a signal is pending faults: the exit function ignores the
  failed lock, walks the buffer without it and then unlocks a mutex it does not hold.
\<close>

theorem aesd_cleanup_module_interrupted_faults:
  assumes "kernel_ok K" and "dev_inv s" and "fst (mutex_lock_interruptible K Unlocked) \<noteq> 0"
    and "mutex_unlock K Unlocked = None"
  shows "aesd_cleanup_module K s = None"
  using lock_interrupted [OF assms(1,3)] dev_invD(8) [OF assms(2)] assms(4)
  by (auto simp: aesd_cleanup_module_def Let_def bind_eq_None_conv)

theorem aesd_cleanup_module_interrupted_faults_witness: "aesd_cleanup_module signal_kernel written_state = None"
proof (rule aesd_cleanup_module_interrupted_faults [OF signal_kernel_ok written_state_run(2)])
  show "fst (mutex_lock_interruptible signal_kernel Unlocked) \<noteq> 0"
    "mutex_unlock signal_kernel Unlocked = None"
    by (simp_all add: signal_kernel_def pool_unlock_def)
qed

end
