(* ===== verification/Device_File.thy ===== *)
theory Device_File
  imports Client_Session Driver_Properties
begin

text \<open>
  The device file the server opens, on the driver: each system call of the server is the
  call \<open>vfs_call\<close> on the driver, with the server's buffer at the address \<open>a\<close> of user memory.
  The contract \<open>char_file\<close> is discharged for it, and the properties of a client connection
  follow for the server and the driver together.
\<close>

section \<open>System calls of the server\<close>

text \<open>The C library turns a negative result into -1.\<close>

definition libc_ret :: "64 word \<Rightarrow> int" where
  "libc_ret r = (if sint r < 0 then -1 else sint r)"

definition le_bytes :: "uint32 \<Rightarrow> byte list" where
  "le_bytes w = [ucast w, ucast (drop_bit 8 w), ucast (drop_bit 16 w), ucast (drop_bit 24 w)]"

definition seekto_bytes :: "aesd_seekto \<Rightarrow> byte list" where
  "seekto_bytes t = le_bytes (write_cmd t) @ le_bytes (write_cmd_offset t)"

definition driver_file :: "kernel \<Rightarrow> uaddr \<Rightarrow> (kstate \<times> kfile) aesd_file" where
  "driver_file K a =
     \<lparr>file_write = (\<lambda>(s, f) bs. do {
        (r, s', f') \<leftarrow> vfs_call K (Sys_write a (of_nat (length bs))) (s\<lparr>user := ustore (user s) a bs\<rparr>) f;
        Some (libc_ret r, (s', f')) }),
      file_rewind = (\<lambda>(s, f). do {
        (r, s', f') \<leftarrow> vfs_call K (Sys_lseek 0 SEEK_SET) s f;
        Some (s', f') }),
      file_read = (\<lambda>(s, f) n. do {
        (r, s', f') \<leftarrow> vfs_call K (Sys_read a (of_nat n)) s f;
        Some (libc_ret r, if sint r \<le> 0 then [] else uload (user s') a (unat r), (s', f')) }),
      file_seekto = (\<lambda>(s, f) t. do {
        (r, s', f') \<leftarrow> vfs_call K (Sys_ioctl (AESDCHAR_IOCSEEKTO K) a)
                        (s\<lparr>user := ustore (user s) a (seekto_bytes t)\<rparr>) f;
        Some (libc_ret r, (s', f')) })\<rparr>"

definition drv_inv :: "kernel \<Rightarrow> kstate \<times> kfile \<Rightarrow> bool" where
  "drv_inv K d \<longleftrightarrow> kernel_ok K \<and> undisturbed K \<and> dev_inv (fst d) \<and> file_ok (snd d)"

definition drv_log :: "kstate \<times> kfile \<Rightarrow> byte list list \<times> byte list" where
  "drv_log d = dev_log (fst d)"

definition drv_pos :: "kstate \<times> kfile \<Rightarrow> nat" where
  "drv_pos d = unat (f_pos (snd d))"

definition drv_ready :: "kernel \<Rightarrow> uaddr \<Rightarrow> kstate \<times> kfile \<Rightarrow> byte list \<Rightarrow> bool" where
  "drv_ready K a d bs \<longleftrightarrow>
     length bs \<le> KMALLOC_MAX_SIZE \<and>
     write_services_ok K ((fst d)\<lparr>user := ustore (user (fst d)) a bs\<rparr>) a (of_nat (length bs))"

section \<open>Bytes of the seek argument\<close>

lemma le32_le_bytes: "le32 (le_bytes w) = w"
proof -
  have u: "uint (ucast (drop_bit n w) :: byte) = uint w div 2 ^ n mod 256" for n
  proof -
    have "uint (ucast (drop_bit n w) :: byte) = take_bit 8 (uint (drop_bit n w))"
      by (simp add: unsigned_ucast_eq)
    also have "uint (drop_bit n w) = uint w div 2 ^ n"
    proof -
      have "take_bit 32 (uint w) = uint w" using uint_lt2p [of w] by (simp add: take_bit_int_eq_self)
      then show ?thesis by (simp add: unsigned_drop_bit_eq drop_bit_eq_div [of n "uint w"])
    qed
    finally show ?thesis by (simp add: take_bit_eq_mod)
  qed
  have u0: "uint (ucast w :: byte) = uint w mod 256"
    by (simp add: unsigned_ucast_eq take_bit_eq_mod)
  have e: "le32 [b0, b1, b2, b3] = word_of_int (uint b0 + 256 * (uint b1 + 256 * (uint b2 + 256 * uint b3)))"
    for b0 b1 b2 b3
    by (simp add: le32_def)
  have lt: "uint w < 4294967296" using uint_lt2p [of w] by simp
  have "uint w = uint w mod 256 + 256 * (uint w div 256 mod 256 + 256 * (uint w div 65536 mod 256
      + 256 * (uint w div 16777216 mod 256)))"
  proof -
    have "uint w div 65536 = uint w div 256 div 256" "uint w div 16777216 = uint w div 65536 div 256"
      by (simp_all flip: zdiv_zmult2_eq)
    moreover have "uint w div 16777216 mod 256 = uint w div 16777216"
    proof (rule mod_pos_pos_trivial)
      show "0 \<le> uint w div 16777216" by (simp add: pos_imp_zdiv_nonneg_iff)
      show "uint w div 16777216 < 256" using lt by linarith
    qed
    ultimately show ?thesis by simp
  qed
  then have "word_of_int (uint w) = (word_of_int (uint w mod 256 + 256 * (uint w div 256 mod 256 +
      256 * (uint w div 65536 mod 256 + 256 * (uint w div 16777216 mod 256)))) :: uint32)"
    by (rule arg_cong)
  then have "w = word_of_int (uint w mod 256 + 256 * (uint w div 256 mod 256 +
      256 * (uint w div 65536 mod 256 + 256 * (uint w div 16777216 mod 256))))"
    by simp
  also have "\<dots> = le32 (le_bytes w)"
    unfolding le_bytes_def e u u0 by simp
  finally show ?thesis by simp
qed

lemma seekto_of_seekto_bytes: "seekto_of_bytes (seekto_bytes t) = t"
proof -
  have "take 4 (seekto_bytes t) = le_bytes (write_cmd t)"
    "take 4 (drop 4 (seekto_bytes t)) = le_bytes (write_cmd_offset t)"
    by (simp_all add: seekto_bytes_def le_bytes_def)
  then show ?thesis by (simp add: seekto_of_bytes_def le32_le_bytes)
qed

section \<open>The driver meets the contract\<close>

lemma libc_ret_of_nat:
  assumes "n < 2 ^ 63"
  shows "libc_ret (of_nat n) = int n" and "sint (of_nat n :: 64 word) = int n"
proof -
  have "unat (of_nat n :: 64 word) = n" using assms by (intro unat_of_nat_size) simp
  then show "sint (of_nat n :: 64 word) = int n" using assms sint_size_nonneg(2) [of "of_nat n"] by simp
  then show "libc_ret (of_nat n) = int n" by (simp add: libc_ret_def)
qed

lemma driver_write:
  assumes "drv_inv K (s, f)" and "drv_ready K a (s, f) bs"
  shows "\<exists>d'. file_write (driver_file K a) (s, f) bs = Some (int (length bs), d') \<and> drv_inv K d' \<and>
           drv_log d' = log_write (drv_log (s, f)) bs"
proof -
  let ?s = "s\<lparr>user := ustore (user s) a bs\<rparr>"
  have K: "kernel_ok K" "undisturbed K" and inv: "dev_inv ?s" and f: "private_data f = Dev_aesd_device"
    using assms(1) by (simp_all add: drv_inv_def file_ok_def dev_inv_update_user)
  have ok: "write_services_ok K ?s a (of_nat (length bs))" and n: "length bs \<le> KMALLOC_MAX_SIZE"
    using assms(2) by (simp_all add: drv_ready_def)
  have un: "unat (of_nat (length bs) :: size_t) = length bs"
    using n by (intro unat_of_nat_size) (simp add: KMALLOC_MAX_value)
  have data: "uload (user ?s) a (unat (of_nat (length bs) :: size_t)) = bs"
    using n by (simp add: un uload_ustore KMALLOC_MAX_value)
  have ret: "libc_ret (of_nat (length bs)) = int (length bs)"
    using n by (intro libc_ret_of_nat) (simp add: KMALLOC_MAX_value)
  obtain s' p where run: "aesd_write K ?s f a (of_nat (length bs)) (f_pos f) = Some (of_nat (length bs), s', p)"
    "dev_inv s'" "dev_log s' = log_write (dev_log ?s) bs"
    using aesd_write_commits [OF K(1) inv f ok, of "f_pos f"] unfolding data by metis
  then show ?thesis
    using ret K f
    by (auto simp: driver_file_def aesd_fops_def drv_inv_def drv_log_def file_ok_def dev_log_update_user)
qed

lemma driver_rewind:
  assumes "drv_inv K (s, f)"
  shows "\<exists>d'. file_rewind (driver_file K a) (s, f) = Some d' \<and> drv_inv K d' \<and>
           drv_log d' = drv_log (s, f) \<and> drv_pos d' = 0"
proof -
  have K: "kernel_ok K" "undisturbed K" and inv: "dev_inv s" and f: "private_data f = Dev_aesd_device"
    using assms(1) by (simp_all add: drv_inv_def file_ok_def)
  have lock: "fst (mutex_lock_interruptible K Unlocked) = 0" using K(2) by (simp add: undisturbed_def)
  have us: "unat (of_nat (log_size s) :: loff_t) = log_size s"
    using log_size_cb_size(2) [OF inv] by (intro unat_of_nat_size) simp
  have "0 \<le> sint (of_nat (log_size s) :: loff_t)"
    using log_size_cb_size(2) [OF inv] us by (intro sint_size_nonneg) simp
  then have "fixed_size_llseek K (f_pos f) 0 SEEK_SET (of_nat (log_size s)) = (0, 0)"
    using kernel_okD(5) [OF K(1)] by (simp add: llseek_ok_def seek_target_def SEEK_SET_def SEEK_CUR_def)
  then have "aesd_llseek K s f 0 SEEK_SET = Some (0, s, f\<lparr>f_pos := 0\<rparr>)"
    using aesd_llseek_moves [OF K(1) inv f lock, of SEEK_SET 0] by simp
  then show ?thesis
    using K inv f by (auto simp: driver_file_def aesd_fops_def drv_inv_def drv_log_def drv_pos_def file_ok_def)
qed

lemma driver_read:
  assumes "drv_inv K (s, f)" and pos: "drv_pos (s, f) \<le> length (concat (fst (drv_log (s, f))))"
  defines "r \<equiv> rest_at (fst (drv_log (s, f))) (drv_pos (s, f))"
  shows "\<exists>d'. file_read (driver_file K a) (s, f) n = Some (int (length r), r, d') \<and> drv_inv K d' \<and>
           drv_log d' = drv_log (s, f) \<and> drv_pos d' = drv_pos (s, f) + length r"
proof -
  have K: "kernel_ok K" "undisturbed K" and inv: "dev_inv s" and f: "private_data f = Dev_aesd_device"
    using assms(1) by (simp_all add: drv_inv_def file_ok_def)
  let ?p = "unat (f_pos f)"
  have css: "fst (drv_log (s, f)) = dev_cmds s" by (simp add: drv_log_def dev_log_def)
  have le: "?p \<le> log_size s" using pos by (simp add: css drv_pos_def log_size_def)
  then have p31: "?p < 2 ^ 31" using log_size_cb_size(2) [OF inv] by simp
  have r: "r = rest_at (dev_cmds s) ?p" by (simp add: r_def css drv_pos_def)
  have nxt: "?p + length r \<le> log_size s"
  proof (cases "?p < log_size s")
    case True
    then show ?thesis using rest_at_inside(4) [of ?p "dev_cmds s"] by (simp add: r log_size_def)
  next
    case False
    then show ?thesis using le rest_at_end [of "dev_cmds s" ?p] by (simp add: r log_size_def)
  qed
  then have lr: "length r < 2 ^ 31" "?p + length r < 2 ^ 31" using log_size_cb_size(2) [OF inv] by simp_all
  have run: "aesd_read K s f a (of_nat n) (f_pos f) =
      Some (of_nat (length r), s\<lparr>user := ustore (user s) a r\<rparr>, f_pos f + of_nat (length r))"
    using aesd_read_cases [OF K inv f p31, of a "of_nat n"]
    by (auto simp: r rest_at_def Let_def split: option.split)
  have ul: "unat (of_nat (length r) :: size_t) = length r" using lr by (intro unat_of_nat_size) simp
  have ret: "libc_ret (of_nat (length r)) = int (length r)" "sint (of_nat (length r) :: 64 word) = int (length r)"
    using lr(1) libc_ret_of_nat [of "length r"] by simp_all
  have data: "uload (ustore (user s) a r) a (length r) = r" using lr(1) by (simp add: uload_ustore)
  have np: "unat (f_pos f + of_nat (length r)) = ?p + length r"
    using lr ul by (subst unat_add_lem [THEN iffD1]) simp_all
  show ?thesis
    using run ret data ul np K inv f
    by (auto simp: driver_file_def aesd_fops_def drv_inv_def drv_log_def drv_pos_def file_ok_def
        dev_inv_update_user dev_log_update_user)
qed

lemma driver_seekto:
  assumes "drv_inv K (s, f)" and ne: "fst (drv_log (s, f)) \<noteq> []"
  shows "\<exists>r d'. file_seekto (driver_file K a) (s, f) t = Some (r, d') \<and> drv_inv K d' \<and>
     drv_log d' = drv_log (s, f) \<and>
     (case seek_spec (map length (fst (drv_log (s, f)))) (unat (write_cmd t)) (unat (write_cmd_offset t)) of
        None \<Rightarrow> r \<noteq> 0 \<and> drv_pos d' = drv_pos (s, f)
      | Some p \<Rightarrow> r = 0 \<and> drv_pos d' = p)"
proof -
  let ?bs = "seekto_bytes t" and ?css = "dev_cmds s"
  let ?s = "s\<lparr>user := ustore (user s) a ?bs\<rparr>"
  let ?spec = "seek_spec (map length ?css) (unat (write_cmd t)) (unat (write_cmd_offset t))"
  have K: "kernel_ok K" "undisturbed K" and inv: "dev_inv ?s" and f: "private_data f = Dev_aesd_device"
    using assms(1) by (simp_all add: drv_inv_def file_ok_def dev_inv_update_user)
  have css: "fst (drv_log (s, f)) = ?css" by (simp add: drv_log_def dev_log_def)
  have lock: "fst (mutex_lock_interruptible K Unlocked) = 0" using K(2) by (simp add: undisturbed_def)
  have l8: "length ?bs = 8" by (simp add: seekto_bytes_def le_bytes_def)
  have "uload (user ?s) a 8 = ?bs" using uload_ustore [of ?bs "user s" a] l8 by simp
  moreover have "fst (copy_from_user K (user ?s) a 8) = 0" using K(2) by (simp add: undisturbed_def)
  ultimately have copy: "copy_from_user K (user ?s) a 8 = (0, ?bs)"
    using copy_from_user_all [OF kernel_okD(3) [OF K(1)], of "user ?s" a 8]
    by (cases "copy_from_user K (user ?s) a 8") simp
  have io: "aesd_ioctl K ?s f (AESDCHAR_IOCSEEKTO K) a =
      Some (case ?spec of None \<Rightarrow> (- of_nat EINVAL, ?s, f) | Some p \<Rightarrow> (0, ?s, f\<lparr>f_pos := of_nat p\<rparr>))"
    using aesd_ioctl_seeks [OF K(1) inv f lock copy] ne by (simp add: css seekto_of_seekto_bytes)
  have small: "unat (of_nat p :: loff_t) = p" if sp: "?spec = Some p" for p
  proof -
    obtain i off where io: "i < length ?css" "off \<le> length (?css ! i)" "p = sum_list (take i (map length ?css)) + off"
      using sp by (auto simp: seek_spec_def split: if_splits)
    then have "p \<le> length (concat (take (Suc i) ?css))"
      by (simp add: take_Suc_conv_app_nth length_concat take_map)
    then have "p < 2 ^ 31"
      using length_concat_take_le [of "Suc i" ?css] log_size_cb_size(2) [OF inv] by (simp add: log_size_def)
    then show ?thesis by (intro unat_of_nat_size) simp
  qed
  have neg: "libc_ret (scast (- of_nat EINVAL :: int32)) \<noteq> 0" "libc_ret 0 = 0"
    by (simp_all add: libc_ret_def EINVAL_def)
  show ?thesis
  proof (cases ?spec)
    case None
    then show ?thesis
      using io neg K inv f css
      by (auto simp: driver_file_def aesd_fops_def drv_inv_def drv_log_def drv_pos_def file_ok_def dev_log_update_user)
  next
    case (Some p)
    then show ?thesis
      using io neg small K inv f css
      by (auto simp: driver_file_def aesd_fops_def drv_inv_def drv_log_def drv_pos_def file_ok_def dev_log_update_user)
  qed
qed

interpretation drv: char_file "driver_file K a" "drv_inv K" drv_log drv_pos "drv_ready K a" for K a
proof
  fix d :: "kstate \<times> kfile"
  obtain s f where d: "d = (s, f)" by (cases d)
  show "drv_inv K d \<Longrightarrow> drv_ready K a d bs \<Longrightarrow>
      \<exists>d'. file_write (driver_file K a) d bs = Some (int (length bs), d') \<and> drv_inv K d' \<and>
           drv_log d' = log_write (drv_log d) bs" for bs
    unfolding d by (rule driver_write)
  show "drv_inv K d \<Longrightarrow> \<exists>d'. file_rewind (driver_file K a) d = Some d' \<and> drv_inv K d' \<and>
      drv_log d' = drv_log d \<and> drv_pos d' = 0"
    unfolding d by (rule driver_rewind)
  show "drv_inv K d \<Longrightarrow> drv_pos d \<le> length (concat (fst (drv_log d))) \<Longrightarrow>
      \<exists>d'. file_read (driver_file K a) d n = Some (int (length (rest_at (fst (drv_log d)) (drv_pos d))),
             rest_at (fst (drv_log d)) (drv_pos d), d') \<and> drv_inv K d' \<and> drv_log d' = drv_log d \<and>
           drv_pos d' = drv_pos d + length (rest_at (fst (drv_log d)) (drv_pos d))" for n
    unfolding d by (rule driver_read)
  show "drv_inv K d \<Longrightarrow> fst (drv_log d) \<noteq> [] \<Longrightarrow>
      \<exists>r d'. file_seekto (driver_file K a) d t = Some (r, d') \<and> drv_inv K d' \<and> drv_log d' = drv_log d \<and>
        (case seek_spec (map length (fst (drv_log d))) (unat (write_cmd t)) (unat (write_cmd_offset t)) of
           None \<Rightarrow> r \<noteq> 0 \<and> drv_pos d' = drv_pos d
         | Some p \<Rightarrow> r = 0 \<and> drv_pos d' = p)" for t
    unfolding d by (rule driver_seekto)
qed

section \<open>Properties of a client connection\<close>

lemma driver_session_echo:
  assumes "kernel_ok K" and "undisturbed K" and "dev_inv s" and "file_ok f"
    and "libc_ok L" and "c_malloc L MAX_BUF_SIZE \<noteq> None"
    and "conn_in c = [Some (bs @ [newline])]" and "newline \<notin> set bs" and "length bs < MAX_BUF_SIZE"
    and "conn_lim c = []" and "plain_line (bs @ [newline])" and "drv_ready K a (s, f) (bs @ [newline])"
    and "\<forall>x\<in>set (push 10 (dev_cmds s) (dev_pending s @ bs @ [newline])). length x \<le> MAX_BUF_SIZE"
    and "length (write_back_pkt e) = MAX_BUF_SIZE"
  obtains e' s' f' where "process_client_connection L (driver_file K a) e (s, f) c =
           Some (e', (s', f'), c\<lparr>conn_in := [], conn_out := conn_out c @ concat (dev_cmds s')\<rparr>)"
    "task_finished e' = 1" "e' = e\<lparr>write_back_pkt := write_back_pkt e', task_finished := 1\<rparr>" "dev_inv s'"
    "dev_cmds s' = push 10 (dev_cmds s) (dev_pending s @ bs @ [newline])" "dev_pending s' = []"
proof -
  have inv: "drv_inv K (s, f)" using assms(1-4) by (simp add: drv_inv_def)
  have lw: "log_write (drv_log (s, f)) (bs @ [newline]) =
      (push 10 (dev_cmds s) (dev_pending s @ bs @ [newline]), [])"
    by (simp add: log_write_def drv_log_def dev_log_def)
  obtain e' d' where "process_client_connection L (driver_file K a) e (s, f) c =
      Some (e', d', c\<lparr>conn_in := [], conn_out := conn_out c @ concat (fst (drv_log d'))\<rparr>)"
    "task_finished e' = 1" "drv_inv K d'" "drv_log d' = log_write (drv_log (s, f)) (bs @ [newline])"
    using drv.session_echo [OF assms(5-11) inv assms(12) _ assms(14)] assms(13) unfolding lw by auto
  moreover from this(1) have "e' = e\<lparr>write_back_pkt := write_back_pkt e', task_finished := 1\<rparr>" by (rule session_frame)
  ultimately show thesis
    unfolding lw by (intro that [of e' "fst d'" "snd d'"]) (auto simp: drv_inv_def drv_log_def dev_log_def)
qed

text \<open>
  One line sent by a client is stored and echoed with the history.  A connection that
  delivers one line of at most 1024 bytes which is not a seek command, and then closes, ends
  with the line appended to the device's log (a pending command first) and with exactly the
  stored commands, oldest first and the new one last, sent back; the thread then marks itself
  finished.  All stored commands have to fit the 1024 bytes of the reply buffer.
\<close>

theorem client_line_is_stored_and_echoed:
  assumes "kernel_ok K" and "undisturbed K" and "dev_inv s" and "file_ok f"
    and "libc_ok L" and "c_malloc L MAX_BUF_SIZE \<noteq> None"
    and "conn_in c = [Some (bs @ [newline])]" and "newline \<notin> set bs" and "length bs < MAX_BUF_SIZE"
    and "conn_lim c = []" and "plain_line (bs @ [newline])" and "drv_ready K a (s, f) (bs @ [newline])"
    and "\<forall>x\<in>set (push 10 (dev_cmds s) (dev_pending s @ bs @ [newline])). length x \<le> MAX_BUF_SIZE"
    and "length (write_back_pkt e) = MAX_BUF_SIZE"
  shows "\<exists>e' s' f'. process_client_connection L (driver_file K a) e (s, f) c =
           Some (e', (s', f'), c\<lparr>conn_in := [], conn_out := conn_out c @ concat (dev_cmds s')\<rparr>) \<and>
           task_finished e' = 1 \<and> dev_inv s' \<and>
           dev_cmds s' = push 10 (dev_cmds s) (dev_pending s @ bs @ [newline]) \<and> dev_pending s' = []"
  by (rule driver_session_echo [OF assms]) blast

definition zero_libc :: libc where
  "zero_libc = \<lparr>c_malloc = (\<lambda>n. Some (replicate n 0)),
                c_realloc = (\<lambda>old n. Some (take n old @ replicate (n - length old) 0))\<rparr>"

definition new_client :: client_queue where
  "new_client = \<lparr>connfd = 7, task_finished = 0, threadId = 0, fd = 8, write_back_pkt = replicate 1024 0\<rparr>"

lemma zero_libc_ok: "libc_ok zero_libc" "c_malloc zero_libc MAX_BUF_SIZE \<noteq> None"
  by (auto simp: libc_ok_def zero_libc_def min_def)

lemma open_file_ok: "file_ok open_file"
  by (simp add: file_ok_def open_file_def)

lemma hi_ready: "drv_ready pool_kernel 0 (loaded_state, open_file) ([104, 105] @ [newline])"
  by (simp add: drv_ready_def write_services_ok_def write_join_ok_def join_ok_def loaded_state_inv
      pool_kmalloc_at [of 0] KMALLOC_MAX_value)

theorem client_line_is_stored_and_echoed_witness:
  "\<exists>e' s' f'. process_client_connection zero_libc (driver_file pool_kernel 0) new_client (loaded_state, open_file)
       \<lparr>conn_in = [Some [104, 105, 10]], conn_out = [], conn_lim = []\<rparr> =
     Some (e', (s', f'), \<lparr>conn_in = [], conn_out = [104, 105, 10], conn_lim = []\<rparr>) \<and>
     dev_cmds s' = [[104, 105, 10]]"
proof -
  let ?c = "\<lparr>conn_in = [Some ([104, 105] @ [newline])], conn_out = [], conn_lim = []\<rparr>"
  have log: "dev_cmds loaded_state = []" "dev_pending loaded_state = []"
    using loaded_state_inv(2) by (simp_all add: dev_log_def)
  have plain: "plain_line ([104, 105] @ [newline])" by (auto simp: plain_line_def ioctl_cmd_def newline_def)
  have "\<exists>e' s' f'. process_client_connection zero_libc (driver_file pool_kernel 0) new_client
      (loaded_state, open_file) ?c =
      Some (e', (s', f'), ?c\<lparr>conn_in := [], conn_out := conn_out ?c @ concat (dev_cmds s')\<rparr>) \<and>
      task_finished e' = 1 \<and> dev_inv s' \<and>
      dev_cmds s' = push 10 (dev_cmds loaded_state) (dev_pending loaded_state @ [104, 105] @ [newline]) \<and>
      dev_pending s' = []"
    by (rule client_line_is_stored_and_echoed [OF pool_kernel_ok pool_undisturbed loaded_state_inv(1) open_file_ok
          zero_libc_ok _ _ _ _ plain hi_ready])
      (simp_all add: newline_def MAX_BUF_SIZE_def log push_def new_client_def)
  then show ?thesis by (auto simp: log push_def newline_def)
qed



text \<open>
  C25: the reply buffer is overrun.  When the first stored command is longer than the 1024
  bytes of \<^verbatim>\<open>write_back_pkt\<close>, the read of the reply loop, which asks for 1024 bytes, gets the
  whole command and writes past the end of the buffer.
\<close>

theorem long_command_overruns_reply_buffer:
  assumes "kernel_ok K" and "undisturbed K" and "dev_inv s" and "file_ok f"
    and "n \<le> length b" and "newline \<in> set (take n b)" and "drv_ready K a (s, f) (take n b)"
    and "push 10 (dev_cmds s) (dev_pending s @ take n b) = long # rest" and "MAX_BUF_SIZE < length long"
    and "length p = MAX_BUF_SIZE"
  shows "process_packet (driver_file K a) c n b (s, f) p = None"
proof -
  have inv: "drv_inv K (s, f)" using assms(1-4) by (simp add: drv_inv_def)
  have "fst (log_write (drv_log (s, f)) (take n b)) = long # rest"
    using assms(6,8) by (simp add: log_write_def drv_log_def dev_log_def)
  from drv.process_packet_overrun [OF inv assms(5,7) this assms(9,10)] show ?thesis .
qed

theorem long_command_overruns_reply_buffer_witness:
  "process_packet (driver_file pool_kernel 0) \<lparr>conn_in = [], conn_out = [], conn_lim = []\<rparr> 1025
     (replicate 1024 65 @ [10]) (loaded_state, open_file) (replicate 1024 0) = None"
proof -
  let ?b = "replicate 1024 65 @ [10] :: byte list"
  have log: "dev_cmds loaded_state = []" "dev_pending loaded_state = []"
    using loaded_state_inv(2) by (simp_all add: dev_log_def)
  have tk: "take 1025 ?b = ?b" by simp
  have ready: "drv_ready pool_kernel 0 (loaded_state, open_file) (take 1025 ?b)"
    unfolding tk
    by (simp add: drv_ready_def write_services_ok_def write_join_ok_def join_ok_def loaded_state_inv
        pool_kmalloc_at [of 0] KMALLOC_MAX_value)
  show ?thesis
    by (rule long_command_overruns_reply_buffer [OF pool_kernel_ok pool_undisturbed loaded_state_inv(1)
          open_file_ok _ _ ready, where long = ?b and rest = "[]"])
      (simp_all add: log push_def newline_def MAX_BUF_SIZE_def)
qed

text \<open>
  The packet buffer is never reset.  When a connection delivers a second line after the
  first, what is handed to the device for the second line is the whole first 1024-byte chunk
  (the first line again and the zeros behind it) followed by the second line.
\<close>

theorem second_line_repeats_first_chunk:
  assumes L: "libc_ok L" "c_malloc L MAX_BUF_SIZE \<noteq> None"
    and c: "conn_in c = [Some (l1 @ [newline]), Some (l2 @ [newline])]"
    and l1: "newline \<notin> set l1" "length l1 < MAX_BUF_SIZE" "plain_line (l1 @ [newline])"
    and l2: "newline \<notin> set l2" "length l2 < MAX_BUF_SIZE"
  defines "chunk \<equiv> l1 @ [newline] @ replicate (MAX_BUF_SIZE - Suc (length l1)) 0"
  assumes run1: "process_packet F (c\<lparr>conn_in := [Some (l2 @ [newline])]\<rparr>) (Suc (length l1)) chunk d (write_back_pkt e) =
      Some (0, d1, c1, p1)" and c1: "conn_in c1 = [Some (l2 @ [newline])]"
    and grow: "c_realloc L chunk (MAX_BUF_SIZE + MAX_BUF_SIZE) = Some b" "newline \<notin> set (drop MAX_BUF_SIZE b)"
    and run2: "process_packet F (c1\<lparr>conn_in := []\<rparr>) (MAX_BUF_SIZE + Suc (length l2))
        (chunk @ l2 @ [newline] @ drop (MAX_BUF_SIZE + Suc (length l2)) b) d1 p1 = Some (rc, d2, c2, p2)"
    and c2: "conn_in c2 = []"
  shows "process_client_connection L F e d c = Some (e\<lparr>write_back_pkt := p2, task_finished := 1\<rparr>, d2, c2)"
proof -
  let ?M = MAX_BUF_SIZE and ?n1 = "Suc (length l1)" and ?n2 = "Suc (length l2)"
  let ?r = "drop (?M + ?n2) b"
  have lc: "length chunk = ?M" using l1(2) by (simp add: chunk_def)
  have "length b = ?M + ?M" "take (length chunk) b = take (?M + ?M) chunk"
    using grow(1) L(1) by (auto simp: libc_ok_def)
  then have b: "length b = ?M + ?M" "take ?M b = chunk" using lc by simp_all
  have np: "take (length ioctl_cmd) (chunk @ zs) \<noteq> ioctl_cmd" for zs
  proof -
    have "length ioctl_cmd \<le> length chunk" by (simp add: lc ioctl_cmd_def MAX_BUF_SIZE_def)
    then have "take (length ioctl_cmd) (chunk @ zs) = take (length ioctl_cmd) chunk" by simp
    then show ?thesis unfolding chunk_def by (simp only: plain_line_take [OF l1(3,1)] not_False_eq_True)
  qed
  define s0 where "s0 = \<lparr>buff = chunk, len = 0, dev = d, peer = c\<lparr>conn_in := [Some (l2 @ [newline])]\<rparr>, pkt = write_back_pkt e\<rparr>"
  define s1 where "s1 = \<lparr>buff = chunk, len = ?n1, dev = d1, peer = c1, pkt = p1\<rparr>"
  define b2 where "b2 = chunk @ l2 @ [newline] @ ?r"
  define s2 where "s2 = \<lparr>buff = b2, len = ?M, dev = d1, peer = c1\<lparr>conn_in := []\<rparr>, pkt = p1\<rparr>"
  define s3 where "s3 = \<lparr>buff = b2, len = ?M + ?n2, dev = d2, peer = c2, pkt = p2\<rparr>"
  have h1: "handle_line F (s0\<lparr>len := len s0 + ?n1\<rparr>) = Some (True, s1)"
    using run1 np [of "[]"] by (simp add: handle_line_def s0_def s1_def)
  have scan1: "scan_chunk F ?M s0 = Some (True, s1\<lparr>len := ?M\<rparr>)"
    using scan_chunk_line [of s0 "length l1" "?M - ?n1" l1 F True s1] h1 l1(1,2)
    by (simp add: s0_def s1_def lc) (simp add: chunk_def newline_def)
  have h2: "handle_line F (s2\<lparr>len := len s2 + ?n2\<rparr>) = Some (rc = 0, s3)"
    using run2 np [of "l2 @ [newline] @ ?r"] by (simp add: handle_line_def s2_def s3_def b2_def)
  have lb2: "length b2 = ?M + ?M" using b l2(2) lc by (simp add: b2_def)
  have rest: "newline \<notin> set ?r" using grow(2) by (metis add.commute drop_drop in_set_dropD)
  have rd1: "sock_read c ?M = (int ?n1, l1 @ [newline], c\<lparr>conn_in := [Some (l2 @ [newline])]\<rparr>)"
    and rd2: "sock_read c1 ?M = (int ?n2, l2 @ [newline], c1\<lparr>conn_in := []\<rparr>)"
    using c c1 l1(2) l2(2) by (simp_all add: sock_read_def)
  have eof: "fst (sock_read c2 ?M) = 0" using c2 by (simp add: sock_read_def)
  have fin: "chat_loop L F \<tau> = Some \<tau>" if "peer \<tau> = c2" for \<tau>
    using c2 that by (subst chat_loop.simps) (simp add: sock_read_def)
  have scan2: "scan_chunk F ?M s2 = Some (rc = 0, if rc = 0 then s3\<lparr>len := ?M + ?M\<rparr> else s3)"
  proof -
    have "scan_chunk F (Suc (length l2) + (?M - ?n2)) s2 =
        Some (rc = 0, if rc = 0 then s3\<lparr>len := len s3 + (?M - ?n2)\<rparr> else s3)"
      by (rule scan_chunk_line [where bs = l2])
        (use h2 l2 lb2 lc rest in \<open>simp_all add: s2_def s3_def b2_def\<close>)
    moreover have "len s3 + (?M - ?n2) = ?M + ?M" "Suc (length l2) + (?M - ?n2) = ?M"
      using l2(2) by (simp_all add: s3_def)
    ultimately show ?thesis by simp
  qed
  have ov1: "overlay (replicate ?M 0) 0 (l1 @ [newline]) = Some chunk"
    using l1(2) by (simp add: overlay_def chunk_def)
  have ov2: "overlay b ?M (l2 @ [newline]) = Some b2" using b l2(2) by (simp add: overlay_def b2_def)
  have small: "\<not> 2 ^ 31 \<le> ?M + ?M" "\<not> 2 ^ 31 \<le> ?M + ?M + ?M" by (simp_all add: MAX_BUF_SIZE_def)
  have second: "\<exists>\<tau>. chat_loop L F (s1\<lparr>len := ?M, buff := b\<rparr>) = Some \<tau> \<and> dev \<tau> = d2 \<and> peer \<tau> = c2 \<and> pkt \<tau> = p2"
    using scan2 small eof
    by (subst chat_loop.simps) (auto simp: s1_def rd2 ov2 fin s2_def s3_def split: option.split)
  have first: "chat_loop L F \<lparr>buff = replicate ?M 0, len = 0, dev = d, peer = c, pkt = write_back_pkt e\<rparr> =
      chat_loop L F (s1\<lparr>len := ?M, buff := b\<rparr>)"
    using scan1 small grow(1) by (subst chat_loop.simps) (simp add: rd1 ov1 s0_def s1_def)
  obtain blk where "c_malloc L ?M = Some blk" "length blk = ?M" using L by (auto simp: libc_ok_def)
  then show ?thesis using first second by (auto simp: process_client_connection_def)
qed

text \<open>A device file that records what is written to it and holds nothing to read.\<close>

definition recorder :: "byte list list aesd_file" where
  "recorder = \<lparr>file_write = (\<lambda>d bs. Some (int (length bs), d @ [bs])), file_rewind = Some,
               file_read = (\<lambda>d n. Some (0, [], d)), file_seekto = (\<lambda>d t. Some (-1, d))\<rparr>"

lemma recorder_packet: "n \<le> length b \<Longrightarrow> process_packet recorder c n b d p = Some (0, d @ [take n b], c, p)"
  by (simp add: process_packet_def recorder_def send_back.simps)

theorem second_line_repeats_first_chunk_witness:
  "process_client_connection zero_libc recorder new_client []
     \<lparr>conn_in = [Some [97, 10], Some [98, 10]], conn_out = [], conn_lim = []\<rparr> =
   Some (new_client\<lparr>task_finished := 1\<rparr>, [[97, 10], [97, 10] @ replicate 1022 0 @ [98, 10]],
         \<lparr>conn_in = [], conn_out = [], conn_lim = []\<rparr>)"
proof -
  define chunk where "chunk = [97] @ [newline] @ replicate (MAX_BUF_SIZE - Suc (length [97 :: byte])) (0 :: byte)"
  define b where "b = chunk @ replicate MAX_BUF_SIZE 0"
  let ?k = "\<lparr>conn_in = [Some ([98] @ [newline])], conn_out = [], conn_lim = []\<rparr>"
  have lc: "length chunk = MAX_BUF_SIZE" by (simp add: chunk_def MAX_BUF_SIZE_def)
  have g: "c_realloc zero_libc chunk (MAX_BUF_SIZE + MAX_BUF_SIZE) = Some b"
    by (simp add: zero_libc_def b_def lc)
  have r2: "process_packet recorder (?k\<lparr>conn_in := []\<rparr>) (MAX_BUF_SIZE + Suc (length [98 :: byte]))
      (chunk @ [98] @ [newline] @ drop (MAX_BUF_SIZE + Suc (length [98 :: byte])) b) [[97, 10]] (write_back_pkt new_client) =
      Some (0, [[97, 10], chunk @ [98, 10]], ?k\<lparr>conn_in := []\<rparr>, write_back_pkt new_client)"
    by (subst recorder_packet) (simp_all add: lc newline_def)
  have plain: "plain_line ([97] @ [newline])" by (auto simp: plain_line_def ioctl_cmd_def newline_def)
  let ?c = "\<lparr>conn_in = [Some ([97] @ [newline]), Some ([98] @ [newline])], conn_out = [], conn_lim = []\<rparr>"
  have refl': "conn_in ?c = [Some ([97] @ [newline]), Some ([98] @ [newline])]" by simp
  have l: "newline \<notin> set [97]" "length [97 :: byte] < MAX_BUF_SIZE"
    and l': "newline \<notin> set [98]" "length [98 :: byte] < MAX_BUF_SIZE"
    by (simp_all add: newline_def MAX_BUF_SIZE_def)
  have r1': "process_packet recorder (?c\<lparr>conn_in := [Some ([98] @ [newline])]\<rparr>) (Suc (length [97 :: byte])) chunk []
      (write_back_pkt new_client) = Some (0, [[97, 10]], ?k, write_back_pkt new_client)"
    by (subst recorder_packet) (simp_all add: chunk_def newline_def MAX_BUF_SIZE_def)
  have gn: "newline \<notin> set (drop MAX_BUF_SIZE b)" by (simp add: b_def lc newline_def)
  have "process_client_connection zero_libc recorder new_client []
      \<lparr>conn_in = [Some ([97] @ [newline]), Some ([98] @ [newline])], conn_out = [], conn_lim = []\<rparr> =
      Some (new_client\<lparr>write_back_pkt := write_back_pkt new_client, task_finished := 1\<rparr>,
        [[97, 10], chunk @ [98, 10]], ?k\<lparr>conn_in := []\<rparr>)"
    using second_line_repeats_first_chunk [where c = ?c and ?l1.0 = "[97]" and ?l2.0 = "[98]" and F = recorder
        and d = "[]" and e = new_client and ?c1.0 = ?k and b = b, folded chunk_def,
        OF zero_libc_ok refl' l plain l' r1' _ g gn r2] by simp
  then show ?thesis by (simp add: chunk_def newline_def MAX_BUF_SIZE_def)
qed

text \<open>
  C26: one packet makes a connection thread read outside its buffer.  The packet buffer is handed to
  \<^verbatim>\<open>strtok\<close> without a terminating zero.  When a client sends the seek command with no number, a
  newline, and other bytes up to the size of the buffer, none of them zero or a delimiter, the
  search for the end of the second token runs over the end of the allocated block, whatever
  the device does.
\<close>

theorem unterminated_seek_overreads:
  assumes L: "libc_ok L" "c_malloc L MAX_BUF_SIZE \<noteq> None"
    and c: "conn_in c = Some (ioctl_cmd @ newline # rest) # later" "length (ioctl_cmd @ newline # rest) = MAX_BUF_SIZE"
    and rest: "\<forall>x\<in>set rest. x \<noteq> 0 \<and> x \<notin> set tok_delim"
  shows "process_client_connection L F e d c = None"
proof -
  let ?b = "ioctl_cmd @ newline # rest" and ?m = "length ioctl_cmd" and ?n = "length rest"
  let ?\<sigma> = "\<lparr>buff = ?b, len = 0, dev = d, peer = c\<lparr>conn_in := later\<rparr>, pkt = write_back_pkt e\<rparr>"
  obtain blk where blk: "c_malloc L MAX_BUF_SIZE = Some blk" "length blk = MAX_BUF_SIZE"
    using L by (auto simp: libc_ok_def)
  have ne: "rest \<noteq> []" using c(2) by (auto simp: ioctl_cmd_def MAX_BUF_SIZE_def)
  have n: "MAX_BUF_SIZE = ?m + Suc ?n" using c(2) by simp
  have "newline \<notin> set ioctl_cmd" by (simp add: ioctl_cmd_def newline_def)
  then have "scan_chunk F ?m ?\<sigma> = Some (True, ?\<sigma>\<lparr>len := ?m\<rparr>)" using scan_chunk_quiet [of ?\<sigma> ?m F] by simp
  moreover have "scan_chunk F (Suc ?n) (?\<sigma>\<lparr>len := ?m\<rparr>) = None"
    by (simp add: nth_opt_def handle_line_def seek_and_read_runs_out [OF ne rest])
  ultimately have "scan_chunk F MAX_BUF_SIZE ?\<sigma> = None" unfolding n scan_chunk_add by simp
  moreover have "sock_read c MAX_BUF_SIZE = (int MAX_BUF_SIZE, ?b, c\<lparr>conn_in := later\<rparr>)"
    using c by (simp add: sock_read_def)
  moreover have "overlay (replicate MAX_BUF_SIZE 0) 0 ?b = Some ?b" using c(2) by (simp add: overlay_def)
  moreover have "MAX_BUF_SIZE \<noteq> 0" by (simp add: MAX_BUF_SIZE_def)
  ultimately show ?thesis
    using blk by (simp add: process_client_connection_def) (subst chat_loop.simps, simp)
qed

theorem unterminated_seek_overreads_witness:
  "process_client_connection zero_libc (driver_file pool_kernel 0) new_client (loaded_state, open_file)
     \<lparr>conn_in = [Some (ioctl_cmd @ newline # replicate 1004 65)], conn_out = [], conn_lim = []\<rparr> = None"
  by (rule unterminated_seek_overreads [OF zero_libc_ok, of _ "replicate 1004 65" "[]"])
    (simp_all add: ioctl_cmd_def MAX_BUF_SIZE_def tok_delim_def)

end
