(* ===== verification/Connection_Steps.thy ===== *)
theory Connection_Steps
  imports Device_File
begin

text \<open>
  The thread of a connection, one call at a time.  \<open>chat_step\<close> runs the thread of
  \<^verbatim>\<open>server/aesdsocket.c\<close> from one call on the connection or on the device to the next, with a
  program counter for the place in \<^verbatim>\<open>process_client_connection\<close>, \<^verbatim>\<open>process_packet\<close> and
  \<^verbatim>\<open>seek_and_read\<close> where it stands.  It is the form in which several threads can be interleaved.
  The theory shows that, run alone, it computes what \<open>process_client_connection\<close> computes.
\<close>

section \<open>The program counter\<close>

text \<open>
  \<open>Scan n\<close>: the \<^verbatim>\<open>for\<close> loop with \<open>n\<close> bytes to go.  The other places carry the number of bytes
  the loop has to go when they are done.  \<open>Fetch\<close> and \<open>Send\<close> are the two calls of the reply loop;
  their flag tells whether it is the one of \<^verbatim>\<open>process_packet\<close>.
\<close>

datatype chat_pc =
    Receive
  | Scan nat
  | Store nat
  | Rewind nat
  | Seek nat
  | Fetch bool nat
  | Send bool int nat
  | Cleanup
  | Exited

fun chat_step :: "libc \<Rightarrow> 'd aesd_file \<Rightarrow> chat_pc \<times> 'd session \<Rightarrow> (chat_pc \<times> 'd session) option" where
  "chat_step L F (Receive, \<sigma>) =
     (let (n, bs, c) = sock_read (peer \<sigma>) MAX_BUF_SIZE in
      if n = 0 then Some (Cleanup, \<sigma>\<lparr>peer := c\<rparr>)
      else do { b \<leftarrow> overlay (buff \<sigma>) (len \<sigma>) bs; Some (Scan MAX_BUF_SIZE, \<sigma>\<lparr>buff := b, peer := c\<rparr>) })"
| "chat_step L F (Scan 0, \<sigma>) =
     (if 2 ^ 31 \<le> len \<sigma> + MAX_BUF_SIZE then None
      else case c_realloc L (buff \<sigma>) (len \<sigma> + MAX_BUF_SIZE) of
          Some b \<Rightarrow> Some (Receive, \<sigma>\<lparr>buff := b\<rparr>)
        | None \<Rightarrow> if fst (sock_read (peer \<sigma>) MAX_BUF_SIZE) = 0 then Some (Cleanup, \<sigma>) else None)"
| "chat_step L F (Scan (Suc n), \<sigma>) =
     do {
       b \<leftarrow> nth_opt (buff \<sigma>) (len \<sigma>);
       let \<sigma>1 = \<sigma>\<lparr>len := Suc (len \<sigma>)\<rparr>;
       Some (if b \<noteq> newline then Scan n
             else if take (length ioctl_cmd) (buff \<sigma>1) = ioctl_cmd then Seek n
             else Store n, \<sigma>1)
     }"
| "chat_step L F (Store n, \<sigma>) =
     (if length (buff \<sigma>) < len \<sigma> then None
      else do {
        (write_bytes, d) \<leftarrow> file_write F (dev \<sigma>) (take (len \<sigma>) (buff \<sigma>));
        Some (Rewind n, \<sigma>\<lparr>dev := d\<rparr>)
      })"
| "chat_step L F (Rewind n, \<sigma>) = do { d \<leftarrow> file_rewind F (dev \<sigma>); Some (Fetch True n, \<sigma>\<lparr>dev := d\<rparr>) }"
| "chat_step L F (Seek n, \<sigma>) =
     do {
       (arg1, buf1, p1) \<leftarrow> strtok tok_delim 0 (buff \<sigma>);
       (arg2, buf2, p2) \<leftarrow> strtok tok_delim p1 buf1;
       (arg3, buf3, p3) \<leftarrow> strtok tok_delim p2 buf2;
       let \<sigma>1 = \<sigma>\<lparr>buff := buf3\<rparr>;
       case (arg1, arg2, arg3) of
         (Some a1, Some a2, Some a3) \<Rightarrow> do {
           (r, d) \<leftarrow> file_seekto F (dev \<sigma>)
                      \<lparr>write_cmd = atoi (c_str buf3 a2), write_cmd_offset = atoi (c_str buf3 a3)\<rparr>;
           Some (if r \<noteq> 0 then Scan n else Fetch False n, \<sigma>1\<lparr>dev := d\<rparr>)
         }
       | _ \<Rightarrow> Some (Scan n, \<sigma>1)
     }"
| "chat_step L F (Fetch in_packet n, \<sigma>) =
     do {
       (read_bytes, bs, d) \<leftarrow> file_read F (dev \<sigma>) MAX_BUF_SIZE;
       if read_bytes = 0 then Some (Scan n, \<sigma>\<lparr>dev := d\<rparr>)
       else do {
         p \<leftarrow> overlay (pkt \<sigma>) 0 bs;
         Some (Send in_packet read_bytes n, \<sigma>\<lparr>dev := d, pkt := p\<rparr>)
       }
     }"
| "chat_step L F (Send in_packet read_bytes n, \<sigma>) =
     (let (written, c) = sock_write (peer \<sigma>) (pkt \<sigma>) read_bytes in
      Some (if written = read_bytes then Fetch in_packet n else if in_packet then Cleanup else Scan n,
            \<sigma>\<lparr>peer := c\<rparr>))"
| "chat_step L F (Cleanup, \<sigma>) = Some (Exited, \<sigma>)"
| "chat_step L F (Exited, \<sigma>) = None"

text \<open>A thread run alone.\<close>

definition chat_runs :: "libc \<Rightarrow> 'd aesd_file \<Rightarrow> chat_pc \<times> 'd session \<Rightarrow> chat_pc \<times> 'd session \<Rightarrow> bool" where
  "chat_runs L F = (\<lambda>x y. chat_step L F x = Some y)\<^sup>*\<^sup>*"

definition chat_start :: "byte list \<Rightarrow> client_queue \<Rightarrow> 'd \<Rightarrow> conn \<Rightarrow> chat_pc \<times> 'd session" where
  "chat_start block e d c =
     (Receive, \<lparr>buff = replicate (length block) 0, len = 0, dev = d, peer = c, pkt = write_back_pkt e\<rparr>)"

lemma chat_runs_refl [simp, intro]: "chat_runs L F x x"
  by (simp add: chat_runs_def)

lemma chat_runs_trans: "chat_runs L F x y \<Longrightarrow> chat_runs L F y z \<Longrightarrow> chat_runs L F x z"
  unfolding chat_runs_def by (rule rtranclp_trans)

lemma chat_runs_step: "chat_step L F x = Some y \<Longrightarrow> chat_runs L F y z \<Longrightarrow> chat_runs L F x z"
  unfolding chat_runs_def by (rule converse_rtranclp_into_rtranclp)

section \<open>From the functions to the steps\<close>

text \<open>The reply loop, from a session whose device, connection and reply buffer it is given.\<close>

definition reply_runs :: "libc \<Rightarrow> bool \<Rightarrow> nat \<Rightarrow> 'd aesd_file \<Rightarrow> 'd \<Rightarrow> conn \<Rightarrow> byte list \<Rightarrow>
    bool \<times> 'd \<times> conn \<times> byte list \<Rightarrow> bool" where
  "reply_runs L in_packet n F d c p = (\<lambda>(sent, d', c', p'). \<forall>\<sigma>.
     chat_runs L F (Fetch in_packet n, \<sigma>\<lparr>dev := d, peer := c, pkt := p\<rparr>)
       (if sent \<or> \<not> in_packet then Scan n else Cleanup, \<sigma>\<lparr>dev := d', peer := c', pkt := p'\<rparr>))"

lemma reply_runs_step:
  assumes rd: "file_read F d MAX_BUF_SIZE = Some (read_bytes, bs, d1)" "read_bytes \<noteq> 0"
    and ov: "overlay p 0 bs = Some p1" and wr: "sock_write c p1 read_bytes = (w, c1)"
    and rest: "if w = read_bytes then reply_runs L k n F d1 c1 p1 r else r = (False, d1, c1, p1)"
  shows "reply_runs L k n F d c p r"
proof -
  have two: "chat_runs L F (Fetch k n, \<sigma>\<lparr>dev := d, peer := c, pkt := p\<rparr>)
      (if w = read_bytes then Fetch k n else if k then Cleanup else Scan n, \<sigma>\<lparr>dev := d1, peer := c1, pkt := p1\<rparr>)"
    for \<sigma>
    by (rule chat_runs_step [of _ _ _ "(Send k read_bytes n, \<sigma>\<lparr>dev := d1, peer := c, pkt := p1\<rparr>)"],
        use rd ov in simp, rule chat_runs_step [OF _ chat_runs_refl]) (use wr in auto)
  show ?thesis
  proof (cases "w = read_bytes")
    case True
    obtain sent d2 c2 p2 where r: "r = (sent, d2, c2, p2)" by (cases r)
    have one: "chat_runs L F (Fetch k n, \<sigma>\<lparr>dev := d, peer := c, pkt := p\<rparr>)
        (Fetch k n, \<sigma>\<lparr>dev := d1, peer := c1, pkt := p1\<rparr>)" for \<sigma>
      using two [of \<sigma>] True by simp
    have "reply_runs L k n F d1 c1 p1 r" using rest True by simp
    then show ?thesis unfolding reply_runs_def r prod.case by (intro allI chat_runs_trans [OF one]) (rule spec)
  next
    case False
    then show ?thesis using two rest by (auto simp: reply_runs_def)
  qed
qed

lemma send_back_runs: "send_back F d c p = Some r \<Longrightarrow> reply_runs L k n F d c p r"
proof (rule send_back.raw_induct [where P = "reply_runs L k n"])
  fix send F d c p r
  assume IH: "\<And>F (d :: 'a) c p r. send F d c p = Some r \<Longrightarrow> reply_runs L k n F d c p r"
    and run: "do {
         (read_bytes, bs, d') \<leftarrow> file_read F d MAX_BUF_SIZE;
         if read_bytes = 0 then Some (True, d', c, p)
         else do {
           pkt \<leftarrow> overlay p 0 bs;
           let (written, c') = sock_write c pkt read_bytes;
           if written \<noteq> read_bytes then Some (False, d', c', pkt)
           else send F d' c' pkt
         }
       } = Some r"
  then obtain read_bytes bs d1 where rd: "file_read F d MAX_BUF_SIZE = Some (read_bytes, bs, d1)"
    by (cases "file_read F d MAX_BUF_SIZE") auto
  show "reply_runs L k n F d c p r"
  proof (cases "read_bytes = 0")
    case True
    then show ?thesis using run rd by (auto simp: reply_runs_def intro!: chat_runs_step [OF _ chat_runs_refl])
  next
    case False
    then obtain p1 where ov: "overlay p 0 bs = Some p1" using run rd by (cases "overlay p 0 bs") auto
    obtain w c1 where wr: "sock_write c p1 read_bytes = (w, c1)" by (cases "sock_write c p1 read_bytes")
    show ?thesis
      by (rule reply_runs_step [OF rd False ov wr]) (use run rd ov wr False IH in \<open>auto split: if_splits\<close>)
  qed
qed

lemma send_back_chat_runs:
  assumes "send_back F (dev \<sigma>) (peer \<sigma>) (pkt \<sigma>) = Some (sent, d, c, p)"
  shows "chat_runs L F (Fetch k n, \<sigma>) (if sent \<or> \<not> k then Scan n else Cleanup, \<sigma>\<lparr>dev := d, peer := c, pkt := p\<rparr>)"
  using send_back_runs [OF assms, of L k n, unfolded reply_runs_def prod.case, rule_format, of \<sigma>] by simp

text \<open>A line: from the place where its newline was found back to the scan, or to the end.\<close>

lemma handle_line_runs:
  assumes run: "handle_line F \<sigma> = Some (go, \<tau>)"
  shows "chat_runs L F (if take (length ioctl_cmd) (buff \<sigma>) = ioctl_cmd then Seek n else Store n, \<sigma>)
           (if go then Scan n else Cleanup, \<tau>)"
proof (cases "take (length ioctl_cmd) (buff \<sigma>) = ioctl_cmd")
  case False
  obtain w d1 d2 sent d3 c p where r: "\<not> length (buff \<sigma>) < len \<sigma>"
    "file_write F (dev \<sigma>) (take (len \<sigma>) (buff \<sigma>)) = Some (w, d1)" "file_rewind F d1 = Some d2"
    "send_back F d2 (peer \<sigma>) (pkt \<sigma>) = Some (sent, d3, c, p)"
    and res: "go = sent" "\<tau> = \<sigma>\<lparr>dev := d3, peer := c, pkt := p\<rparr>"
    using run False
    by (auto simp: handle_line_def process_packet_def bind_eq_Some_conv split: if_splits)
  have "chat_runs L F (Fetch True n, \<sigma>\<lparr>dev := d2\<rparr>) (if go then Scan n else Cleanup, \<tau>)"
    using send_back_chat_runs [of F "\<sigma>\<lparr>dev := d2\<rparr>" sent d3 c p L True n] r(4) res by simp
  then have "chat_runs L F (Rewind n, \<sigma>\<lparr>dev := d1\<rparr>) (if go then Scan n else Cleanup, \<tau>)"
    by (rule chat_runs_step [rotated]) (use r(3) in simp)
  then have "chat_runs L F (Store n, \<sigma>) (if go then Scan n else Cleanup, \<tau>)"
    by (rule chat_runs_step [rotated]) (use r(1,2) in simp)
  then show ?thesis using False by simp
next
  case True
  then obtain b d c p where sr: "seek_and_read F (buff \<sigma>) (dev \<sigma>) (peer \<sigma>) (pkt \<sigma>) = Some (b, d, c, p)"
    and res: "go" "\<tau> = \<sigma>\<lparr>buff := b, dev := d, peer := c, pkt := p\<rparr>"
    using run by (auto simp: handle_line_def bind_eq_Some_conv)
  obtain a1 b1 p1 a2 b2 p2 a3 p3 where tok: "strtok tok_delim 0 (buff \<sigma>) = Some (a1, b1, p1)"
    "strtok tok_delim p1 b1 = Some (a2, b2, p2)" "strtok tok_delim p2 b2 = Some (a3, b, p3)"
    using sr by (auto simp: seek_and_read_def bind_eq_Some_conv split: option.splits if_splits)
  have "chat_runs L F (Seek n, \<sigma>) (Scan n, \<tau>)"
  proof (cases "a1 = None \<or> a2 = None \<or> a3 = None")
    case True
    then have "chat_step L F (Seek n, \<sigma>) = Some (Scan n, \<tau>)"
      using sr tok res by (auto simp: seek_and_read_def split: option.splits)
    then show ?thesis by (rule chat_runs_step) simp
  next
    case False
    then obtain i1 i2 i3 where a: "a1 = Some i1" "a2 = Some i2" "a3 = Some i3" by auto
    obtain r d1 where sk: "file_seekto F (dev \<sigma>) \<lparr>write_cmd = atoi (c_str b i2), write_cmd_offset = atoi (c_str b i3)\<rparr> =
        Some (r, d1)"
      using sr tok a by (auto simp: seek_and_read_def bind_eq_Some_conv)
    then have st: "chat_step L F (Seek n, \<sigma>) =
        Some (if r \<noteq> 0 then Scan n else Fetch False n, \<sigma>\<lparr>buff := b, dev := d1\<rparr>)"
      using tok a by simp
    show ?thesis
    proof (cases "r = 0")
      case True
      then obtain sent where "send_back F d1 (peer \<sigma>) (pkt \<sigma>) = Some (sent, d, c, p)"
        using sr tok a sk by (auto simp: seek_and_read_def bind_eq_Some_conv)
      then have "chat_runs L F (Fetch False n, \<sigma>\<lparr>buff := b, dev := d1\<rparr>) (Scan n, \<tau>)"
        using send_back_chat_runs [of F "\<sigma>\<lparr>buff := b, dev := d1\<rparr>" sent d c p L False n] res by simp
      then show ?thesis by (rule chat_runs_step [rotated]) (use st True in simp)
    next
      case False
      then have "\<tau> = \<sigma>\<lparr>buff := b, dev := d1\<rparr>"
        using sr tok a sk res by (cases \<sigma>) (simp add: seek_and_read_def)
      then show ?thesis using False st by (intro chat_runs_step [OF st]) simp
    qed
  qed
  then show ?thesis using True res by simp
qed

lemma scan_chunk_runs:
  "scan_chunk F n \<sigma> = Some (go, \<tau>) \<Longrightarrow> chat_runs L F (Scan n, \<sigma>) (if go then Scan 0 else Cleanup, \<tau>)"
proof (induction n arbitrary: \<sigma>)
  case 0
  then show ?case by simp
next
  case (Suc n)
  let ?\<sigma> = "\<sigma>\<lparr>len := Suc (len \<sigma>)\<rparr>"
  from Suc.prems obtain b where b: "nth_opt (buff \<sigma>) (len \<sigma>) = Some b" by (auto simp: bind_eq_Some_conv)
  show ?case
  proof (cases "b = newline")
    case True
    then obtain go1 \<tau>1 where line: "handle_line F ?\<sigma> = Some (go1, \<tau>1)"
      and rest: "if go1 then scan_chunk F n \<tau>1 = Some (go, \<tau>) else (go, \<tau>) = (False, \<tau>1)"
      using Suc.prems b by (auto simp: bind_eq_Some_conv split: if_splits)
    have "chat_runs L F (if go1 then Scan n else Cleanup, \<tau>1) (if go then Scan 0 else Cleanup, \<tau>)"
      using rest Suc.IH by (auto split: if_splits)
    from chat_runs_trans [OF handle_line_runs [OF line] this] show ?thesis
      by (rule chat_runs_step [rotated]) (use b True in simp)
  next
    case False
    then have "scan_chunk F n ?\<sigma> = Some (go, \<tau>)" using Suc.prems b by simp
    from Suc.IH [OF this] show ?thesis by (rule chat_runs_step [rotated]) (use b False in simp)
  qed
qed

lemma chat_loop_runs: "chat_loop L F \<sigma> = Some \<tau> \<Longrightarrow> chat_runs L F (Receive, \<sigma>) (Exited, \<tau>)"
proof (rule chat_loop.raw_induct [where P = "\<lambda>L F \<sigma> \<tau>. chat_runs L F (Receive, \<sigma>) (Exited, \<tau>)"])
  fix loop L F and \<sigma> \<tau> :: "'a session"
  assume IH: "\<And>L F (\<sigma> :: 'a session) \<tau>. loop L F \<sigma> = Some \<tau> \<Longrightarrow> chat_runs L F (Receive, \<sigma>) (Exited, \<tau>)"
    and run: "do {
       let (n, bs, c) = sock_read (peer \<sigma>) MAX_BUF_SIZE;
       if n = 0 then Some (\<sigma>\<lparr>peer := c\<rparr>)
       else do {
         b \<leftarrow> overlay (buff \<sigma>) (len \<sigma>) bs;
         (go, \<sigma>1) \<leftarrow> scan_chunk F MAX_BUF_SIZE (\<sigma>\<lparr>buff := b, peer := c\<rparr>);
         if \<not> go then Some \<sigma>1
         else if 2 ^ 31 \<le> len \<sigma>1 + MAX_BUF_SIZE then None
         else case c_realloc L (buff \<sigma>1) (len \<sigma>1 + MAX_BUF_SIZE) of
             Some b' \<Rightarrow> loop L F (\<sigma>1\<lparr>buff := b'\<rparr>)
           | None \<Rightarrow> if fst (sock_read (peer \<sigma>1) MAX_BUF_SIZE) = 0 then Some \<sigma>1 else None
       }
     } = Some \<tau>"
  have done_: "chat_runs L F (Cleanup, \<tau>) (Exited, \<tau>)" by (rule chat_runs_step [OF _ chat_runs_refl]) simp
  obtain n bs c where rd: "sock_read (peer \<sigma>) MAX_BUF_SIZE = (n, bs, c)" by (cases "sock_read (peer \<sigma>) MAX_BUF_SIZE")
  show "chat_runs L F (Receive, \<sigma>) (Exited, \<tau>)"
  proof (cases "n = 0")
    case True
    then show ?thesis using run rd by (intro chat_runs_step [OF _ done_]) simp
  next
    case False
    then obtain b go \<sigma>1 where ov: "overlay (buff \<sigma>) (len \<sigma>) bs = Some b"
      and scan: "scan_chunk F MAX_BUF_SIZE (\<sigma>\<lparr>buff := b, peer := c\<rparr>) = Some (go, \<sigma>1)"
      using run rd by (auto simp: bind_eq_Some_conv)
    have "chat_runs L F (if go then Scan 0 else Cleanup, \<sigma>1) (Exited, \<tau>)"
    proof (cases go)
      case True
      let ?r = "c_realloc L (buff \<sigma>1) (len \<sigma>1 + MAX_BUF_SIZE)"
      have small: "\<not> 2 ^ 31 \<le> len \<sigma>1 + MAX_BUF_SIZE"
        and rest: "(case ?r of Some b' \<Rightarrow> loop L F (\<sigma>1\<lparr>buff := b'\<rparr>)
           | None \<Rightarrow> if fst (sock_read (peer \<sigma>1) MAX_BUF_SIZE) = 0 then Some \<sigma>1 else None) = Some \<tau>"
        using run rd False ov scan True by (auto split: if_splits)
      show ?thesis
      proof (cases ?r)
        case None
        then have "chat_step L F (Scan 0, \<sigma>1) = Some (Cleanup, \<tau>)" using small rest by (auto split: if_splits)
        from chat_runs_step [OF this done_] True show ?thesis by simp
      next
        case (Some b')
        then have "chat_runs L F (Receive, \<sigma>1\<lparr>buff := b'\<rparr>) (Exited, \<tau>)" using IH rest by simp
        then show ?thesis using True by (intro chat_runs_step [rotated, where x = "(if go then Scan 0 else Cleanup, \<sigma>1)"])
            (use small Some True in simp_all)
      qed
    next
      case stop: False
      then show ?thesis using run rd False ov scan done_ by simp
    qed
    from chat_runs_trans [OF scan_chunk_runs [OF scan] this] show ?thesis
      by (rule chat_runs_step [rotated]) (use rd False ov in simp)
  qed
qed

section \<open>From the steps to the functions\<close>

text \<open>What the functions make of the rest of the thread, from any place of it.\<close>

definition after_scan :: "libc \<Rightarrow> 'd aesd_file \<Rightarrow> bool \<times> 'd session \<Rightarrow> 'd session option" where
  "after_scan L F = (\<lambda>(go, \<sigma>).
     if \<not> go then Some \<sigma>
     else if 2 ^ 31 \<le> len \<sigma> + MAX_BUF_SIZE then None
     else case c_realloc L (buff \<sigma>) (len \<sigma> + MAX_BUF_SIZE) of
         Some b \<Rightarrow> chat_loop L F (\<sigma>\<lparr>buff := b\<rparr>)
       | None \<Rightarrow> if fst (sock_read (peer \<sigma>) MAX_BUF_SIZE) = 0 then Some \<sigma> else None)"

definition scan_on :: "libc \<Rightarrow> 'd aesd_file \<Rightarrow> nat \<Rightarrow> (bool \<times> 'd session) option \<Rightarrow> 'd session option" where
  "scan_on L F n r =
     do {
       (go, \<sigma>) \<leftarrow> r;
       x \<leftarrow> if go then scan_chunk F n \<sigma> else Some (False, \<sigma>);
       after_scan L F x
     }"

definition reply_on :: "libc \<Rightarrow> 'd aesd_file \<Rightarrow> bool \<Rightarrow> nat \<Rightarrow> 'd session \<Rightarrow>
    (bool \<times> 'd \<times> conn \<times> byte list) option \<Rightarrow> 'd session option" where
  "reply_on L F in_packet n \<sigma> r =
     scan_on L F n (do {
       (sent, d, c, p) \<leftarrow> r;
       Some (sent \<or> \<not> in_packet, \<sigma>\<lparr>dev := d, peer := c, pkt := p\<rparr>)
     })"

fun chat_rest :: "libc \<Rightarrow> 'd aesd_file \<Rightarrow> chat_pc \<times> 'd session \<Rightarrow> 'd session option" where
  "chat_rest L F (Receive, \<sigma>) = chat_loop L F \<sigma>"
| "chat_rest L F (Scan n, \<sigma>) = scan_on L F n (Some (True, \<sigma>))"
| "chat_rest L F (Store n, \<sigma>) =
     do {
       (rc, d, c, p) \<leftarrow> process_packet F (peer \<sigma>) (len \<sigma>) (buff \<sigma>) (dev \<sigma>) (pkt \<sigma>);
       scan_on L F n (Some (rc = 0, \<sigma>\<lparr>dev := d, peer := c, pkt := p\<rparr>))
     }"
| "chat_rest L F (Rewind n, \<sigma>) =
     do { d \<leftarrow> file_rewind F (dev \<sigma>); reply_on L F True n \<sigma> (send_back F d (peer \<sigma>) (pkt \<sigma>)) }"
| "chat_rest L F (Seek n, \<sigma>) =
     do {
       (b, d, c, p) \<leftarrow> seek_and_read F (buff \<sigma>) (dev \<sigma>) (peer \<sigma>) (pkt \<sigma>);
       scan_on L F n (Some (True, \<sigma>\<lparr>buff := b, dev := d, peer := c, pkt := p\<rparr>))
     }"
| "chat_rest L F (Fetch k n, \<sigma>) = reply_on L F k n \<sigma> (send_back F (dev \<sigma>) (peer \<sigma>) (pkt \<sigma>))"
| "chat_rest L F (Send k r n, \<sigma>) =
     (let (w, c) = sock_write (peer \<sigma>) (pkt \<sigma>) r in
      reply_on L F k n \<sigma>
        (if w \<noteq> r then Some (False, dev \<sigma>, c, pkt \<sigma>) else send_back F (dev \<sigma>) c (pkt \<sigma>)))"
| "chat_rest L F (Cleanup, \<sigma>) = Some \<sigma>"
| "chat_rest L F (Exited, \<sigma>) = Some \<sigma>"

lemma reply_on_frame [simp]:
  "reply_on L F k n (\<sigma>\<lparr>dev := d\<rparr>) r = reply_on L F k n \<sigma> r"
  "reply_on L F k n (\<sigma>\<lparr>peer := c\<rparr>) r = reply_on L F k n \<sigma> r"
  "reply_on L F k n (\<sigma>\<lparr>pkt := p\<rparr>) r = reply_on L F k n \<sigma> r"
  by (simp_all add: reply_on_def)

lemma scan_on_stop [simp]: "scan_on L F n (Some (False, \<sigma>)) = Some \<sigma>"
  by (simp add: scan_on_def after_scan_def)

lemma session_id [simp]: "\<sigma>\<lparr>dev := d, peer := peer \<sigma>, pkt := pkt \<sigma>\<rparr> = \<sigma>\<lparr>dev := d\<rparr>"
  "\<sigma>\<lparr>dev := dev \<sigma>, peer := c, pkt := pkt \<sigma>\<rparr> = \<sigma>\<lparr>peer := c\<rparr>"
  by (cases \<sigma>; simp)+

lemma chat_rest_scan:
  assumes "chat_step L F (Scan (Suc n), \<sigma>) = Some y"
  shows "chat_rest L F (Scan (Suc n), \<sigma>) = chat_rest L F y"
proof -
  from assms obtain b where "nth_opt (buff \<sigma>) (len \<sigma>) = Some b" by (auto simp: bind_eq_Some_conv)
  then show ?thesis
    using assms
    by (cases "process_packet F (peer \<sigma>) (Suc (len \<sigma>)) (buff \<sigma>) (dev \<sigma>) (pkt \<sigma>)";
        cases "seek_and_read F (buff \<sigma>) (dev \<sigma>) (peer \<sigma>) (pkt \<sigma>)")
      (auto simp: scan_on_def handle_line_def after_scan_def Let_def)
qed

lemma chat_rest_fetch:
  assumes "chat_step L F (Fetch k n, \<sigma>) = Some y"
  shows "chat_rest L F (Fetch k n, \<sigma>) = chat_rest L F y"
proof -
  from assms obtain r bs d where rd: "file_read F (dev \<sigma>) MAX_BUF_SIZE = Some (r, bs, d)"
    by (auto simp: bind_eq_Some_conv)
  show ?thesis
  proof (cases "r = 0")
    case True
    then have "y = (Scan n, \<sigma>\<lparr>dev := d\<rparr>)" using assms rd by simp
    then show ?thesis using rd True by (simp add: send_back.simps [of F "dev \<sigma>"] reply_on_def)
  next
    case False
    then obtain p where "overlay (pkt \<sigma>) 0 bs = Some p" "y = (Send k r n, \<sigma>\<lparr>dev := d, pkt := p\<rparr>)"
      using assms rd by (auto simp: bind_eq_Some_conv)
    then show ?thesis using rd False
      by (simp add: send_back.simps [of F "dev \<sigma>"] split: prod.split)
  qed
qed

lemma chat_rest_seek:
  assumes "chat_step L F (Seek n, \<sigma>) = Some y"
  shows "chat_rest L F (Seek n, \<sigma>) = chat_rest L F y"
proof -
  obtain a1 b1 p1 a2 b2 p2 a3 b3 p3 where tok: "strtok tok_delim 0 (buff \<sigma>) = Some (a1, b1, p1)"
    "strtok tok_delim p1 b1 = Some (a2, b2, p2)" "strtok tok_delim p2 b2 = Some (a3, b3, p3)"
    using assms by (auto simp: bind_eq_Some_conv)
  show ?thesis
  proof (cases "a1 = None \<or> a2 = None \<or> a3 = None")
    case True
    then have "y = (Scan n, \<sigma>\<lparr>buff := b3\<rparr>)" using assms tok by (cases a1; cases a2; cases a3) simp_all
    then show ?thesis using True tok by (cases \<sigma>) (auto simp: seek_and_read_def split: option.splits)
  next
    case False
    then obtain i1 i2 i3 where a: "a1 = Some i1" "a2 = Some i2" "a3 = Some i3" by auto
    then obtain r d where sk: "file_seekto F (dev \<sigma>) \<lparr>write_cmd = atoi (c_str b3 i2), write_cmd_offset = atoi (c_str b3 i3)\<rparr> =
        Some (r, d)" and y: "y = (if r \<noteq> 0 then Scan n else Fetch False n, \<sigma>\<lparr>buff := b3, dev := d\<rparr>)"
      using assms tok by (auto simp: bind_eq_Some_conv)
    show ?thesis
    proof (cases "r = 0")
      case True
      then show ?thesis using tok a sk y
        by (cases "send_back F d (peer \<sigma>) (pkt \<sigma>)") (auto simp: seek_and_read_def reply_on_def scan_on_def)
    next
      case False
      then show ?thesis using tok a sk y by (cases \<sigma>) (simp add: seek_and_read_def)
    qed
  qed
qed

lemma chat_rest_step: "chat_step L F x = Some y \<Longrightarrow> chat_rest L F x = chat_rest L F y"
proof (induction L F x rule: chat_step.induct)
  case (1 L F \<sigma>)
  obtain n bs c where rd: "sock_read (peer \<sigma>) MAX_BUF_SIZE = (n, bs, c)" by (cases "sock_read (peer \<sigma>) MAX_BUF_SIZE")
  have "(\<lambda>(go, \<sigma>1). if \<not> go then Some \<sigma>1
      else if 2 ^ 31 \<le> len \<sigma>1 + MAX_BUF_SIZE then None
      else case c_realloc L (buff \<sigma>1) (len \<sigma>1 + MAX_BUF_SIZE) of
          None \<Rightarrow> if fst (sock_read (peer \<sigma>1) MAX_BUF_SIZE) = 0 then Some \<sigma>1 else None
        | Some b' \<Rightarrow> chat_loop L F (\<sigma>1\<lparr>buff := b'\<rparr>)) = after_scan L F"
    by (simp add: after_scan_def)
  with 1 rd show ?case
    by (subst chat_rest.simps, subst chat_loop.simps) (auto simp: bind_eq_Some_conv scan_on_def split: if_splits)
next
  case (2 L F \<sigma>)
  then show ?case by (auto simp: scan_on_def after_scan_def split: if_splits option.splits)
next
  case (4 L F n \<sigma>)
  then obtain w d where w: "file_write F (dev \<sigma>) (take (len \<sigma>) (buff \<sigma>)) = Some (w, d)"
    "\<not> length (buff \<sigma>) < len \<sigma>" "y = (Rewind n, \<sigma>\<lparr>dev := d\<rparr>)"
    by (auto simp: bind_eq_Some_conv split: if_splits)
  then show ?case
    by (cases "file_rewind F d"; cases "send_back F (the (file_rewind F d)) (peer \<sigma>) (pkt \<sigma>)")
      (auto simp: process_packet_def reply_on_def scan_on_def)
next
  case (5 L F n \<sigma>)
  then show ?case by (auto simp: bind_eq_Some_conv)
next
  case (8 L F k r n \<sigma>)
  then show ?case by (auto simp: reply_on_def scan_on_def after_scan_def split: prod.splits if_splits)
next
  case (9 L F \<sigma>)
  then show ?case by auto
qed (auto intro: chat_rest_scan chat_rest_seek chat_rest_fetch simp del: chat_step.simps(1-9) chat_rest.simps)

lemma chat_rest_runs: "chat_runs L F x y \<Longrightarrow> chat_rest L F x = chat_rest L F y"
  unfolding chat_runs_def by (induction rule: rtranclp_induct) (simp_all add: chat_rest_step)

section \<open>Steps and functions agree\<close>



end
