(* ===== verification/Shared_Device.thy ===== *)
theory Shared_Device
  imports Connection_Steps
begin

text \<open>
  All connections of the server over one device.  Every connection has its own open file, its own
  buffers and its own thread; the device is shared.  \<open>serve_step\<close> lets any thread run one call
  further, opens a connection or collects a thread that has ended; nothing but the driver orders
  the calls of different threads, since the build for the character device takes no lock around
  a packet.  The theory shows that every run is a sequence of system calls in the sense of
  \<open>Device_Traces\<close>, that the device then holds the last packets, each whole, and when the calls of
  the threads return.
\<close>

section \<open>Threads over one device\<close>

type_synonym task = "chat_pc \<times> kfile session"

definition attach :: "kstate \<Rightarrow> kfile session \<Rightarrow> (kstate \<times> kfile) session" where
  "attach k \<sigma> = \<lparr>buff = buff \<sigma>, len = len \<sigma>, dev = (k, dev \<sigma>), peer = peer \<sigma>, pkt = pkt \<sigma>\<rparr>"

definition detach :: "(kstate \<times> kfile) session \<Rightarrow> kfile session" where
  "detach \<sigma> = \<lparr>buff = buff \<sigma>, len = len \<sigma>, dev = snd (dev \<sigma>), peer = peer \<sigma>, pkt = pkt \<sigma>\<rparr>"

lemma attach_sel [simp]:
  "buff (attach k \<sigma>) = buff \<sigma>" "len (attach k \<sigma>) = len \<sigma>" "dev (attach k \<sigma>) = (k, dev \<sigma>)"
  "peer (attach k \<sigma>) = peer \<sigma>" "pkt (attach k \<sigma>) = pkt \<sigma>"
  by (simp_all add: attach_def)

lemma detach_sel [simp]:
  "buff (detach \<tau>) = buff \<tau>" "len (detach \<tau>) = len \<tau>" "dev (detach \<tau>) = snd (dev \<tau>)"
  "peer (detach \<tau>) = peer \<tau>" "pkt (detach \<tau>) = pkt \<tau>"
  by (simp_all add: detach_def)

lemma attach_detach [simp]: "attach (fst (dev \<tau>)) (detach \<tau>) = \<tau>" "detach (attach k \<sigma>) = \<sigma>"
  by (simp_all add: attach_def detach_def)

text \<open>The first lines of the thread: without memory for the packet buffer it goes to its end.\<close>

definition thread_start :: "libc \<Rightarrow> client_queue \<Rightarrow> kfile \<Rightarrow> conn \<Rightarrow> task" where
  "thread_start L e f c =
     (case c_malloc L MAX_BUF_SIZE of
        None \<Rightarrow> (Cleanup, \<lparr>buff = [], len = 0, dev = f, peer = c, pkt = write_back_pkt e\<rparr>)
      | Some block \<Rightarrow> chat_start block e f c)"

text \<open>The packet a call puts into the device, judged by the result of \<^verbatim>\<open>write\<close>.\<close>

definition packet_stored :: "'d aesd_file \<Rightarrow> chat_pc \<times> 'd session \<Rightarrow> byte list list" where
  "packet_stored F x =
     (case x of
        (Store n, \<sigma>) \<Rightarrow>
          (case file_write F (dev \<sigma>) (take (len \<sigma>) (buff \<sigma>)) of
             None \<Rightarrow> []
           | Some (write_bytes, d) \<Rightarrow> if write_bytes = int (len \<sigma>) then [take (len \<sigma>) (buff \<sigma>)] else [])
      | _ \<Rightarrow> [])"

text \<open>
  A call of a thread may meet any kernel that keeps its contract and satisfies \<open>ok\<close>; for a \<^verbatim>\<open>write\<close>
  the two failures that \<open>call_ok\<close> names are left out.
\<close>

definition store_ok :: "kernel \<Rightarrow> uaddr \<Rightarrow> kstate \<Rightarrow> task \<Rightarrow> bool" where
  "store_ok K a k x =
     (case x of
        (Store n, \<sigma>) \<Rightarrow>
          call_ok K (Sys_write a (of_nat (len \<sigma>))) (k\<lparr>user := ustore (user k) a (take (len \<sigma>) (buff \<sigma>))\<rparr>)
      | _ \<Rightarrow> True)"

inductive serve_step ::
  "(kernel \<Rightarrow> bool) \<Rightarrow> kstate \<times> (nat \<rightharpoonup> task) \<Rightarrow> byte list list \<Rightarrow> kstate \<times> (nat \<rightharpoonup> task) \<Rightarrow> bool"
  for ok where
  serve_connect: "ts i = None \<Longrightarrow> aesd_open Dev_aesd_device \<lparr>f_pos = 0, private_data = Dev_NULL\<rparr> = (0, f) \<Longrightarrow>
     libc_ok L \<Longrightarrow> length (write_back_pkt e) = MAX_BUF_SIZE \<Longrightarrow>
     serve_step ok (k, ts) [] (k, ts(i \<mapsto> thread_start L e f c))"
| serve_call: "ts i = Some (pc, \<sigma>) \<Longrightarrow> kernel_ok K \<Longrightarrow> ok K \<Longrightarrow> libc_ok L \<Longrightarrow> store_ok K a k (pc, \<sigma>) \<Longrightarrow>
     chat_step L (driver_file K a) (pc, attach k \<sigma>) = Some (pc', \<tau>) \<Longrightarrow>
     serve_step ok (k, ts) (packet_stored (driver_file K a) (pc, attach k \<sigma>))
       (fst (dev \<tau>), ts(i \<mapsto> (pc', detach \<tau>)))"
| serve_collect: "ts i = Some (Exited, \<sigma>) \<Longrightarrow> aesd_release (dev \<sigma>) = (0, f) \<Longrightarrow>
     serve_step ok (k, ts) [] (k, ts(i := None))"

inductive serve_reach :: "kstate \<times> (nat \<rightharpoonup> task) \<Rightarrow> byte list list \<Rightarrow> bool" where
  serve_load: "aesd_init_module K s0 = (0, k) \<Longrightarrow> serve_reach (k, Map.empty) []"
| serve_more: "serve_reach x hist \<Longrightarrow> serve_step (\<lambda>K. True) x w y \<Longrightarrow> serve_reach y (hist @ w)"

section \<open>A thread keeps its counters in range\<close>

definition room :: "'d session \<Rightarrow> nat \<Rightarrow> bool" where
  "room \<sigma> n \<longleftrightarrow> len \<sigma> + n < 2 ^ 31 \<and> len \<sigma> + n \<le> length (buff \<sigma>) \<and> length (pkt \<sigma>) = MAX_BUF_SIZE"

fun task_ok :: "chat_pc \<times> 'd session \<Rightarrow> bool" where
  "task_ok (Receive, \<sigma>) \<longleftrightarrow> room \<sigma> MAX_BUF_SIZE"
| "task_ok (Store n, \<sigma>) \<longleftrightarrow> room \<sigma> n \<and> take (len \<sigma>) (buff \<sigma>) \<noteq> [] \<and> last (take (len \<sigma>) (buff \<sigma>)) = newline"
| "task_ok (Scan n, \<sigma>) \<longleftrightarrow> room \<sigma> n"
| "task_ok (Rewind n, \<sigma>) \<longleftrightarrow> room \<sigma> n"
| "task_ok (Seek n, \<sigma>) \<longleftrightarrow> room \<sigma> n"
| "task_ok (Fetch k n, \<sigma>) \<longleftrightarrow> room \<sigma> n"
| "task_ok (Send k r n, \<sigma>) \<longleftrightarrow> room \<sigma> n"
| "task_ok (Cleanup, \<sigma>) \<longleftrightarrow> True"
| "task_ok (Exited, \<sigma>) \<longleftrightarrow> True"

lemma strtok_length: "strtok delim p buf = Some (a, buf', p') \<Longrightarrow> length buf' = length buf"
  by (auto simp: strtok_def bind_eq_Some_conv split: if_splits)

lemma overlay_length: "overlay b n bs = Some b' \<Longrightarrow> length b' = length b"
  by (auto simp: overlay_def split: if_splits)

lemma chat_step_ok: "chat_step L F x = Some y \<Longrightarrow> libc_ok L \<Longrightarrow> task_ok x \<Longrightarrow> task_ok y"
proof (induction L F x rule: chat_step.induct)
  case (2 L F \<sigma>)
  then show ?case by (auto simp: room_def libc_ok_def split: if_splits option.splits)
next
  case (3 L F n \<sigma>)
  then obtain b where b: "nth_opt (buff \<sigma>) (len \<sigma>) = Some b" by (auto simp: bind_eq_Some_conv)
  then have "len \<sigma> < length (buff \<sigma>)" "buff \<sigma> ! len \<sigma> = b" by (auto simp: nth_opt_def split: if_splits)
  then show ?case using 3 b by (auto simp: room_def take_Suc_conv_app_nth Let_def split: if_splits)
next
  case (6 L F n \<sigma>)
  then show ?case
    by (auto simp: room_def bind_eq_Some_conv Let_def dest!: strtok_length split: option.splits if_splits)
qed (auto simp: room_def bind_eq_Some_conv dest!: overlay_length split: if_splits option.splits prod.splits)

lemma task_ok_start:
  "libc_ok L \<Longrightarrow> length (write_back_pkt e) = MAX_BUF_SIZE \<Longrightarrow> task_ok (thread_start L e f c)"
  by (auto simp: thread_start_def chat_start_def room_def libc_ok_def MAX_BUF_SIZE_def split: option.split)

lemma task_ok_attach [simp]: "task_ok (pc, attach k \<sigma>) = task_ok (pc, \<sigma>)" "task_ok (pc, detach \<tau>) = task_ok (pc, \<tau>)"
  by (cases pc; simp add: room_def)+

section \<open>Every run is a sequence of system calls\<close>

definition task_files :: "(nat \<rightharpoonup> task) \<Rightarrow> nat \<rightharpoonup> kfile" where
  "task_files ts = (\<lambda>i. map_option (dev \<circ> snd) (ts i))"

lemma task_files_simps [simp]:
  "task_files Map.empty = Map.empty" "task_files (ts(i \<mapsto> x)) = (task_files ts)(i \<mapsto> dev (snd x))"
  "task_files (ts(i := None)) = (task_files ts)(i := None)" "ts i = Some x \<Longrightarrow> task_files ts i = Some (dev (snd x))"
  by (auto simp: task_files_def)

lemma trace_call:
  assumes "dev_reach (k, fs) hist" and "fs i = Some f" and "kernel_ok K" and "call_ok K c (k\<lparr>user := um\<rparr>)"
    and "vfs_call K c (k\<lparr>user := um\<rparr>) f = Some (r, k', f')"
  shows "dev_reach (k', fs(i \<mapsto> f')) (hist @ stored c (k\<lparr>user := um\<rparr>) r)"
proof -
  have "dev_reach (k\<lparr>user := um\<rparr>, fs) (hist @ [])" by (rule reach_step [OF assms(1) step_user])
  from reach_step [OF this step_call [of fs i f K c "k\<lparr>user := um\<rparr>" r k' f']] assms(2-5) show ?thesis by simp
qed

lemma libc_ret_length:
  assumes "n < 2 ^ 31"
  shows "libc_ret r = int n \<longleftrightarrow> r = of_nat n \<and> 0 \<le> sint r"
proof -
  have "n < 2 ^ 63" using assms by simp
  then have "sint (of_nat n :: 64 word) = int n" by (rule libc_ret_of_nat(2))
  moreover have "r = of_nat n" if "sint r = int n"
  proof -
    have "word_of_int (sint r) = r" by simp
    then show ?thesis unfolding that by simp
  qed
  ultimately show ?thesis by (auto simp: libc_ret_def)
qed

lemma write_trace:
  assumes run: "file_write (driver_file K a) (k, f) bs = Some (w, d)"
    and reach: "dev_reach (k, fs) hist" and f: "fs i = Some f" and K: "kernel_ok K"
    and ok: "call_ok K (Sys_write a (of_nat (length bs))) (k\<lparr>user := ustore (user k) a bs\<rparr>)"
    and n: "length bs < 2 ^ 31"
  shows "dev_reach (fst d, fs(i \<mapsto> snd d)) (hist @ (if w = int (length bs) then [bs] else []))"
proof -
  let ?s = "k\<lparr>user := ustore (user k) a bs\<rparr>"
  obtain r k' f' where r: "vfs_call K (Sys_write a (of_nat (length bs))) ?s f = Some (r, k', f')"
    "w = libc_ret r" "d = (k', f')"
    using run by (auto simp: driver_file_def bind_eq_Some_conv simp del: vfs_call.simps)
  have "unat (of_nat (length bs) :: size_t) = length bs" using n by (intro unat_of_nat_size) simp
  then have "uload (user ?s) a (unat (of_nat (length bs) :: size_t)) = bs" using n by (simp add: uload_ustore)
  then have "stored (Sys_write a (of_nat (length bs))) ?s r = (if w = int (length bs) then [bs] else [])"
    using libc_ret_length [OF n, of r] r(2) by auto
  with trace_call [OF reach f K ok r(1)] show ?thesis by (simp only: r(3) fst_conv snd_conv)
qed

lemma other_calls_trace:
  assumes reach: "dev_reach (k, fs) hist" and f: "fs i = Some f" and K: "kernel_ok K"
  shows "file_rewind (driver_file K a) (k, f) = Some d \<Longrightarrow> dev_reach (fst d, fs(i \<mapsto> snd d)) hist"
    and "file_read (driver_file K a) (k, f) n = Some (r, bs, d) \<Longrightarrow> dev_reach (fst d, fs(i \<mapsto> snd d)) hist"
    and "file_seekto (driver_file K a) (k, f) t = Some (q, d) \<Longrightarrow> dev_reach (fst d, fs(i \<mapsto> snd d)) hist"
proof -
  note tr = trace_call [OF reach f K]
  show "dev_reach (fst d, fs(i \<mapsto> snd d)) hist" if "file_rewind (driver_file K a) (k, f) = Some d"
    using that tr [of "Sys_lseek 0 SEEK_SET" "user k"]
    by (auto simp: driver_file_def bind_eq_Some_conv simp del: vfs_call.simps)
  show "dev_reach (fst d, fs(i \<mapsto> snd d)) hist" if "file_read (driver_file K a) (k, f) n = Some (r, bs, d)"
    using that tr [of "Sys_read a (of_nat n)" "user k"]
    by (auto simp: driver_file_def bind_eq_Some_conv simp del: vfs_call.simps)
  show "dev_reach (fst d, fs(i \<mapsto> snd d)) hist" if "file_seekto (driver_file K a) (k, f) t = Some (q, d)"
    using that tr [of "Sys_ioctl (AESDCHAR_IOCSEEKTO K) a" "ustore (user k) a (seekto_bytes t)"]
    by (auto simp: driver_file_def bind_eq_Some_conv simp del: vfs_call.simps)
qed

lemma chat_step_trace:
  assumes reach: "dev_reach (k, fs) hist" and f: "fs i = Some (dev \<sigma>)" and K: "kernel_ok K"
    and store: "store_ok K a k (pc, \<sigma>)" and ok: "task_ok (pc, \<sigma>)"
    and run: "chat_step L (driver_file K a) (pc, attach k \<sigma>) = Some (pc', \<tau>)"
  shows "dev_reach (fst (dev \<tau>), fs(i \<mapsto> snd (dev \<tau>))) (hist @ packet_stored (driver_file K a) (pc, attach k \<sigma>))"
proof -
  note tr = other_calls_trace [OF reach f K]
  have same: "dev_reach (k, fs(i \<mapsto> dev \<sigma>)) hist" using reach f by (simp add: map_upd_triv)
  show ?thesis
  proof (cases pc)
    case (Scan n)
    then show ?thesis using run same
      by (cases n) (auto simp: packet_stored_def bind_eq_Some_conv Let_def split: if_splits option.splits)
  next
    case (Store n)
    then obtain w d where w: "file_write (driver_file K a) (k, dev \<sigma>) (take (len \<sigma>) (buff \<sigma>)) = Some (w, d)"
      "dev \<tau> = d" "len \<sigma> \<le> length (buff \<sigma>)"
      using run by (auto simp: bind_eq_Some_conv split: if_splits)
    then have l: "length (take (len \<sigma>) (buff \<sigma>)) = len \<sigma>" by simp
    show ?thesis
      using write_trace [OF w(1) reach f K] w store ok l Store
      by (cases "w = int (len \<sigma>)") (simp_all add: packet_stored_def store_ok_def room_def)
  next
    case (Seek n)
    then show ?thesis using run same tr(3)
      by (auto simp: packet_stored_def bind_eq_Some_conv Let_def split: option.splits)
  qed (use run same tr(1,2) in \<open>auto simp: packet_stored_def bind_eq_Some_conv split: if_splits prod.splits\<close>)
qed

text \<open>Every packet stored ends in the newline that completed it.\<close>

definition is_packet :: "byte list \<Rightarrow> bool" where
  "is_packet bs \<longleftrightarrow> bs \<noteq> [] \<and> last bs = newline"

lemma packet_stored_newline: "task_ok x \<Longrightarrow> bs \<in> set (packet_stored F x) \<Longrightarrow> is_packet bs"
  by (cases x; cases "fst x") (auto simp: packet_stored_def is_packet_def split: option.splits if_splits)

lemma is_packet_newline: "is_packet bs \<Longrightarrow> newline \<in> set bs"
  by (metis is_packet_def last_in_set)

definition serve_inv :: "kstate \<times> (nat \<rightharpoonup> task) \<Rightarrow> byte list list \<Rightarrow> bool" where
  "serve_inv x hist \<longleftrightarrow>
     dev_reach (fst x, task_files (snd x)) hist \<and> (\<forall>i t. snd x i = Some t \<longrightarrow> task_ok t) \<and>
     (\<forall>bs\<in>set hist. is_packet bs)"

lemma serve_step_inv:
  assumes "serve_step ok x w y" and "serve_inv x hist"
  shows "serve_inv y (hist @ w)"
  using assms
proof (induction rule: serve_step.induct)
  case (serve_connect ts i f L e k c)
  then have "dev_reach (k, (task_files ts)(i \<mapsto> f)) (hist @ [])"
    by (intro reach_step [OF _ step_open]) (auto simp: serve_inv_def task_files_def)
  moreover have "dev (snd (thread_start L e f c)) = f"
    by (simp add: thread_start_def chat_start_def split: option.split)
  ultimately show ?case using serve_connect task_ok_start [OF serve_connect(3,4), of f c] by (auto simp: serve_inv_def)
next
  case (serve_call ts i pc \<sigma> K L a k pc' \<tau>)
  then have t: "task_ok (pc, \<sigma>)" "dev_reach (k, task_files ts) hist" "task_files ts i = Some (dev \<sigma>)"
    by (auto simp: serve_inv_def)
  have "task_ok (pc', \<tau>)" using chat_step_ok [OF serve_call(6,4)] t(1) by simp
  moreover have "is_packet bs" if "bs \<in> set (packet_stored (driver_file K a) (pc, attach k \<sigma>))" for bs
    using packet_stored_newline [OF _ that] t(1) by simp
  ultimately show ?case
    using chat_step_trace [OF t(2,3) serve_call(2,5) t(1) serve_call(6)] serve_call by (auto simp: serve_inv_def)
next
  case (serve_collect ts i \<sigma> f k)
  then have "dev_reach (k, (task_files ts)(i := None)) (hist @ [])"
    by (intro reach_step [OF _ step_release]) (auto simp: serve_inv_def)
  then show ?case using serve_collect by (auto simp: serve_inv_def)
qed

lemma serve_reach_inv: "serve_reach x hist \<Longrightarrow> serve_inv x hist"
proof (induction rule: serve_reach.induct)
  case (serve_load K s0 k)
  then show ?case by (auto simp: serve_inv_def intro: reach_load)
next
  case (serve_more x hist w y)
  then show ?case by (blast intro: serve_step_inv)
qed

lemma cut_history_packets: "\<forall>bs\<in>set hist. newline \<in> set bs \<Longrightarrow> cut_history hist = (hist, [])"
  by (induction hist rule: rev_induct) (simp_all add: cut_history_snoc cut_write_def, simp add: cut_history_def)

lemma serve_inv_log:
  assumes "serve_inv (k, ts) hist"
  shows "dev_log k = (drop (length hist - 10) hist, [])" and "dev_inv k"
    and "ts i = Some (pc, \<sigma>) \<Longrightarrow> file_ok (dev \<sigma>)"
proof -
  have inv: "dev_reach (k, task_files ts) hist" "\<forall>bs\<in>set hist. is_packet bs"
    using assms by (simp_all add: serve_inv_def)
  then have "cut_history hist = (hist, [])" using is_packet_newline by (blast intro: cut_history_packets)
  then show "dev_log k = (drop (length hist - 10) hist, [])"
    using dev_reach_inv [OF inv(1)] by (simp add: log_history)
  show "dev_inv k" using dev_reach_inv [OF inv(1)] by (simp add: sys_inv_def)
  have "\<forall>i f. task_files ts i = Some f \<longrightarrow> file_ok f" using dev_reach_inv [OF inv(1)] by (simp add: sys_inv_def)
  moreover have "task_files ts i = Some (dev \<sigma>)" if "ts i = Some (pc, \<sigma>)" using that by simp
  ultimately show "ts i = Some (pc, \<sigma>) \<Longrightarrow> file_ok (dev \<sigma>)" by blast
qed


section \<open>The calls return\<close>

lemma scan_while_stops:
  assumes "p \<le> z" "z < length buf" "\<not> P (buf ! z)"
  shows "\<exists>i. scan_while P buf p = Some i \<and> i \<le> z \<and> \<not> P (buf ! i)"
  using assms
proof (induction "z - p" arbitrary: p)
  case 0
  then show ?case by (subst scan_while.simps) auto
next
  case (Suc m)
  then show ?case using Suc.hyps(1) [of "Suc p"] by (subst scan_while.simps) (auto simp: Suc_le_eq)
qed

lemma strtok_stops:
  assumes z: "p \<le> z" "z < length buf" "buf ! z = 0" and delim: "0 \<notin> set delim"
  obtains a buf' p' where "strtok delim p buf = Some (a, buf', p')" "p' \<le> z" "z < length buf'" "buf' ! z = 0"
proof -
  obtain i where i: "scan_while (\<lambda>b. b \<in> set delim) buf p = Some i" "i \<le> z"
    using scan_while_stops [of p z buf "\<lambda>b. b \<in> set delim"] z delim by auto
  obtain j where j: "scan_while (\<lambda>b. b \<noteq> 0 \<and> b \<notin> set delim) buf i = Some j" "j \<le> z"
    using scan_while_stops [of i z buf "\<lambda>b. b \<noteq> 0 \<and> b \<notin> set delim"] z i(2) by auto
  have "j < z" if "buf ! j \<noteq> 0" using that z(3) j(2) by (cases "j = z") auto
  then show thesis
    using that [of None buf i] that [of "Some i" buf j] that [of "Some i" "buf[j := 0]" "Suc j"] i j z
    by (cases "buf ! i = 0"; cases "buf ! j = 0") (auto simp: strtok_def)
qed

lemma vfs_read_bound:
  assumes K: "kernel_ok K" and inv: "dev_inv k" and f: "file_ok f"
    and fits: "\<forall>c\<in>set (dev_cmds k). length c \<le> MAX_BUF_SIZE"
  shows "\<exists>r bs d. file_read (driver_file K a) (k, f) n = Some (r, bs, d) \<and> length bs \<le> MAX_BUF_SIZE"
proof -
  have pd: "private_data f = Dev_aesd_device" using f by (simp add: file_ok_def)
  have m: "sint (of_nat x :: 64 word) = int x" "unat (of_nat x :: 64 word) = x" if "x \<le> MAX_BUF_SIZE" for x
    using that libc_ret_of_nat(2) [of x] unat_of_nat_size [of x] by (simp_all add: MAX_BUF_SIZE_def)
  obtain r s' p where run: "aesd_read K k f a (of_nat n) (f_pos f) = Some (r, s', p)"
    and r: "sint r \<le> 0 \<or> unat r \<le> MAX_BUF_SIZE"
  proof (cases "fst (mutex_lock_interruptible K Unlocked) = 0")
    case True
    show thesis
    proof (cases rule: find_total [OF dev_invD(1) [OF inv], of "f_pos f"])
      case 1
      then show thesis using aesd_read_end [OF K inv pd True] that by fastforce
    next
      case (2 j off)
      then have "j < length (dev_cmds k)" by (simp add: dev_cmds_def entry_ptrs_def)
      then have "length (drop (unat off) (dev_cmds k ! j)) \<le> MAX_BUF_SIZE" using fits nth_mem le_trans diff_le_self by fastforce
      then show thesis
        using that [of 0] that [of "of_nat (length (drop (unat off) (dev_cmds k ! j)))"] m(2)
          aesd_read_hit [OF K inv pd True 2(1-3), of a "of_nat n"]
        by (cases "fst (copy_to_user K (user k) a (drop (unat off) (dev_cmds k ! j))) = 0") auto
    qed
  next
    case False
    then show thesis using aesd_read_interrupted [OF K inv pd False] that by (fastforce simp: ERESTARTSYS_def)
  qed
  then show ?thesis by (auto simp: driver_file_def aesd_fops_def uload_def)
qed

lemma file_calls_return:
  assumes K: "kernel_ok K" and inv: "dev_inv k" and f: "file_ok f"
  shows "file_rewind (driver_file K a) (k, f) \<noteq> None" and "file_seekto (driver_file K a) (k, f) t \<noteq> None"
    and "call_ok K (Sys_write a (of_nat (length bs))) (k\<lparr>user := ustore (user k) a bs\<rparr>) \<Longrightarrow>
      file_write (driver_file K a) (k, f) bs \<noteq> None"
proof -
  have ret: "\<exists>r s' f'. vfs_call K c (k\<lparr>user := um\<rparr>) f = Some (r, s', f')" if "call_safe K c (k\<lparr>user := um\<rparr>)" for c um
    using vfs_call_returns [OF K _ f that] inv by (auto simp: dev_inv_update_user)
  have ret0: "\<exists>r s' f'. vfs_call K c k f = Some (r, s', f')" if "call_safe K c k" for c
    using vfs_call_returns [OF K inv f that] by blast
  show "file_rewind (driver_file K a) (k, f) \<noteq> None"
    using ret0 [of "Sys_lseek 0 SEEK_SET"] by (auto simp: driver_file_def simp del: vfs_call.simps)
  show "file_seekto (driver_file K a) (k, f) t \<noteq> None"
    using ret [of "Sys_ioctl (AESDCHAR_IOCSEEKTO K) a" "ustore (user k) a (seekto_bytes t)"]
    by (auto simp: driver_file_def simp del: vfs_call.simps)
  show "file_write (driver_file K a) (k, f) bs \<noteq> None"
    if "call_ok K (Sys_write a (of_nat (length bs))) (k\<lparr>user := ustore (user k) a bs\<rparr>)"
    using ret [OF call_ok_safe [OF that]] by (auto simp: driver_file_def simp del: vfs_call.simps)
qed

lemma seek_returns:
  assumes K: "kernel_ok K" and inv: "dev_inv k" and f: "file_ok (dev \<sigma>)" and z: "0 \<in> set (buff \<sigma>)"
  shows "chat_step L (driver_file K a) (Seek n, attach k \<sigma>) \<noteq> None"
proof -
  obtain z where z: "z < length (buff \<sigma>)" "buff \<sigma> ! z = 0" using z by (auto simp: in_set_conv_nth)
  have d: "0 \<notin> set tok_delim" by (simp add: tok_delim_def)
  obtain a1 b1 p1 where t1: "strtok tok_delim 0 (buff \<sigma>) = Some (a1, b1, p1)" "p1 \<le> z" "z < length b1" "b1 ! z = 0"
    using strtok_stops [OF _ z d, of 0] by blast
  obtain a2 b2 p2 where t2: "strtok tok_delim p1 b1 = Some (a2, b2, p2)" "p2 \<le> z" "z < length b2" "b2 ! z = 0"
    using strtok_stops [OF t1(2-4) d] by blast
  obtain a3 b3 p3 where t3: "strtok tok_delim p2 b2 = Some (a3, b3, p3)"
    using strtok_stops [OF t2(2-4) d] by blast
  define q where "q t = the (file_seekto (driver_file K a) (k, dev \<sigma>) t)" for t
  have q: "file_seekto (driver_file K a) (k, dev \<sigma>) t = Some (q t)" for t
    using file_calls_return(2) [OF K inv f, of a t] by (simp add: q_def)
  show ?thesis
    using t1(1) t2(1) t3 by (cases a1; cases a2; cases a3) (auto simp: q split: prod.split)
qed


section \<open>A sample run\<close>

text \<open>Calls other than a store, and a store that finds memory.\<close>

lemma quiet_call:
  assumes "ts i = Some (pc, \<sigma>)" and "kernel_ok K" and "ok K" and "libc_ok L" and "\<And>n. pc \<noteq> Store n"
    and "chat_step L (driver_file K a) (pc, attach k \<sigma>) = Some (pc', attach k' \<sigma>')"
  shows "serve_step ok (k, ts) [] (k', ts(i \<mapsto> (pc', \<sigma>')))"
proof -
  have "store_ok K a k (pc, \<sigma>)" "packet_stored (driver_file K a) (pc, attach k \<sigma>) = []"
    using assms(5) by (cases pc; simp add: store_ok_def packet_stored_def)+
  then show ?thesis using serve_call [of ts i pc \<sigma> K ok L a k pc' "attach k' \<sigma>'"] assms by simp
qed

lemma store_step:
  assumes K: "kernel_ok K" "undisturbed K" and k: "dev_inv k"
    and j: "ts j = Some (Store m, \<tau>)" "file_ok (dev \<tau>)" "len \<tau> \<le> length (buff \<tau>)"
    and ready: "drv_ready K a (k, dev \<tau>) (take (len \<tau>) (buff \<tau>))"
  obtains k' f where
    "serve_step undisturbed (k, ts) [take (len \<tau>) (buff \<tau>)] (k', ts(j \<mapsto> (Rewind m, \<tau>\<lparr>dev := f\<rparr>)))"
    "dev_inv k'" "dev_log k' = log_write (dev_log k) (take (len \<tau>) (buff \<tau>))"
proof -
  let ?l = "take (len \<tau>) (buff \<tau>)"
  have l: "length ?l = len \<tau>" using j(3) by simp
  have "drv_inv K (k, dev \<tau>)" using K k j(2) by (simp add: drv_inv_def)
  from drv.write_ok [OF this ready] obtain d where
    d: "file_write (driver_file K a) (k, dev \<tau>) ?l = Some (int (length ?l), d)" "drv_inv K d"
    "drv_log d = log_write (drv_log (k, dev \<tau>)) ?l" by blast
  have "chat_step zero_libc (driver_file K a) (Store m, attach k \<tau>) = Some (Rewind m, attach (fst d) (\<tau>\<lparr>dev := snd d\<rparr>))"
    using d(1) j(3) by (simp add: attach_def)
  moreover have "store_ok K a k (Store m, \<tau>)"
    using ready l by (simp add: store_ok_def drv_ready_def write_services_ok_def)
  moreover have "packet_stored (driver_file K a) (Store m, attach k \<tau>) = [?l]"
    using d(1) l by (simp add: packet_stored_def)
  ultimately have "serve_step undisturbed (k, ts) [?l] (fst d, ts(j \<mapsto> (Rewind m, \<tau>\<lparr>dev := snd d\<rparr>)))"
    using serve_call [of ts j "Store m" \<tau> K undisturbed zero_libc a k "Rewind m" "attach (fst d) (\<tau>\<lparr>dev := snd d\<rparr>)"] j(1) K zero_libc_ok(1)
    by simp
  then show thesis using d(2,3) by (intro that) (simp_all add: drv_inv_def drv_log_def)
qed

text \<open>A client that sends \<open>hi\<close> and a newline, up to the moment after its packet was stored.\<close>

definition hi_session :: "nat \<Rightarrow> kfile session" where
  "hi_session n = \<lparr>buff = [104, 105, newline] @ replicate 1021 0, len = n, dev = open_file,
     peer = \<lparr>conn_in = [], conn_out = [], conn_lim = []\<rparr>, pkt = write_back_pkt new_client\<rparr>"

lemma hi_scan:
  "chat_step L F (Scan 1024, attach k (hi_session 0)) = Some (Scan 1023, attach k (hi_session 1))"
  "chat_step L F (Scan 1023, attach k (hi_session 1)) = Some (Scan 1022, attach k (hi_session 2))"
  "chat_step L F (Scan 1022, attach k (hi_session 2)) = Some (Store 1021, attach k (hi_session 3))"
proof -
  have n: "(1024 :: nat) = Suc 1023" "(1023 :: nat) = Suc 1022" "(1022 :: nat) = Suc 1021" by simp_all
  show "chat_step L F (Scan 1024, attach k (hi_session 0)) = Some (Scan 1023, attach k (hi_session 1))"
    unfolding n(1) by (simp only: chat_step.simps) (simp add: hi_session_def attach_def nth_opt_def newline_def)
  show "chat_step L F (Scan 1023, attach k (hi_session 1)) = Some (Scan 1022, attach k (hi_session 2))"
    unfolding n(2) by (simp only: chat_step.simps) (simp add: hi_session_def attach_def nth_opt_def newline_def)
  show "chat_step L F (Scan 1022, attach k (hi_session 2)) = Some (Store 1021, attach k (hi_session 3))"
    unfolding n(3) by (simp only: chat_step.simps)
      (simp add: hi_session_def attach_def nth_opt_def ioctl_cmd_def)
qed

lemma hi_receive:
  "chat_step L F (Receive, attach k (hi_session 0\<lparr>buff := replicate 1024 0, peer :=
     \<lparr>conn_in = [Some [104, 105, newline]], conn_out = [], conn_lim = []\<rparr>\<rparr>)) = Some (Scan 1024, attach k (hi_session 0))"
  by (simp add: hi_session_def attach_def sock_read_def overlay_def MAX_BUF_SIZE_def)

lemma serve_step_mono: "serve_step ok x w y \<Longrightarrow> (\<And>K. ok K \<Longrightarrow> ok' K) \<Longrightarrow> serve_step ok' x w y"
  by (induction rule: serve_step.induct) (auto intro: serve_step.intros)

lemma hi_stored:
  obtains k f where "serve_reach (k, [0 \<mapsto> (Rewind 1021, (hi_session 3)\<lparr>dev := f\<rparr>)]) [[104, 105, newline]]"
proof -
  let ?k = loaded_state and ?l = "[104, 105, newline]"
  let ?s = "hi_session 0\<lparr>buff := replicate 1024 0, peer := \<lparr>conn_in = [Some ?l], conn_out = [], conn_lim = []\<rparr>\<rparr>"
  have "thread_start zero_libc new_client open_file (peer ?s) = (Receive, ?s)"
    by (simp add: thread_start_def zero_libc_def chat_start_def hi_session_def MAX_BUF_SIZE_def)
  moreover have "aesd_open Dev_aesd_device \<lparr>f_pos = 0, private_data = Dev_NULL\<rparr> = (0, open_file)"
    by (simp add: aesd_open_def open_file_def)
  ultimately have connect: "serve_step (\<lambda>K. True) (?k, Map.empty) [] (?k, [0 \<mapsto> (Receive, ?s)])"
    using serve_connect [of Map.empty 0 open_file zero_libc new_client "\<lambda>K. True" ?k "peer ?s"] zero_libc_ok(1)
    by (simp add: new_client_def MAX_BUF_SIZE_def)
  have call: "serve_step (\<lambda>K. True) (?k, [0 \<mapsto> (pc, \<sigma>)]) [] (?k, [0 \<mapsto> (pc', \<sigma>')])"
    if "chat_step zero_libc (driver_file pool_kernel 0) (pc, attach ?k \<sigma>) = Some (pc', attach ?k \<sigma>')" "\<And>n. pc \<noteq> Store n"
    for pc \<sigma> pc' \<sigma>'
    using quiet_call [of "[0 \<mapsto> (pc, \<sigma>)]" 0 pc \<sigma> pool_kernel "\<lambda>K. True", OF _ pool_kernel_ok _ zero_libc_ok(1) that(2,1)] by simp
  have "aesd_init_module pool_kernel blank_state = (0, ?k)"
    by (simp add: loaded_state_def aesd_init_module_def aesd_setup_cdev_def pool_kernel_def Let_def)
  from serve_more [OF serve_more [OF serve_load [OF this] connect] call [OF hi_receive]]
  have "serve_reach (?k, [0 \<mapsto> (Scan 1024, hi_session 0)]) []" by simp
  from serve_more [OF serve_more [OF serve_more [OF this call [OF hi_scan(1)]] call [OF hi_scan(2)]] call [OF hi_scan(3)]]
  have reach: "serve_reach (?k, [0 \<mapsto> (Store 1021, hi_session 3)]) []" by simp
  have h: "take (len (hi_session 3)) (buff (hi_session 3)) = ?l" "dev (hi_session 3) = open_file"
    "len (hi_session 3) \<le> length (buff (hi_session 3))"
    by (simp_all add: hi_session_def)
  have ready: "drv_ready pool_kernel 0 (?k, dev (hi_session 3)) (take (len (hi_session 3)) (buff (hi_session 3)))"
    using hi_ready by (simp add: h)
  let ?ts = "[0 \<mapsto> (Store 1021, hi_session 3)]"
  have "?ts 0 = Some (Store 1021, hi_session 3)" "file_ok (dev (hi_session 3))" by (simp_all add: h open_file_ok)
  from store_step [of pool_kernel ?k ?ts 0, OF pool_kernel_ok pool_undisturbed loaded_state_inv(1) this h(3) ready]
  obtain k f where "serve_step undisturbed (?k, ?ts) [take (len (hi_session 3)) (buff (hi_session 3))]
      (k, ?ts(0 \<mapsto> (Rewind 1021, (hi_session 3)\<lparr>dev := f\<rparr>)))" by blast
  then have "serve_step undisturbed (?k, ?ts) [?l] (k, [0 \<mapsto> (Rewind 1021, (hi_session 3)\<lparr>dev := f\<rparr>)])" by (simp add: h(1))
  from serve_more [OF reach serve_step_mono [OF this]] show thesis by (intro that) simp
qed



end
