(* ===== verification/Interleaved_Replies.thy ===== *)
theory Interleaved_Replies
  imports Shared_Device
begin

text \<open>
  What a client reads back while other connections are served.  A reply takes one \<^verbatim>\<open>read\<close> per stored
  command, and other threads may store packets between two of them.  As long as no command is
  dropped meanwhile the reply is the log at its end; when the log is full it can be torn.
\<close>

section \<open>What a client reads back while others write\<close>

text \<open>Where a thread is sending a reply, and the runs during which thread \<open>i\<close> is.\<close>

fun replying :: "chat_pc \<Rightarrow> bool" where
  "replying (Rewind n) = True"
| "replying (Fetch k n) = True"
| "replying (Send k r n) = True"
| "replying pc = False"

inductive reply_run ::
  "nat \<Rightarrow> kstate \<times> (nat \<rightharpoonup> task) \<Rightarrow> byte list list \<Rightarrow> kstate \<times> (nat \<rightharpoonup> task) \<Rightarrow> bool"
  for i x where
  reply_begin: "reply_run i x [] x"
| reply_more: "reply_run i x w y \<Longrightarrow> snd y i = Some (pc, \<sigma>) \<Longrightarrow> replying pc \<Longrightarrow>
     serve_step undisturbed y v z \<Longrightarrow> reply_run i x (w @ v) z"

text \<open>
  What has been sent of the stored bytes \<open>bs\<close>, from position \<open>p\<close> on and after \<open>out\<close>; what is in
  the reply buffer counts as sent.
\<close>

fun reply_at :: "nat \<Rightarrow> byte list \<Rightarrow> byte list \<Rightarrow> task \<Rightarrow> bool" where
  "reply_at p out bs (Rewind n, \<sigma>) \<longleftrightarrow> p = 0 \<and> conn_out (peer \<sigma>) = out"
| "reply_at p out bs (Fetch k n, \<sigma>) \<longleftrightarrow>
     p \<le> unat (f_pos (dev \<sigma>)) \<and> unat (f_pos (dev \<sigma>)) \<le> length bs \<and>
     conn_out (peer \<sigma>) = out @ drop p (take (unat (f_pos (dev \<sigma>))) bs)"
| "reply_at p out bs (Send k r n, \<sigma>) \<longleftrightarrow>
     p \<le> unat (f_pos (dev \<sigma>)) \<and> unat (f_pos (dev \<sigma>)) \<le> length bs \<and> 0 \<le> r \<and>
     conn_out (peer \<sigma>) @ take (nat r) (pkt \<sigma>) = out @ drop p (take (unat (f_pos (dev \<sigma>))) bs)"
| "reply_at p out bs (Scan n, \<sigma>) \<longleftrightarrow> conn_out (peer \<sigma>) = out @ drop p bs"
| "reply_at p out bs (pc, \<sigma>) \<longleftrightarrow> False"

lemma reply_at_grows: "replying pc \<Longrightarrow> reply_at p out bs (pc, \<sigma>) \<Longrightarrow> reply_at p out (bs @ ext) (pc, \<sigma>)"
  by (cases pc) auto

lemma fetch_step:
  assumes inv: "drv_inv K (k, dev \<sigma>)" and pos: "unat (f_pos (dev \<sigma>)) \<le> length (concat (dev_cmds k))"
    and run: "chat_step L (driver_file K a) (Fetch b n, attach k \<sigma>) = Some (pc, \<tau>)"
  defines "r \<equiv> rest_at (dev_cmds k) (unat (f_pos (dev \<sigma>)))"
  shows "dev_log (fst (dev \<tau>)) = dev_log k" and "peer \<tau> = peer \<sigma>"
    and "unat (f_pos (snd (dev \<tau>))) = unat (f_pos (dev \<sigma>)) + length r"
    and "if r = [] then pc = Scan n else pc = Send b (int (length r)) n \<and> take (length r) (pkt \<tau>) = r"
proof -
  have cmds: "fst (drv_log (k, dev \<sigma>)) = dev_cmds k" by (simp add: drv_log_def dev_log_def)
  obtain d where d: "file_read (driver_file K a) (k, dev \<sigma>) MAX_BUF_SIZE = Some (int (length r), r, d)"
    "drv_log d = drv_log (k, dev \<sigma>)" "drv_pos d = unat (f_pos (dev \<sigma>)) + length r"
    using drv.read_ok [OF inv, of a MAX_BUF_SIZE] pos unfolding cmds r_def drv_pos_def by auto
  show "dev_log (fst (dev \<tau>)) = dev_log k" "peer \<tau> = peer \<sigma>"
    "unat (f_pos (snd (dev \<tau>))) = unat (f_pos (dev \<sigma>)) + length r"
    "if r = [] then pc = Scan n else pc = Send b (int (length r)) n \<and> take (length r) (pkt \<tau>) = r"
    using run d by (auto simp: drv_log_def drv_pos_def overlay_def bind_eq_Some_conv split: if_splits)
qed

lemma reply_step:
  assumes inv: "drv_inv K (k, dev \<sigma>)" and pc: "replying pc" and lim: "conn_lim (peer \<sigma>) = []"
    and at: "reply_at p out (concat (dev_cmds k)) (pc, \<sigma>)"
    and run: "chat_step L (driver_file K a) (pc, attach k \<sigma>) = Some (pc', \<tau>)"
  shows "reply_at p out (concat (dev_cmds k)) (pc', detach \<tau>) \<and> conn_lim (peer \<tau>) = [] \<and>
         dev_log (fst (dev \<tau>)) = dev_log k"
proof (cases pc)
  case (Rewind n)
  obtain d where d: "file_rewind (driver_file K a) (k, dev \<sigma>) = Some d" "drv_log d = drv_log (k, dev \<sigma>)" "drv_pos d = 0"
    using drv.rewind_ok [OF inv] by blast
  then show ?thesis using run at lim Rewind by (auto simp: drv_log_def drv_pos_def)
next
  case (Fetch b n)
  let ?bs = "concat (dev_cmds k)" and ?q = "unat (f_pos (dev \<sigma>))"
  let ?r = "rest_at (dev_cmds k) ?q"
  have q: "p \<le> ?q" "?q \<le> length ?bs" "conn_out (peer \<sigma>) = out @ drop p (take ?q ?bs)" using at Fetch by simp_all
  note st = fetch_step [OF inv q(2) run [unfolded Fetch]]
  show ?thesis
  proof (cases "?q < length ?bs")
    case True
    note r = rest_at_inside [OF True]
    have "take ?q ?bs @ ?r = take (?q + length ?r) ?bs"
      using arg_cong [OF r(3), of "take (length ?r)"] by (simp add: take_add)
    moreover have "drop p (take ?q ?bs) @ ?r = drop p (take ?q ?bs @ ?r)" using q by simp
    ultimately show ?thesis using st r(1,4) q lim by auto
  next
    case False
    then have "?r = []" "?q = length ?bs" using q(2) by (simp_all add: rest_at_end)
    then show ?thesis using st q lim by simp
  qed
next
  case (Send b r n)
  then show ?thesis using run at lim by (auto simp: sock_write_def)
qed (use pc in simp_all)

text \<open>No packet is dropped as long as old and new ones together are at most ten.\<close>

lemma no_eviction:
  assumes "serve_inv (k0, ts0) hist" and "serve_inv (k, ts) (hist @ w)" and "length (dev_cmds k0) + length w \<le> 10"
  shows "dev_cmds k = dev_cmds k0 @ w"
proof -
  have c: "dev_cmds k0 = drop (length hist - 10) hist" "dev_cmds k = drop (length (hist @ w) - 10) (hist @ w)"
    using serve_inv_log(1) [OF assms(1)] serve_inv_log(1) [OF assms(2)] by (simp_all add: dev_log_def)
  show ?thesis
  proof (cases "w = []")
    case False
    then have "length hist < 10" using assms(3) c(1) by (cases w) auto
    then show ?thesis using assms(3) c by simp
  qed (use c in simp)
qed

lemma reply_run_inv:
  assumes "reply_run i (k0, ts0) w y" and "serve_inv (k0, ts0) hist"
  shows "serve_inv y (hist @ w)"
  using assms
proof (induction rule: reply_run.induct)
  case (reply_more w y pc \<sigma> v z)
  then show ?case using serve_step_inv [OF reply_more(4), of "hist @ w"] by simp
qed simp

text \<open>A step of any thread, seen by thread \<open>i\<close> while it sends a reply.\<close>

lemma serve_step_reply:
  assumes step: "serve_step undisturbed (k, ts) v (k', ts')" and inv: "serve_inv (k, ts) hist"
    and i: "ts i = Some (pc, \<sigma>)" "replying pc" "conn_lim (peer \<sigma>) = []"
    and at: "reply_at p out (concat (dev_cmds k)) (pc, \<sigma>)"
    and app: "dev_cmds k' = dev_cmds k @ v"
  shows "\<exists>pc' \<sigma>'. ts' i = Some (pc', \<sigma>') \<and> conn_lim (peer \<sigma>') = [] \<and> reply_at p out (concat (dev_cmds k')) (pc', \<sigma>')"
proof -
  have grows: "reply_at p out (concat (dev_cmds k')) (pc, \<sigma>)"
    unfolding app using reply_at_grows [OF i(2) at] by simp
  from step show ?thesis
  proof (cases rule: serve_step.cases)
    case (serve_connect j)
    then show ?thesis using i grows by auto
  next
    case (serve_collect j)
    then show ?thesis using i grows by (cases "j = i") auto
  next
    case (serve_call j pc1 \<sigma>1 K L a pc2 \<tau>)
    show ?thesis
    proof (cases "j = i")
      case True
      then have eq: "pc1 = pc" "\<sigma>1 = \<sigma>" using serve_call i(1) by simp_all
      have "drv_inv K (k, dev \<sigma>)"
        using serve_inv_log(2,3) [OF inv] i(1) serve_call by (simp add: drv_inv_def)
      from reply_step [OF this i(2,3) at] have "reply_at p out (concat (dev_cmds k)) (pc2, detach \<tau>)"
        "conn_lim (peer \<tau>) = []" "dev_log (fst (dev \<tau>)) = dev_log k"
        using serve_call eq by blast+
      then show ?thesis using serve_call True by (auto simp: dev_log_def)
    next
      case False
      then show ?thesis using serve_call i grows by auto
    qed
  qed
qed

lemma reply_run_at:
  assumes "reply_run i (k0, ts0) w y" and inv: "serve_inv (k0, ts0) hist"
    and start: "ts0 i = Some (pc0, \<sigma>0)" "conn_lim (peer \<sigma>0) = []" "reply_at p out (concat (dev_cmds k0)) (pc0, \<sigma>0)"
    and room: "length (dev_cmds k0) + length w \<le> 10"
  shows "\<exists>pc \<sigma>. snd y i = Some (pc, \<sigma>) \<and> conn_lim (peer \<sigma>) = [] \<and>
           reply_at p out (concat (dev_cmds k0 @ w)) (pc, \<sigma>) \<and> dev_cmds (fst y) = dev_cmds k0 @ w"
  using assms(1) room
proof (induction rule: reply_run.induct)
  case reply_begin
  then show ?case using start by simp
next
  case (reply_more w y pc \<sigma> v z)
  have y: "conn_lim (peer \<sigma>) = []" "reply_at p out (concat (dev_cmds (fst y))) (pc, \<sigma>)"
    "dev_cmds (fst y) = dev_cmds k0 @ w"
    using reply_more by auto
  have invs: "serve_inv (fst y, snd y) (hist @ w)" "serve_inv (fst z, snd z) (hist @ w @ v)"
    using reply_run_inv [OF reply_more(1) inv] reply_run_inv [OF reply_run.reply_more [OF reply_more(1-4)] inv]
    by simp_all
  have z: "dev_cmds (fst z) = dev_cmds k0 @ w @ v"
    using no_eviction [OF inv invs(2)] reply_more.prems by simp
  have "serve_step undisturbed (fst y, snd y) v (fst z, snd z)" using reply_more(4) by simp
  from serve_step_reply [OF this invs(1) reply_more(2,3) y(1,2)] y(3) z show ?case by auto
qed

text \<open>
  C8: while the log is not full a reply is the log.  A thread that has stored its packet sends back,
  while other connections are being served and store packets of their own, exactly the commands
  that were stored when it began followed by those stored before its last read; nothing is
  skipped, repeated or cut, in any interleaving, as long as no command is dropped meanwhile.
\<close>

theorem interleaved_reply_is_log:
  assumes "serve_reach (k0, ts0) hist" and "ts0 i = Some (Rewind n, \<sigma>0)" and "conn_lim (peer \<sigma>0) = []"
    and "reply_run i (k0, ts0) w (k, ts)" and "ts i = Some (Scan m, \<sigma>)"
    and "length (dev_cmds k0) + length w \<le> 10"
  shows "conn_out (peer \<sigma>) = conn_out (peer \<sigma>0) @ concat (dev_cmds k) \<and> dev_cmds k = dev_cmds k0 @ w"
  using reply_run_at [OF assms(4) serve_reach_inv [OF assms(1)] assms(2,3), of 0 "conn_out (peer \<sigma>0)"] assms(5,6)
  by auto

section \<open>A reply alone\<close>

lemma reply_run_step:
  assumes "serve_step undisturbed x v y" and "snd x i = Some (pc, \<sigma>)" and "replying pc" and "reply_run i y w z"
  shows "reply_run i x (v @ w) z"
  using assms(4)
proof (induction rule: reply_run.induct)
  case reply_begin
  show ?case using reply_more [OF reply_run.reply_begin assms(2,3,1)] by simp
next
  case (reply_more w y' pc' \<sigma>' v' z)
  then show ?case using reply_run.reply_more [OF reply_more.IH reply_more(2-4)] by simp
qed

text \<open>
  From the first read on a thread left alone sends the rest of the log: one \<^verbatim>\<open>read\<close> and one
  \<^verbatim>\<open>write\<close> for each command.
\<close>

lemma fetch_send:
  assumes K: "kernel_ok K" "undisturbed K" and k: "dev_inv k" "\<forall>c\<in>set (dev_cmds k). length c \<le> MAX_BUF_SIZE"
    and i: "ts i = Some (Fetch b n, \<sigma>)" "file_ok (dev \<sigma>)" "conn_lim (peer \<sigma>) = []" "length (pkt \<sigma>) = MAX_BUF_SIZE"
    and q: "unat (f_pos (dev \<sigma>)) < length (concat (dev_cmds k))"
  defines "r \<equiv> rest_at (dev_cmds k) (unat (f_pos (dev \<sigma>)))"
  obtains k' \<sigma>' where "\<And>w z. reply_run i (k', ts(i \<mapsto> (Fetch b n, \<sigma>'))) w z \<Longrightarrow> reply_run i (k, ts) w z"
    "dev_inv k'" "dev_log k' = dev_log k" "file_ok (dev \<sigma>')" "length (pkt \<sigma>') = MAX_BUF_SIZE"
    "unat (f_pos (dev \<sigma>')) = unat (f_pos (dev \<sigma>)) + length r"
    "peer \<sigma>' = (peer \<sigma>)\<lparr>conn_out := conn_out (peer \<sigma>) @ r\<rparr>"
proof -
  let ?F = "driver_file K 0"
  have inv: "drv_inv K (k, dev \<sigma>)" using K k(1) i(2) by (simp add: drv_inv_def)
  have cmds: "fst (drv_log (k, dev \<sigma>)) = dev_cmds k" by (simp add: drv_log_def dev_log_def)
  obtain d where d: "file_read ?F (k, dev \<sigma>) MAX_BUF_SIZE = Some (int (length r), r, d)" "drv_inv K d"
    "drv_log d = drv_log (k, dev \<sigma>)" "drv_pos d = unat (f_pos (dev \<sigma>)) + length r"
    using drv.read_ok [OF inv, of 0 MAX_BUF_SIZE] q unfolding cmds r_def drv_pos_def by auto
  have r: "r \<noteq> []" "length r \<le> MAX_BUF_SIZE" using rest_at_inside(1,2) [OF q] k(2) unfolding r_def by fastforce+
  define \<sigma>1 where "\<sigma>1 = \<sigma>\<lparr>dev := snd d, pkt := r @ drop (length r) (pkt \<sigma>)\<rparr>"
  define \<sigma>2 where "\<sigma>2 = \<sigma>1\<lparr>peer := (peer \<sigma>)\<lparr>conn_out := conn_out (peer \<sigma>) @ r\<rparr>\<rparr>"
  let ?y = "(fst d, ts(i \<mapsto> (Send b (int (length r)) n, \<sigma>1)))" and ?z = "(fst d, ts(i \<mapsto> (Fetch b n, \<sigma>2)))"
  have "chat_step zero_libc ?F (Fetch b n, attach k \<sigma>) = Some (Send b (int (length r)) n, attach (fst d) \<sigma>1)"
    using d(1) r i(4) by (simp add: overlay_def \<sigma>1_def attach_def)
  from quiet_call [of ts i _ _ _ undisturbed, OF i(1) K zero_libc_ok(1) _ this] have one: "serve_step undisturbed (k, ts) [] ?y" by simp
  have "chat_step zero_libc ?F (Send b (int (length r)) n, attach (fst d) \<sigma>1) = Some (Fetch b n, attach (fst d) \<sigma>2)"
    using i(3) by (simp add: sock_write_def \<sigma>1_def \<sigma>2_def attach_def)
  from quiet_call [of "ts(i \<mapsto> (Send b (int (length r)) n, \<sigma>1))" i _ _ _ undisturbed, OF _ K zero_libc_ok(1) _ this]
  have two: "serve_step undisturbed ?y [] ?z" by simp
  have "reply_run i (k, ts) w z" if "reply_run i ?z w z" for w z
    using reply_run_step [OF one _ _ reply_run_step [OF two _ _ that]] i(1) by simp
  then show thesis
    using d r i by (intro that [of "fst d" \<sigma>2]) (auto simp: \<sigma>1_def \<sigma>2_def drv_inv_def drv_log_def drv_pos_def)
qed

lemma reply_completes:
  assumes "kernel_ok K" "undisturbed K" and "dev_inv k" "\<forall>c\<in>set (dev_cmds k). length c \<le> MAX_BUF_SIZE"
    and "ts i = Some (Fetch b n, \<sigma>)" "file_ok (dev \<sigma>)" "conn_lim (peer \<sigma>) = []" "length (pkt \<sigma>) = MAX_BUF_SIZE"
    and "unat (f_pos (dev \<sigma>)) \<le> length (concat (dev_cmds k))"
  shows "\<exists>k' ts' \<sigma>'. reply_run i (k, ts) [] (k', ts') \<and> ts' i = Some (Scan n, \<sigma>') \<and> dev_cmds k' = dev_cmds k \<and>
     conn_out (peer \<sigma>') = conn_out (peer \<sigma>) @ drop (unat (f_pos (dev \<sigma>))) (concat (dev_cmds k))"
  using assms(3-)
proof (induction "length (concat (dev_cmds k)) - unat (f_pos (dev \<sigma>))" arbitrary: k ts \<sigma> rule: less_induct)
  case less
  let ?bs = "concat (dev_cmds k)" and ?q = "unat (f_pos (dev \<sigma>))"
  show ?case
  proof (cases "?q < length ?bs")
    case True
    note r = rest_at_inside [OF True]
    obtain k' \<sigma>' where s: "\<And>w z. reply_run i (k', ts(i \<mapsto> (Fetch b n, \<sigma>'))) w z \<Longrightarrow> reply_run i (k, ts) w z"
      "dev_inv k'" "dev_log k' = dev_log k" "file_ok (dev \<sigma>')" "length (pkt \<sigma>') = MAX_BUF_SIZE"
      "unat (f_pos (dev \<sigma>')) = ?q + length (rest_at (dev_cmds k) ?q)"
      "peer \<sigma>' = (peer \<sigma>)\<lparr>conn_out := conn_out (peer \<sigma>) @ rest_at (dev_cmds k) ?q\<rparr>"
      using fetch_send [of K k ts i, OF assms(1,2) less.prems(1-6) True] by blast
    have k': "dev_cmds k' = dev_cmds k" using s(3) by (simp add: dev_log_def)
    obtain k2 ts2 \<sigma>2 where fin: "reply_run i (k', ts(i \<mapsto> (Fetch b n, \<sigma>'))) [] (k2, ts2)" "ts2 i = Some (Scan n, \<sigma>2)"
      "dev_cmds k2 = dev_cmds k'" "conn_out (peer \<sigma>2) = conn_out (peer \<sigma>') @ drop (unat (f_pos (dev \<sigma>'))) (concat (dev_cmds k'))"
      using less.hyps [of k' \<sigma>' "ts(i \<mapsto> (Fetch b n, \<sigma>'))"] s k' r(1,4) True less.prems(2,5) by (auto simp: diff_less_mono2)
    show ?thesis using s(1) [OF fin(1)] fin(2-4) s(6,7) k' r(3) by auto
  next
    case False
    have inv: "drv_inv K (k, dev \<sigma>)" using assms(1,2) less.prems by (simp add: drv_inv_def)
    have rest: "rest_at (dev_cmds k) ?q = []" using False by (simp add: rest_at_end)
    obtain d where d: "file_read (driver_file K 0) (k, dev \<sigma>) MAX_BUF_SIZE = Some (0, [], d)" "drv_log d = drv_log (k, dev \<sigma>)"
      using drv.read_ok [OF inv, of 0 MAX_BUF_SIZE] less.prems(7) rest by (auto simp: drv_log_def dev_log_def drv_pos_def)
    then have st: "chat_step zero_libc (driver_file K 0) (Fetch b n, attach k \<sigma>) = Some (Scan n, attach (fst d) (\<sigma>\<lparr>dev := snd d\<rparr>))"
      by (simp add: attach_def)
    have "serve_step undisturbed (k, ts) [] (fst d, ts(i \<mapsto> (Scan n, \<sigma>\<lparr>dev := snd d\<rparr>)))"
      using quiet_call [of ts i _ _ _ undisturbed, OF less.prems(3) assms(1,2) zero_libc_ok(1) _ st] by simp
    from reply_run_step [OF this _ _ reply_begin, of i] less.prems(3)
    have "reply_run i (k, ts) [] (fst d, ts(i \<mapsto> (Scan n, \<sigma>\<lparr>dev := snd d\<rparr>)))" by simp
    moreover have "dev_cmds (fst d) = dev_cmds k" using d(2) by (simp add: drv_log_def dev_log_def)
    ultimately show ?thesis
      using False by (intro exI [of _ "fst d"] exI [of _ "ts(i \<mapsto> (Scan n, \<sigma>\<lparr>dev := snd d\<rparr>))"]) auto
  qed
qed

section \<open>A torn reply\<close>

text \<open>
  C11: with a full log a reply can be torn.  When one thread has sent the first stored command and
  another one stores its packet before the next read, the oldest command is dropped and all
  positions move.  If the first two commands have the same length, the reply goes on with the
  third: the second command is left out, although it was in the log all the time.  The build
  for the character device has no lock that would keep a packet and its reply together.
\<close>

theorem interleaved_reply_torn:
  assumes K: "kernel_ok K" "undisturbed K" and k: "dev_inv k" "dev_log k = (c0 # c1 # c2 # cs, [])" "length cs = 7"
    and same: "length c0 = length c1" and fits: "\<forall>c\<in>set (c1 # c2 # cs @ [l]). length c \<le> MAX_BUF_SIZE"
    and i: "ts i = Some (Fetch True n, \<sigma>)" "file_ok (dev \<sigma>)" "conn_lim (peer \<sigma>) = []"
      "length (pkt \<sigma>) = MAX_BUF_SIZE" "unat (f_pos (dev \<sigma>)) = length c0" "conn_out (peer \<sigma>) = out @ c0"
    and j: "ts j = Some (Store m, \<tau>)" "file_ok (dev \<tau>)" "len \<tau> \<le> length (buff \<tau>)" "j \<noteq> i"
      "l = take (len \<tau>) (buff \<tau>)" "newline \<in> set l" "drv_ready K a (k, dev \<tau>) l"
  shows "\<exists>k' ts' \<sigma>'. reply_run i (k, ts) [l] (k', ts') \<and> ts' i = Some (Scan n, \<sigma>') \<and>
     dev_cmds k' = c1 # c2 # cs @ [l] \<and> conn_out (peer \<sigma>') = out @ c0 @ concat (c2 # cs @ [l])"
proof -
  obtain k1 f where one: "serve_step undisturbed (k, ts) [l] (k1, ts(j \<mapsto> (Rewind m, \<tau>\<lparr>dev := f\<rparr>)))"
    "dev_inv k1" "dev_log k1 = log_write (dev_log k) l"
    using store_step [of K k ts j, OF K k(1) j(1-3) j(7) [unfolded j(5)]] j(5) by metis
  have k1: "dev_cmds k1 = c1 # c2 # cs @ [l]"
    using one(3) k(2,3) j(6) by (simp add: dev_log_def log_write_def push_def)
  obtain k' ts' \<sigma>' where fin: "reply_run i (k1, ts(j \<mapsto> (Rewind m, \<tau>\<lparr>dev := f\<rparr>))) [] (k', ts')"
    "ts' i = Some (Scan n, \<sigma>')" "dev_cmds k' = dev_cmds k1"
    "conn_out (peer \<sigma>') = conn_out (peer \<sigma>) @ drop (unat (f_pos (dev \<sigma>))) (concat (dev_cmds k1))"
    using reply_completes [OF K one(2), of "ts(j \<mapsto> (Rewind m, \<tau>\<lparr>dev := f\<rparr>))" i True n \<sigma>] k1 fits i j(4) same by auto
  have "reply_run i (k, ts) ([l] @ []) (k', ts')"
    by (rule reply_run_step [where pc = "Fetch True n" and \<sigma> = \<sigma>, OF one(1) _ _ fin(1)]) (use i(1) in simp_all)
  then show ?thesis using fin k1 i(5,6) same by auto
qed

section \<open>Sample runs\<close>

text \<open>Ten commands of a letter and a newline; one thread has sent the first, another has a packet to store.\<close>

definition letter :: "nat \<Rightarrow> byte list" where
  "letter a = [of_nat (65 + a), newline]"

definition full_ring :: aesd_circular_buffer where
  "full_ring = \<lparr>entry = map (\<lambda>a. \<lparr>buffptr = Blk a, entry_size = 2\<rparr>) [0..<10],
                in_offs = 0, out_offs = 0, full = True, cb_size = 20\<rparr>"

definition full_state :: kstate where
  "full_state = loaded_state\<lparr>
     kmem := (\<lambda>a. if a < 10 then Some (letter a) else None),
     aesd_device := (aesd_device loaded_state)\<lparr>buffer := full_ring\<rparr>\<rparr>"

lemma full_ring_entries: "entries full_ring = map (\<lambda>a. \<lparr>buffptr = Blk a, entry_size = 2\<rparr>) [0..<10]"
  by (simp add: full_ring_def entries_def ring_count_def ring_slot_def)

lemma full_ring_inv: "cb_inv full_ring"
proof -
  have "total_size (entries full_ring) = 20" unfolding full_ring_entries by (simp add: total_size_def entry_len_def upt_rec)
  then show ?thesis by (simp add: cb_inv_def) (simp add: full_ring_def)
qed

lemma full_state_fields:
  "buffer (aesd_device full_state) = full_ring" "part_mem_ptr (aesd_device full_state) = NULL"
  "part_buf_size (aesd_device full_state) = 0" "buf_lock (aesd_device full_state) = Unlocked"
  "kmem full_state = (\<lambda>a. if a < 10 then Some (letter a) else None)"
  by (simp_all add: full_state_def loaded_state_eq)

lemma full_state_ok: "dev_inv full_state" "dev_log full_state = (map letter [0..<10], [])"
proof -
  have ptrs: "entry_ptrs (aesd_device full_state) = map Blk [0..<10]"
    by (simp add: entry_ptrs_def full_state_fields full_ring_entries comp_def)
  have "all_blocks (map Blk [0..<10]) = [0..<10]" by (simp add: all_blocks_def comp_def)
  then have "owned (kmem full_state) (map Blk [0..<10])"
    by (simp add: owned_def owns_def full_state_fields list_all2_map1 list_all2_map2 list_all2_same letter_def)
  moreover have "\<forall>e\<in>set (entries full_ring). entry_ok (kmem full_state) e"
    by (auto simp: full_ring_entries entry_ok_def entry_len_def full_state_fields letter_def KMALLOC_MAX_value)
  ultimately show "dev_inv full_state"
    by (simp add: dev_inv_def full_state_fields full_ring_inv ptrs part_ptrs_def dev_pending_def)
  show "dev_log full_state = (map letter [0..<10], [])"
    by (simp add: dev_log_def dev_cmds_def ptrs dev_pending_def full_state_fields comp_def)
qed

definition sent_one :: task where
  "sent_one = (Fetch True 0, \<lparr>buff = [], len = 0, dev = open_file\<lparr>f_pos := 2\<rparr>,
     peer = \<lparr>conn_in = [], conn_out = letter 0, conn_lim = []\<rparr>, pkt = replicate MAX_BUF_SIZE 0\<rparr>)"

definition about_to_store :: task where
  "about_to_store = (Store 0, \<lparr>buff = [122, newline], len = 2, dev = open_file,
     peer = \<lparr>conn_in = [], conn_out = [], conn_lim = []\<rparr>, pkt = replicate MAX_BUF_SIZE 0\<rparr>)"

lemma full_state_ready: "drv_ready pool_kernel 0 (full_state, f) [122, newline]"
proof -
  have k: "pool_kmalloc (kmem full_state) 2 = (Blk 10, (kmem full_state)(10 \<mapsto> replicate 2 0))"
    by (subst pool_kmalloc_at [of 10]) (simp_all add: full_state_fields KMALLOC_MAX_value)
  show ?thesis
    by (simp add: drv_ready_def write_services_ok_def write_join_ok_def join_ok_def k full_state_fields(1-4)
        KMALLOC_MAX_value)
qed

theorem interleaved_reply_torn_witness:
  "\<exists>k ts \<sigma>. reply_run 0 (full_state, [0 \<mapsto> sent_one, 1 \<mapsto> about_to_store]) [[122, newline]] (k, ts) \<and>
     ts 0 = Some (Scan 0, \<sigma>) \<and> dev_cmds k = map letter [1..<10] @ [[122, newline]] \<and>
     conn_out (peer \<sigma>) = letter 0 @ concat (map letter [2..<10] @ [[122, newline]])"
proof -
  let ?ts = "[(0 :: nat) \<mapsto> sent_one, 1 \<mapsto> about_to_store]" and ?l = "[122, newline]"
  have ten: "map letter [0..<10] = letter 0 # letter 1 # letter 2 # map letter [3..<10]"
    "map letter [1..<10] = letter 1 # letter 2 # map letter [3..<10]" "map letter [2..<10] = letter 2 # map letter [3..<10]"
    by (simp_all add: upt_rec letter_def)
  have log: "dev_log full_state = (letter 0 # letter 1 # letter 2 # map letter [3..<10], [])"
    using full_state_ok(2) unfolding ten by simp
  have small: "\<forall>c\<in>set (letter 1 # letter 2 # map letter [3..<10] @ [?l]). length c \<le> MAX_BUF_SIZE"
    by (auto simp: letter_def MAX_BUF_SIZE_def)
  have one: "?ts 0 = Some (Fetch True 0, snd sent_one)" "file_ok (dev (snd sent_one))" "conn_lim (peer (snd sent_one)) = []"
    "length (pkt (snd sent_one)) = MAX_BUF_SIZE" "unat (f_pos (dev (snd sent_one))) = length (letter 0)"
    "conn_out (peer (snd sent_one)) = [] @ letter 0"
    by (simp_all add: sent_one_def open_file_def file_ok_def letter_def)
  have two: "?ts 1 = Some (Store 0, snd about_to_store)" "file_ok (dev (snd about_to_store))"
    "len (snd about_to_store) \<le> length (buff (snd about_to_store))" "1 \<noteq> (0 :: nat)"
    "?l = take (len (snd about_to_store)) (buff (snd about_to_store))" "newline \<in> set ?l"
    by (simp_all add: about_to_store_def open_file_def file_ok_def)
  have seven: "length (map letter [3..<10]) = 7" "length (letter 0) = length (letter 1)" by (simp_all add: letter_def)
  from interleaved_reply_torn [of pool_kernel full_state _ _ _ _ _ ?ts 0 0 "snd sent_one" _ 1, OF pool_kernel_ok pool_undisturbed
      full_state_ok(1) log seven small one two full_state_ready]
  show ?thesis unfolding ten by simp
qed

theorem interleaved_reply_is_log_witness:
  "\<exists>x y ts \<sigma>. serve_reach x [[104, 105, newline]] \<and> reply_run 0 x [] (y, ts) \<and> ts 0 = Some (Scan 1021, \<sigma>) \<and>
     conn_out (peer \<sigma>) = [104, 105, newline]"
proof -
  obtain k f where r: "serve_reach (k, [0 \<mapsto> (Rewind 1021, (hi_session 3)\<lparr>dev := f\<rparr>)]) [[104, 105, newline]]"
    (is "serve_reach (k, ?ts) _") by (rule hi_stored)
  let ?\<sigma> = "(hi_session 3)\<lparr>dev := f\<rparr>"
  note log = serve_inv_log [OF serve_reach_inv [OF r]]
  have ok: "file_ok f" using log(3) [of 0 "Rewind 1021" ?\<sigma>] by simp
  have cmds: "dev_cmds k = [[104, 105, newline]]" using log(1) by (simp add: dev_log_def)
  have "drv_inv pool_kernel (k, f)" using ok log(2) by (simp add: drv_inv_def pool_kernel_ok pool_undisturbed)
  from drv.rewind_ok [OF this, of 0] obtain d where d: "file_rewind (driver_file pool_kernel 0) (k, f) = Some d"
    "drv_inv pool_kernel d" "drv_log d = drv_log (k, f)" "drv_pos d = 0" by blast
  let ?\<tau> = "(hi_session 3)\<lparr>dev := snd d\<rparr>"
  have step: "serve_step undisturbed (k, ?ts) [] (fst d, ?ts(0 \<mapsto> (Fetch True 1021, ?\<tau>)))"
    by (rule quiet_call [of ?ts 0 "Rewind 1021" ?\<sigma> pool_kernel undisturbed zero_libc 0 k "Fetch True 1021" "fst d" ?\<tau>])
      (use d(1) in \<open>simp_all add: pool_kernel_ok pool_undisturbed attach_def zero_libc_ok\<close>)
  have c1: "dev_cmds (fst d) = [[104, 105, newline]]" using d(3) cmds by (simp add: drv_log_def dev_log_def)
  obtain k' ts' \<sigma>' where fin: "reply_run 0 (fst d, ?ts(0 \<mapsto> (Fetch True 1021, ?\<tau>))) [] (k', ts')"
    "ts' 0 = Some (Scan 1021, \<sigma>')" "dev_cmds k' = dev_cmds (fst d)"
    using reply_completes [of pool_kernel "fst d" "?ts(0 \<mapsto> (Fetch True 1021, ?\<tau>))" 0 True 1021 ?\<tau>] d c1
    by (auto simp: pool_kernel_ok pool_undisturbed drv_inv_def drv_pos_def hi_session_def new_client_def MAX_BUF_SIZE_def)
  have run: "reply_run 0 (k, ?ts) [] (k', ts')"
    using reply_run_step [OF step, of 0 "Rewind 1021" ?\<sigma>, OF _ _ fin(1)] by simp
  from interleaved_reply_is_log [OF r _ _ run fin(2)] have "conn_out (peer \<sigma>') = [104, 105, newline]"
    using cmds c1 fin(3) by (simp add: hi_session_def)
  then show ?thesis using r run fin(2) by blast
qed

end
