(* ===== verification/Queue_Loops.thy ===== *)
theory Queue_Loops
  imports Prelude
begin

text \<open>
  What the four list families of \<^verbatim>\<open>server/queue.h\<close> share: the names of the cells, the \<^verbatim>\<open>for\<close> loops of
  the \<^verbatim>\<open>FOREACH\<close> macros, and what such a loop does.  A loop runs through a list from \<open>first\<close> along
  \<open>nxt\<close>; the locale \<open>traversal\<close> says what the two must give for the list, and is interpreted for
  each family and, for tail queues, for both directions.
\<close>

section \<open>Cells and lists\<close>

text \<open>A cell belongs to a list head or to the entry field of an element.\<close>

datatype node = Head nat | Elm nat

definition first_or :: "nat list \<Rightarrow> nat option \<Rightarrow> nat option" where
  "first_or xs n = (case xs of [] \<Rightarrow> n | x # _ \<Rightarrow> Some x)"

definition last_node :: "node \<Rightarrow> nat list \<Rightarrow> node" where
  "last_node p xs = (if xs = [] then p else Elm (last xs))"

lemma first_or_simps [simp]: "first_or [] n = n" "first_or (x # xs) n = Some x"
  by (simp_all add: first_or_def)

lemma first_or_append [simp]: "first_or (xs @ ys) n = first_or xs (first_or ys n)"
  by (cases xs) simp_all

lemma first_or_None_iff [simp]: "first_or xs None = None \<longleftrightarrow> xs = []"
  by (cases xs) simp_all

lemma last_node_simps [simp]: "last_node p [] = p" "last_node p (xs @ [x]) = Elm x"
  "last_node p (x # xs) = last_node (Elm x) xs"
  by (simp_all add: last_node_def)

lemma last_node_append [simp]: "last_node p (xs @ ys) = last_node (last_node p xs) ys"
  by (simp add: last_node_def)

text \<open>The cells of a list with head \<open>h\<close>.\<close>

definition cells :: "nat \<Rightarrow> nat list \<Rightarrow> node set" where
  "cells h xs = insert (Head h) (Elm ` set xs)"

lemma cells_Elm [simp]: "Elm y \<in> cells h xs \<longleftrightarrow> y \<in> set xs"
  by (auto simp: cells_def)

lemma cells_Head [simp]: "Head k \<in> cells h xs \<longleftrightarrow> k = h"
  by (auto simp: cells_def)

lemma last_node_cells: "last_node (Head h) xs \<in> cells h xs"
  by (simp add: last_node_def cells_def)

section \<open>Chains of forward pointers\<close>

text \<open>
  The forward pointers of a store, each under the name of its cell.  From the cell \<open>p\<close> the
  pointers lead through \<open>xs\<close> and the last of them is \<open>n\<close>.
\<close>

type_synonym links = "node \<rightharpoonup> nat option"

fun chain :: "links \<Rightarrow> node \<Rightarrow> nat list \<Rightarrow> nat option \<Rightarrow> bool" where
  "chain s p [] n \<longleftrightarrow> s p = Some n"
| "chain s p (x # xs) n \<longleftrightarrow> s p = Some (Some x) \<and> chain s (Elm x) xs n"

definition linked :: "nat \<Rightarrow> links \<Rightarrow> nat list \<Rightarrow> bool" where
  "linked h s xs \<longleftrightarrow> distinct xs \<and> chain s (Head h) xs None"

lemma chain_first: "chain s p xs n \<Longrightarrow> s p = Some (first_or xs n)"
  by (cases xs) simp_all

lemma chain_append [simp]:
  "chain s p (xs @ ys) n \<longleftrightarrow> chain s p xs (first_or ys n) \<and> chain s (last_node p xs) ys n"
  by (induction xs arbitrary: p) (auto dest: chain_first)

lemma chain_cong:
  "s' p = s p \<Longrightarrow> (\<And>x. x \<in> set xs \<Longrightarrow> s' (Elm x) = s (Elm x)) \<Longrightarrow> chain s' p xs n = chain s p xs n"
  by (induction xs arbitrary: p) auto

lemma Head_not_Elm [simp]: "Head h \<notin> Elm ` A" "(Elm x \<in> Elm ` A) = (x \<in> A)"
  by auto

text \<open>The same elements behind another cell.\<close>

lemma chain_move:
  assumes "chain s p xs n" and "s' q = Some (first_or xs n)" and "\<And>x. x \<in> set xs \<Longrightarrow> s' (Elm x) = s (Elm x)"
  shows "chain s' q xs n"
proof (cases xs)
  case (Cons x ys)
  then have "chain s' (Elm x) ys n = chain s (Elm x) ys n" by (intro chain_cong) (auto intro: assms(3))
  then show ?thesis using Cons assms(1,2) by simp
qed (use assms(2) in simp)

lemma chain_update [simp]:
  "a \<noteq> p \<Longrightarrow> a \<notin> Elm ` set xs \<Longrightarrow> chain (s(a := v)) p xs n = chain s p xs n"
  by (rule chain_cong) auto

lemma chain_last: "chain s p xs n \<Longrightarrow> s (last_node p xs) = Some n"
  by (induction xs arbitrary: p) simp_all

text \<open>Writing the pointer of the last cell.\<close>

lemma chain_relink:
  assumes "chain s p xs n" and "distinct xs" and "p \<notin> Elm ` set xs"
  shows "chain (s(last_node p xs \<mapsto> m)) p xs m"
  using assms
proof (induction xs arbitrary: p)
  case Nil
  then show ?case by simp
next
  case (Cons x xs)
  have "last_node (Elm x) xs \<noteq> p" using Cons.prems(3) by (auto simp: last_node_def)
  moreover have "chain (s(last_node (Elm x) xs \<mapsto> m)) (Elm x) xs m"
    using Cons.prems by (intro Cons.IH) auto
  ultimately show ?case using Cons.prems(1) by (simp add: fun_upd_other del: fun_upd_apply)
qed

text \<open>Linking the elements \<open>ys\<close> behind the last cell of \<open>xs\<close>.\<close>

lemma chain_splice:
  assumes xs: "chain s p xs n" "distinct xs" "p \<notin> Elm ` set xs"
    and ys: "ys \<noteq> [] \<Longrightarrow> chain s (Elm (hd ys)) (tl ys) m" "set xs \<inter> set ys = {}" "p \<notin> Elm ` set ys"
  shows "chain (s(last_node p xs \<mapsto> first_or ys m)) p (xs @ ys) m"
proof -
  let ?l = "last_node p xs"
  have l: "?l \<notin> Elm ` set ys" using ys(2,3) by (cases xs rule: rev_cases) auto
  have "chain (s(?l \<mapsto> first_or ys m)) ?l ys m"
  proof (cases ys)
    case (Cons y zs)
    then have "chain (s(?l \<mapsto> first_or ys m)) (Elm y) zs m"
      using ys(1) l by (subst chain_update) auto
    then show ?thesis using Cons by simp
  qed simp
  then show ?thesis using chain_relink [OF xs, of "first_or ys m"] by (simp del: fun_upd_apply)
qed

lemma chain_allocated: "chain s p xs n \<Longrightarrow> x \<in> set xs \<Longrightarrow> s (Elm x) \<noteq> None"
  by (induction xs arbitrary: p) (auto dest: chain_first)

lemma chain_unique: "chain s p xs None \<Longrightarrow> chain s p ys None \<Longrightarrow> xs = ys"
proof (induction xs arbitrary: p ys)
  case Nil
  then show ?case by (cases ys) simp_all
next
  case (Cons x xs)
  then show ?case by (cases ys) auto
qed

lemma linked_frame: "linked h s xs \<Longrightarrow> (\<And>a. a \<in> cells h xs \<Longrightarrow> s' a = s a) \<Longrightarrow> linked h s' xs"
  unfolding linked_def using chain_cong [of s' "Head h" s xs None] by simp

lemma linked_distinct: "linked h s xs \<Longrightarrow> distinct xs"
  by (simp add: linked_def)

text \<open>The pointer updates the macros make, and what they do to the list.\<close>

lemma linked_first: "linked h s xs \<Longrightarrow> s (Head h) = Some (first_or xs None)"
  by (simp add: linked_def chain_first)

lemma linked_next: "linked h s (xs @ x # ys) \<Longrightarrow> s (Elm x) = Some (first_or ys None)"
  by (simp add: linked_def chain_first)

lemma linked_last: "linked h s xs \<Longrightarrow> s (last_node (Head h) xs) = Some None"
  by (simp add: linked_def chain_last)

lemma linked_before: "linked h s (xs @ x # ys) \<Longrightarrow> s (last_node (Head h) xs) = Some (Some x)"
  by (simp add: linked_def chain_last)

lemma linked_allocated: "linked h s xs \<Longrightarrow> x \<in> set xs \<Longrightarrow> s (Elm x) \<noteq> None"
  by (auto simp: linked_def dest: chain_allocated)

lemma linked_link:
  assumes "linked h s (xs @ ys)" and "x \<notin> set (xs @ ys)"
  shows "linked h (s(Elm x \<mapsto> first_or ys None, last_node (Head h) xs \<mapsto> Some x)) (xs @ x # ys)"
proof -
  let ?t = "s(Elm x \<mapsto> first_or ys None)"
  have c: "chain ?t (Head h) xs (first_or ys None)" "chain s (last_node (Head h) xs) ys None"
    using assms by (simp_all add: linked_def)
  have "chain ?t (Elm x) ys None"
    using c(2) assms(2) by (cases ys) auto
  then have "chain (?t(last_node (Head h) xs \<mapsto> first_or (x # ys) None)) (Head h) (xs @ x # ys) None"
    by (intro chain_splice [OF c(1)]) (use assms in \<open>auto simp: linked_def\<close>)
  then show ?thesis using assms by (simp add: linked_def)
qed

lemma linked_unlink:
  assumes "linked h s (xs @ x # ys)"
  shows "linked h (s(last_node (Head h) xs \<mapsto> first_or ys None)) (xs @ ys)"
proof -
  have "ys \<noteq> [] \<Longrightarrow> chain s (Elm (hd ys)) (tl ys) None"
    using assms by (cases ys) (auto simp: linked_def)
  then show ?thesis
    using assms chain_splice [of s "Head h" xs "Some x" ys None] by (auto simp: linked_def)
qed

lemma linked_swap:
  assumes "linked h s xs" "linked k s ys" and "h \<noteq> k"
  shows "linked h (s(Head h \<mapsto> first_or ys None, Head k \<mapsto> first_or xs None)) ys"
    and "linked k (s(Head h \<mapsto> first_or ys None, Head k \<mapsto> first_or xs None)) xs"
proof -
  let ?s = "s(Head h \<mapsto> first_or ys None, Head k \<mapsto> first_or xs None)"
  have "chain ?s (Head h) ys None"
    by (rule chain_move [of s "Head k"]) (use assms in \<open>auto simp: linked_def\<close>)
  moreover have "chain ?s (Head k) xs None"
    by (rule chain_move [of s "Head h"]) (use assms in \<open>auto simp: linked_def\<close>)
  ultimately show "linked h ?s ys" "linked k ?s xs" using assms by (simp_all add: linked_def)
qed

lemma linked_concat:
  assumes "linked h s xs" "linked k s ys" and "h \<noteq> k" and "set xs \<inter> set ys = {}"
  shows "linked h (s(last_node (Head h) xs \<mapsto> first_or ys None, Head k \<mapsto> None)) (xs @ ys)"
proof -
  have "chain (s(last_node (Head h) xs \<mapsto> first_or ys None)) (Head h) (xs @ ys) None"
    by (rule chain_splice [where n = None]) (use assms in \<open>cases ys; auto simp: linked_def\<close>)+
  then show ?thesis using assms by (simp add: linked_def image_iff del: chain_append)
qed

section \<open>The loops\<close>

text \<open>
  \<open>st\<close> reads the list out of the state the loop body works on.  The second loop fetches the
  successor before it runs the body.  A loop over a cyclic list does not return (\<open>None\<close>).
\<close>

partial_function (option) tq_loop ::
  "('a \<Rightarrow> 'q) \<Rightarrow> (nat \<Rightarrow> 'q \<Rightarrow> nat option option) \<Rightarrow> (nat \<Rightarrow> 'a \<Rightarrow> 'a option)
     \<Rightarrow> nat option \<Rightarrow> 'a \<Rightarrow> 'a option" where
  "tq_loop st step body var \<sigma> =
     (case var of
        None \<Rightarrow> Some \<sigma>
      | Some x \<Rightarrow> do { \<sigma>' \<leftarrow> body x \<sigma>; v \<leftarrow> step x (st \<sigma>'); tq_loop st step body v \<sigma>' })"

partial_function (option) tq_loop_safe ::
  "('a \<Rightarrow> 'q) \<Rightarrow> (nat \<Rightarrow> 'q \<Rightarrow> nat option option) \<Rightarrow> (nat \<Rightarrow> 'a \<Rightarrow> 'a option)
     \<Rightarrow> nat option \<Rightarrow> 'a \<Rightarrow> 'a option" where
  "tq_loop_safe st step body var \<sigma> =
     (case var of
        None \<Rightarrow> Some \<sigma>
      | Some x \<Rightarrow> do { tvar \<leftarrow> step x (st \<sigma>); \<sigma>' \<leftarrow> body x \<sigma>; tq_loop_safe st step body tvar \<sigma>' })"

lemma tq_loop_simps [simp]:
  "tq_loop st step body None \<sigma> = Some \<sigma>"
  "tq_loop st step body (Some x) \<sigma> =
     do { \<sigma>' \<leftarrow> body x \<sigma>; v \<leftarrow> step x (st \<sigma>'); tq_loop st step body v \<sigma>' }"
  "tq_loop_safe st step body None \<sigma> = Some \<sigma>"
  "tq_loop_safe st step body (Some x) \<sigma> =
     do { tvar \<leftarrow> step x (st \<sigma>); \<sigma>' \<leftarrow> body x \<sigma>; tq_loop_safe st step body tvar \<sigma>' }"
  by (subst tq_loop.simps tq_loop_safe.simps; simp)+

text \<open>
  Where a \<^verbatim>\<open>FOREACH_FROM\<close> loop starts: \<^verbatim>\<open>(var) ? (var) : FIRST(head)\<close>.
\<close>

definition from_or :: "nat option \<Rightarrow> nat option option \<Rightarrow> nat option option" where
  "from_or var f = (case var of None \<Rightarrow> f | Some x \<Rightarrow> Some (Some x))"

lemma from_or_simps [simp]: "from_or None f = f" "from_or (Some x) f = Some (Some x)"
  by (simp_all add: from_or_def)

text \<open>A body that collects the elements it sees.\<close>

definition collect :: "nat \<Rightarrow> 'q \<times> nat list \<Rightarrow> ('q \<times> nat list) option" where
  "collect x = (\<lambda>(q, out). Some (q, out @ [x]))"

lemma fold_collect: "fold_opt collect xs (q, out) = Some (q, out @ xs)"
  by (induction xs arbitrary: out) (simp_all add: collect_def)

section \<open>What a traversal does\<close>

locale traversal =
  fixes queue :: "'q \<Rightarrow> nat list \<Rightarrow> bool"
    and first :: "'q \<Rightarrow> nat option option"
    and nxt :: "nat \<Rightarrow> 'q \<Rightarrow> nat option option"
  assumes first_ok: "queue s xs \<Longrightarrow> first s = Some (first_or xs None)"
    and next_ok: "queue s (xs @ x # ys) \<Longrightarrow> nxt x s = Some (first_or ys None)"
begin

text \<open>Bodies that leave the list alone fold over the elements, from any element on.\<close>

lemma loop_fold:
  assumes "queue (st \<sigma>) (zs @ ys)"
    and keeps: "\<And>x \<tau> \<tau>'. x \<in> set ys \<Longrightarrow> body x \<tau> = Some \<tau>' \<Longrightarrow> st \<tau>' = st \<tau>"
  shows "tq_loop st nxt body (first_or ys None) \<sigma> = fold_opt body ys \<sigma>"
  using assms
proof (induction ys arbitrary: zs \<sigma>)
  case Nil
  then show ?case by simp
next
  case (Cons y ys)
  show ?case
  proof (cases "body y \<sigma>")
    case None
    then show ?thesis by simp
  next
    case (Some \<tau>)
    then have st: "st \<tau> = st \<sigma>" using Cons.prems(2) [of y \<sigma> \<tau>] by simp
    have "queue (st \<tau>) ((zs @ [y]) @ ys)" using Cons.prems(1) st by simp
    then have "tq_loop st nxt body (first_or ys None) \<tau> = fold_opt body ys \<tau>"
      by (rule Cons.IH) (use Cons.prems(2) in auto)
    then show ?thesis using Some st next_ok [OF Cons.prems(1)] by simp
  qed
qed

lemma loop_safe_fold:
  assumes "queue (st \<sigma>) (zs @ ys)"
    and keeps: "\<And>x \<tau> \<tau>'. x \<in> set ys \<Longrightarrow> body x \<tau> = Some \<tau>' \<Longrightarrow> st \<tau>' = st \<tau>"
  shows "tq_loop_safe st nxt body (first_or ys None) \<sigma> = fold_opt body ys \<sigma>"
  using assms
proof (induction ys arbitrary: zs \<sigma>)
  case Nil
  then show ?case by simp
next
  case (Cons y ys)
  have n: "nxt y (st \<sigma>) = Some (first_or ys None)" using next_ok [OF Cons.prems(1)] .
  show ?case
  proof (cases "body y \<sigma>")
    case None
    then show ?thesis using n by simp
  next
    case (Some \<tau>)
    then have "st \<tau> = st \<sigma>" using Cons.prems(2) [of y \<sigma> \<tau>] by simp
    then have "queue (st \<tau>) ((zs @ [y]) @ ys)" using Cons.prems(1) by simp
    then have "tq_loop_safe st nxt body (first_or ys None) \<tau> = fold_opt body ys \<tau>"
      by (rule Cons.IH) (use Cons.prems(2) in auto)
    then show ?thesis using Some n by simp
  qed
qed

lemma foreach_fold:
  assumes "queue (st \<sigma>) xs"
    and "\<And>x \<tau> \<tau>'. x \<in> set xs \<Longrightarrow> body x \<tau> = Some \<tau>' \<Longrightarrow> st \<tau>' = st \<tau>"
  shows "do { v \<leftarrow> first (st \<sigma>); tq_loop st nxt body v \<sigma> } = fold_opt body xs \<sigma>"
  using loop_fold [of st \<sigma> "[]" xs body] assms first_ok [of "st \<sigma>" xs] by simp

text \<open>What the four loops of a family collect: all elements, or those from a given one on.\<close>

lemma foreach_collects:
  assumes "queue q xs"
  shows "do { v \<leftarrow> first q; tq_loop fst nxt collect v (q, []) } = Some (q, xs)"
    and "do { v \<leftarrow> first q; tq_loop_safe fst nxt collect v (q, []) } = Some (q, xs)"
    and "do { v \<leftarrow> from_or None (first q); tq_loop fst nxt collect v (q, []) } = Some (q, xs)"
    and "do { v \<leftarrow> from_or None (first q); tq_loop_safe fst nxt collect v (q, []) } = Some (q, xs)"
proof -
  have k: "fst \<tau>' = fst \<tau>" if "collect x \<tau> = Some \<tau>'" for x and \<tau> \<tau>' :: "'q \<times> nat list"
    using that by (auto simp: collect_def split: prod.splits)
  have "tq_loop fst nxt collect (first_or xs None) (q, []) = fold_opt collect xs (q, [])"
    by (rule loop_fold [where zs = "[]"]) (use assms k in auto)
  moreover have "tq_loop_safe fst nxt collect (first_or xs None) (q, []) = fold_opt collect xs (q, [])"
    by (rule loop_safe_fold [where zs = "[]"]) (use assms k in auto)
  ultimately show
    "do { v \<leftarrow> first q; tq_loop fst nxt collect v (q, []) } = Some (q, xs)"
    "do { v \<leftarrow> first q; tq_loop_safe fst nxt collect v (q, []) } = Some (q, xs)"
    "do { v \<leftarrow> from_or None (first q); tq_loop fst nxt collect v (q, []) } = Some (q, xs)"
    "do { v \<leftarrow> from_or None (first q); tq_loop_safe fst nxt collect v (q, []) } = Some (q, xs)"
    using first_ok [OF assms] by (simp_all add: fold_collect)
qed

lemma from_collects:
  assumes "queue q (zs @ x # ys)"
  shows "do { v \<leftarrow> from_or (Some x) (first q); tq_loop fst nxt collect v (q, []) } = Some (q, x # ys)"
    and "do { v \<leftarrow> from_or (Some x) (first q); tq_loop_safe fst nxt collect v (q, []) } = Some (q, x # ys)"
proof -
  have k: "fst \<tau>' = fst \<tau>" if "collect x \<tau> = Some \<tau>'" for x and \<tau> \<tau>' :: "'q \<times> nat list"
    using that by (auto simp: collect_def split: prod.splits)
  have "tq_loop fst nxt collect (first_or (x # ys) None) (q, []) = fold_opt collect (x # ys) (q, [])"
    by (rule loop_fold [where zs = zs]) (use assms k in auto)
  moreover have "tq_loop_safe fst nxt collect (first_or (x # ys) None) (q, []) = fold_opt collect (x # ys) (q, [])"
    by (rule loop_safe_fold [where zs = zs]) (use assms k in auto)
  ultimately show
    "do { v \<leftarrow> from_or (Some x) (first q); tq_loop fst nxt collect v (q, []) } = Some (q, x # ys)"
    "do { v \<leftarrow> from_or (Some x) (first q); tq_loop_safe fst nxt collect v (q, []) } = Some (q, x # ys)"
    unfolding fold_collect by simp_all
qed

text \<open>
  A traversal whose body may remove the element it is at: an invariant that speaks of the
  elements kept so far and of those still to come.
\<close>

lemma sweep_rule:
  assumes start: "I \<sigma> [] xs"
    and que: "\<And>\<tau> ys zs. I \<tau> ys zs \<Longrightarrow> queue (st \<tau>) (ys @ zs)"
    and step: "\<And>\<tau> ys x zs. I \<tau> ys (x # zs) \<Longrightarrow>
      \<exists>\<tau>'. body x \<tau> = Some \<tau>' \<and> I \<tau>' (if keep x then ys @ [x] else ys) zs"
  shows "\<exists>\<sigma>'. do { v \<leftarrow> first (st \<sigma>); tq_loop_safe st nxt body v \<sigma> } = Some \<sigma>' \<and> I \<sigma>' (filter keep xs) []"
proof -
  have "\<exists>\<sigma>'. tq_loop_safe st nxt body (first_or zs None) \<tau> = Some \<sigma>' \<and> I \<sigma>' (ys @ filter keep zs) []"
    if "I \<tau> ys zs" for \<tau> ys zs
    using that
  proof (induction zs arbitrary: \<tau> ys)
    case Nil
    then show ?case by simp
  next
    case (Cons z zs)
    obtain \<tau>' where t: "body z \<tau> = Some \<tau>'" "I \<tau>' (if keep z then ys @ [z] else ys) zs"
      using step [OF Cons.prems] by blast
    have "nxt z (st \<tau>) = Some (first_or zs None)" using next_ok [OF que [OF Cons.prems]] .
    then show ?case using Cons.IH [OF t(2)] t(1) by (auto split: if_splits)
  qed
  from this [OF start] show ?thesis using first_ok [OF que [OF start]] by simp
qed

end

text \<open>Sequences of appends and removals, and what they do to a list.\<close>

datatype edit = Append nat | Drop nat

fun edit_list :: "edit \<Rightarrow> nat list \<Rightarrow> nat list" where
  "edit_list (Append x) xs = xs @ [x]"
| "edit_list (Drop x) xs = remove1 x xs"

text \<open>An element is appended only when it is not in the list, and removed only when it is.\<close>

fun edits_ok :: "edit list \<Rightarrow> nat list \<Rightarrow> bool" where
  "edits_ok [] xs \<longleftrightarrow> True"
| "edits_ok (e # es) xs \<longleftrightarrow>
     (case e of Append x \<Rightarrow> x \<notin> set xs | Drop x \<Rightarrow> x \<in> set xs) \<and> edits_ok es (edit_list e xs)"

definition edited :: "edit list \<Rightarrow> nat set" where
  "edited es = {x. Append x \<in> set es}"

fun apply_edit :: "(nat \<Rightarrow> 'q \<Rightarrow> 'q option) \<Rightarrow> (nat \<Rightarrow> 'q \<Rightarrow> 'q option) \<Rightarrow> edit \<Rightarrow> 'q \<Rightarrow> 'q option" where
  "apply_edit ins rem (Append x) = ins x"
| "apply_edit ins rem (Drop x) = rem x"

text \<open>A list to which elements can also be appended and from which they can be removed.\<close>

locale edited_queue = traversal queue first nxt
  for queue :: "'q \<Rightarrow> nat list \<Rightarrow> bool"
    and first :: "'q \<Rightarrow> nat option option"
    and nxt :: "nat \<Rightarrow> 'q \<Rightarrow> nat option option" +
  fixes live :: "'q \<Rightarrow> nat \<Rightarrow> bool"
    and insert_tail :: "nat \<Rightarrow> 'q \<Rightarrow> 'q option"
    and remove :: "nat \<Rightarrow> 'q \<Rightarrow> 'q option"
  assumes insert_ok: "queue s xs \<Longrightarrow> x \<notin> set xs \<Longrightarrow> live s x \<Longrightarrow>
      \<exists>s'. insert_tail x s = Some s' \<and> queue s' (xs @ [x]) \<and> live s' = live s"
    and remove_ok: "queue s (xs @ x # ys) \<Longrightarrow>
      \<exists>s'. remove x s = Some s' \<and> queue s' (xs @ ys) \<and> live s' = live s"
begin

text \<open>Appending elements one by one.\<close>

lemma insert_all:
  assumes "queue s xs" and "distinct ys" and "set xs \<inter> set ys = {}" and "\<forall>y\<in>set ys. live s y"
  shows "\<exists>s'. fold_opt insert_tail ys s = Some s' \<and> queue s' (xs @ ys) \<and> live s' = live s"
  using assms
proof (induction ys arbitrary: s xs)
  case Nil
  then show ?case by simp
next
  case (Cons y ys)
  then obtain t where t: "insert_tail y s = Some t" "queue t (xs @ [y])" "live t = live s"
    using insert_ok [of s xs y] by auto
  have "set (xs @ [y]) \<inter> set ys = {}" "\<forall>z\<in>set ys. live t z" "distinct ys" using Cons.prems t(3) by auto
  from Cons.IH [OF t(2) this(3,1,2)] t show ?case by auto
qed

text \<open>Any sequence of appends and removals does to the queue what it does to the list.\<close>

lemma run_edits:
  assumes "queue s xs" and "distinct xs" and "edits_ok es xs" and "\<forall>x\<in>edited es. live s x"
  shows "\<exists>s'. fold_opt (apply_edit insert_tail remove) es s = Some s' \<and> queue s' (fold edit_list es xs)"
  using assms
proof (induction es arbitrary: s xs)
  case Nil
  then show ?case by simp
next
  case (Cons e es)
  have "\<exists>t. apply_edit insert_tail remove e s = Some t \<and> queue t (edit_list e xs) \<and> live t = live s"
  proof (cases e)
    case (Append x)
    then show ?thesis using Cons.prems insert_ok [of s xs x] by (auto simp: edited_def)
  next
    case (Drop x)
    then obtain ys zs where "xs = ys @ x # zs" "x \<notin> set ys"
      using Cons.prems(3) by (auto dest: split_list_first)
    then show ?thesis using Drop Cons.prems(1) remove_ok [of s ys x zs] by (simp add: remove1_append)
  qed
  then obtain t where t: "apply_edit insert_tail remove e s = Some t" "queue t (edit_list e xs)" "live t = live s"
    by blast
  have "distinct (edit_list e xs)" using Cons.prems(2,3) by (cases e) auto
  moreover have "\<forall>x\<in>edited es. live t x" using Cons.prems(4) t(3) by (auto simp: edited_def)
  ultimately show ?case using Cons.IH [OF t(2)] Cons.prems(3) t(1) by auto
qed

end

end
