(* ===== verification/Tail_Queue.thy ===== *)
theory Tail_Queue
  imports Queue_Loops
begin

text \<open>
  The tail queues of \<^verbatim>\<open>server/queue.h\<close>, macro by macro, on a store of linked cells.  A queue
  head and the entry field of an element have the same layout: a pointer to an element
  (\<^verbatim>\<open>tqh_first\<close>, \<^verbatim>\<open>tqe_next\<close>) followed by the address of such a pointer (\<^verbatim>\<open>tqh_last\<close>,
  \<^verbatim>\<open>tqe_prev\<close>); \<^verbatim>\<open>TAILQ_LAST\<close> and \<^verbatim>\<open>TAILQ_PREV\<close> depend on that.  A cell is therefore named by
  the head or the element it belongs to, which is also the address of its first word.
  An access to a cell that is not allocated is \<open>None\<close>.  The debugging macros are empty in
  this build and are left out.
\<close>

section \<open>Cells\<close>

record tq_link =
  tq_next :: "nat option"
  tq_slot :: node

type_synonym tq_store = "node \<rightharpoonup> tq_link"

definition get_next :: "node \<Rightarrow> tq_store \<Rightarrow> nat option option" where
  "get_next n s = map_option tq_next (s n)"

definition get_slot :: "node \<Rightarrow> tq_store \<Rightarrow> node option" where
  "get_slot n s = map_option tq_slot (s n)"

definition set_next :: "node \<Rightarrow> nat option \<Rightarrow> tq_store \<Rightarrow> tq_store option" where
  "set_next n v s = map_option (\<lambda>l. s(n \<mapsto> l\<lparr>tq_next := v\<rparr>)) (s n)"

definition set_slot :: "node \<Rightarrow> node \<Rightarrow> tq_store \<Rightarrow> tq_store option" where
  "set_slot n v s = map_option (\<lambda>l. s(n \<mapsto> l\<lparr>tq_slot := v\<rparr>)) (s n)"

section \<open>The macros\<close>

definition TAILQ_FIRST :: "nat \<Rightarrow> tq_store \<Rightarrow> nat option option" where
  "TAILQ_FIRST h s = get_next (Head h) s"

definition TAILQ_NEXT :: "nat \<Rightarrow> tq_store \<Rightarrow> nat option option" where
  "TAILQ_NEXT x s = get_next (Elm x) s"

definition TAILQ_EMPTY :: "nat \<Rightarrow> tq_store \<Rightarrow> bool option" where
  "TAILQ_EMPTY h s = do { p \<leftarrow> TAILQ_FIRST h s; Some (p = None) }"

definition TAILQ_LAST :: "nat \<Rightarrow> tq_store \<Rightarrow> nat option option" where
  "TAILQ_LAST h s = do { l \<leftarrow> get_slot (Head h) s; p \<leftarrow> get_slot l s; get_next p s }"

definition TAILQ_PREV :: "nat \<Rightarrow> tq_store \<Rightarrow> nat option option" where
  "TAILQ_PREV x s = do { l \<leftarrow> get_slot (Elm x) s; p \<leftarrow> get_slot l s; get_next p s }"

definition TAILQ_INIT :: "nat \<Rightarrow> tq_store \<Rightarrow> tq_store option" where
  "TAILQ_INIT h s = do { s \<leftarrow> set_next (Head h) None s; set_slot (Head h) (Head h) s }"

text \<open>The static initialiser of a head.\<close>

definition TAILQ_HEAD_INITIALIZER :: "nat \<Rightarrow> tq_link" where
  "TAILQ_HEAD_INITIALIZER h = \<lparr>tq_next = None, tq_slot = Head h\<rparr>"

definition TAILQ_CONCAT :: "nat \<Rightarrow> nat \<Rightarrow> tq_store \<Rightarrow> tq_store option" where
  "TAILQ_CONCAT h1 h2 s =
     do {
       f2 \<leftarrow> TAILQ_FIRST h2 s;
       case f2 of
         None \<Rightarrow> Some s
       | Some y \<Rightarrow> do {
           l1 \<leftarrow> get_slot (Head h1) s;
           s \<leftarrow> set_next l1 (Some y) s;
           s \<leftarrow> set_slot (Elm y) l1 s;
           l2 \<leftarrow> get_slot (Head h2) s;
           s \<leftarrow> set_slot (Head h1) l2 s;
           TAILQ_INIT h2 s
         }
     }"

definition TAILQ_INSERT_AFTER :: "nat \<Rightarrow> nat \<Rightarrow> nat \<Rightarrow> tq_store \<Rightarrow> tq_store option" where
  "TAILQ_INSERT_AFTER h listelm elm s =
     do {
       n \<leftarrow> TAILQ_NEXT listelm s;
       s \<leftarrow> set_next (Elm elm) n s;
       s \<leftarrow> (case n of Some y \<Rightarrow> set_slot (Elm y) (Elm elm) s | None \<Rightarrow> set_slot (Head h) (Elm elm) s);
       s \<leftarrow> set_next (Elm listelm) (Some elm) s;
       set_slot (Elm elm) (Elm listelm) s
     }"

definition TAILQ_INSERT_BEFORE :: "nat \<Rightarrow> nat \<Rightarrow> tq_store \<Rightarrow> tq_store option" where
  "TAILQ_INSERT_BEFORE listelm elm s =
     do {
       p \<leftarrow> get_slot (Elm listelm) s;
       s \<leftarrow> set_slot (Elm elm) p s;
       s \<leftarrow> set_next (Elm elm) (Some listelm) s;
       p \<leftarrow> get_slot (Elm listelm) s;
       s \<leftarrow> set_next p (Some elm) s;
       set_slot (Elm listelm) (Elm elm) s
     }"

definition TAILQ_INSERT_HEAD :: "nat \<Rightarrow> nat \<Rightarrow> tq_store \<Rightarrow> tq_store option" where
  "TAILQ_INSERT_HEAD h elm s =
     do {
       f \<leftarrow> TAILQ_FIRST h s;
       s \<leftarrow> set_next (Elm elm) f s;
       s \<leftarrow> (case f of Some y \<Rightarrow> set_slot (Elm y) (Elm elm) s | None \<Rightarrow> set_slot (Head h) (Elm elm) s);
       s \<leftarrow> set_next (Head h) (Some elm) s;
       set_slot (Elm elm) (Head h) s
     }"

definition TAILQ_INSERT_TAIL :: "nat \<Rightarrow> nat \<Rightarrow> tq_store \<Rightarrow> tq_store option" where
  "TAILQ_INSERT_TAIL h elm s =
     do {
       s \<leftarrow> set_next (Elm elm) None s;
       l \<leftarrow> get_slot (Head h) s;
       s \<leftarrow> set_slot (Elm elm) l s;
       l \<leftarrow> get_slot (Head h) s;
       s \<leftarrow> set_next l (Some elm) s;
       set_slot (Head h) (Elm elm) s
     }"

definition TAILQ_REMOVE :: "nat \<Rightarrow> nat \<Rightarrow> tq_store \<Rightarrow> tq_store option" where
  "TAILQ_REMOVE h elm s =
     do {
       n \<leftarrow> TAILQ_NEXT elm s;
       p \<leftarrow> get_slot (Elm elm) s;
       s \<leftarrow> (case n of Some y \<Rightarrow> set_slot (Elm y) p s | None \<Rightarrow> set_slot (Head h) p s);
       p \<leftarrow> get_slot (Elm elm) s;
       n \<leftarrow> TAILQ_NEXT elm s;
       set_next p n s
     }"

definition TAILQ_SWAP :: "nat \<Rightarrow> nat \<Rightarrow> tq_store \<Rightarrow> tq_store option" where
  "TAILQ_SWAP h1 h2 s =
     do {
       swap_first \<leftarrow> get_next (Head h1) s;
       swap_last \<leftarrow> get_slot (Head h1) s;
       f2 \<leftarrow> get_next (Head h2) s;
       s \<leftarrow> set_next (Head h1) f2 s;
       l2 \<leftarrow> get_slot (Head h2) s;
       s \<leftarrow> set_slot (Head h1) l2 s;
       s \<leftarrow> set_next (Head h2) swap_first s;
       s \<leftarrow> set_slot (Head h2) swap_last s;
       f1 \<leftarrow> get_next (Head h1) s;
       s \<leftarrow> (case f1 of Some y \<Rightarrow> set_slot (Elm y) (Head h1) s | None \<Rightarrow> set_slot (Head h1) (Head h1) s);
       f2 \<leftarrow> get_next (Head h2) s;
       (case f2 of Some y \<Rightarrow> set_slot (Elm y) (Head h2) s | None \<Rightarrow> set_slot (Head h2) (Head h2) s)
     }"

definition TAILQ_FOREACH :: "('a \<Rightarrow> tq_store) \<Rightarrow> nat \<Rightarrow> (nat \<Rightarrow> 'a \<Rightarrow> 'a option) \<Rightarrow> 'a \<Rightarrow> 'a option" where
  "TAILQ_FOREACH st h body \<sigma> = do { v \<leftarrow> TAILQ_FIRST h (st \<sigma>); tq_loop st TAILQ_NEXT body v \<sigma> }"

definition TAILQ_FOREACH_SAFE :: "('a \<Rightarrow> tq_store) \<Rightarrow> nat \<Rightarrow> (nat \<Rightarrow> 'a \<Rightarrow> 'a option) \<Rightarrow> 'a \<Rightarrow> 'a option" where
  "TAILQ_FOREACH_SAFE st h body \<sigma> = do { v \<leftarrow> TAILQ_FIRST h (st \<sigma>); tq_loop_safe st TAILQ_NEXT body v \<sigma> }"

definition TAILQ_FOREACH_REVERSE :: "('a \<Rightarrow> tq_store) \<Rightarrow> nat \<Rightarrow> (nat \<Rightarrow> 'a \<Rightarrow> 'a option) \<Rightarrow> 'a \<Rightarrow> 'a option" where
  "TAILQ_FOREACH_REVERSE st h body \<sigma> = do { v \<leftarrow> TAILQ_LAST h (st \<sigma>); tq_loop st TAILQ_PREV body v \<sigma> }"

definition TAILQ_FOREACH_REVERSE_SAFE ::
  "('a \<Rightarrow> tq_store) \<Rightarrow> nat \<Rightarrow> (nat \<Rightarrow> 'a \<Rightarrow> 'a option) \<Rightarrow> 'a \<Rightarrow> 'a option" where
  "TAILQ_FOREACH_REVERSE_SAFE st h body \<sigma> =
     do { v \<leftarrow> TAILQ_LAST h (st \<sigma>); tq_loop_safe st TAILQ_PREV body v \<sigma> }"

text \<open>The loops that start at a given element, or at the end of the queue when it is null.\<close>

definition TAILQ_FOREACH_FROM ::
  "('a \<Rightarrow> tq_store) \<Rightarrow> nat \<Rightarrow> nat option \<Rightarrow> (nat \<Rightarrow> 'a \<Rightarrow> 'a option) \<Rightarrow> 'a \<Rightarrow> 'a option" where
  "TAILQ_FOREACH_FROM st h var body \<sigma> =
     do { v \<leftarrow> from_or var (TAILQ_FIRST h (st \<sigma>)); tq_loop st TAILQ_NEXT body v \<sigma> }"

definition TAILQ_FOREACH_FROM_SAFE ::
  "('a \<Rightarrow> tq_store) \<Rightarrow> nat \<Rightarrow> nat option \<Rightarrow> (nat \<Rightarrow> 'a \<Rightarrow> 'a option) \<Rightarrow> 'a \<Rightarrow> 'a option" where
  "TAILQ_FOREACH_FROM_SAFE st h var body \<sigma> =
     do { v \<leftarrow> from_or var (TAILQ_FIRST h (st \<sigma>)); tq_loop_safe st TAILQ_NEXT body v \<sigma> }"

definition TAILQ_FOREACH_REVERSE_FROM ::
  "('a \<Rightarrow> tq_store) \<Rightarrow> nat \<Rightarrow> nat option \<Rightarrow> (nat \<Rightarrow> 'a \<Rightarrow> 'a option) \<Rightarrow> 'a \<Rightarrow> 'a option" where
  "TAILQ_FOREACH_REVERSE_FROM st h var body \<sigma> =
     do { v \<leftarrow> from_or var (TAILQ_LAST h (st \<sigma>)); tq_loop st TAILQ_PREV body v \<sigma> }"

definition TAILQ_FOREACH_REVERSE_FROM_SAFE ::
  "('a \<Rightarrow> tq_store) \<Rightarrow> nat \<Rightarrow> nat option \<Rightarrow> (nat \<Rightarrow> 'a \<Rightarrow> 'a option) \<Rightarrow> 'a \<Rightarrow> 'a option" where
  "TAILQ_FOREACH_REVERSE_FROM_SAFE st h var body \<sigma> =
     do { v \<leftarrow> from_or var (TAILQ_LAST h (st \<sigma>)); tq_loop_safe st TAILQ_PREV body v \<sigma> }"

text \<open>
  The checks of a kernel built with \<^verbatim>\<open>INVARIANTS\<close>, which are empty otherwise; false stands for the
  panic.
\<close>

definition QMD_TAILQ_CHECK_HEAD :: "nat \<Rightarrow> tq_store \<Rightarrow> bool option" where
  "QMD_TAILQ_CHECK_HEAD h s =
     do {
       e \<leftarrow> TAILQ_EMPTY h s;
       if e then Some True
       else do { f \<leftarrow> TAILQ_FIRST h s; y \<leftarrow> f; p \<leftarrow> get_slot (Elm y) s; Some (p = Head h) }
     }"

definition QMD_TAILQ_CHECK_TAIL :: "nat \<Rightarrow> tq_store \<Rightarrow> bool option" where
  "QMD_TAILQ_CHECK_TAIL h s = do { l \<leftarrow> get_slot (Head h) s; n \<leftarrow> get_next l s; Some (n = None) }"

definition QMD_TAILQ_CHECK_NEXT :: "nat \<Rightarrow> tq_store \<Rightarrow> bool option" where
  "QMD_TAILQ_CHECK_NEXT elm s =
     do {
       n \<leftarrow> TAILQ_NEXT elm s;
       case n of None \<Rightarrow> Some True | Some y \<Rightarrow> do { p \<leftarrow> get_slot (Elm y) s; Some (p = Elm elm) }
     }"

definition QMD_TAILQ_CHECK_PREV :: "nat \<Rightarrow> tq_store \<Rightarrow> bool option" where
  "QMD_TAILQ_CHECK_PREV elm s = do { p \<leftarrow> get_slot (Elm elm) s; n \<leftarrow> get_next p s; Some (n = Some elm) }"

section \<open>The list a queue holds\<close>

text \<open>The elements \<open>xs\<close> are linked in order, after the cell \<open>p\<close> and before the element \<open>n\<close>.\<close>

fun seg :: "tq_store \<Rightarrow> node \<Rightarrow> nat list \<Rightarrow> nat option \<Rightarrow> bool" where
  "seg s p [] n \<longleftrightarrow> True"
| "seg s p (x # xs) n \<longleftrightarrow>
     s (Elm x) = Some \<lparr>tq_next = first_or xs n, tq_slot = p\<rparr> \<and> seg s (Elm x) xs n"

definition is_queue :: "nat \<Rightarrow> tq_store \<Rightarrow> nat list \<Rightarrow> bool" where
  "is_queue h s xs \<longleftrightarrow>
     distinct xs \<and> s (Head h) = Some \<lparr>tq_next = first_or xs None, tq_slot = last_node (Head h) xs\<rparr> \<and>
     seg s (Head h) xs None"

lemma seg_append [simp]: "seg s p (xs @ ys) n \<longleftrightarrow> seg s p xs (first_or ys n) \<and> seg s (last_node p xs) ys n"
  by (induction xs arbitrary: p) auto

lemma seg_cong:
  "(\<And>x. x \<in> set xs \<Longrightarrow> s' (Elm x) = s (Elm x)) \<Longrightarrow> seg s' p xs n = seg s p xs n"
  by (induction xs arbitrary: p) auto

lemma seg_update_head [simp]: "seg (s(Head h := v)) p xs n = seg s p xs n"
  by (rule seg_cong) simp

lemma seg_update_elm [simp]: "x \<notin> set xs \<Longrightarrow> seg (s(Elm x := v)) p xs n = seg s p xs n"
  by (rule seg_cong) auto

lemmas tq_access = get_next_def get_slot_def set_next_def set_slot_def

text \<open>Linking a new successor behind the last cell of a segment.\<close>

lemma seg_relink:
  assumes "distinct xs" and "seg s (Head h) xs n"
    and "s (Head h) = Some \<lparr>tq_next = first_or xs n, tq_slot = t\<rparr>"
  obtains s' where "set_next (last_node (Head h) xs) m s = Some s'" "seg s' (Head h) xs m"
    "s' (Head h) = Some \<lparr>tq_next = first_or xs m, tq_slot = t\<rparr>"
    "\<And>a. a \<noteq> Head h \<Longrightarrow> a \<noteq> last_node (Head h) xs \<Longrightarrow> s' a = s a"
proof (cases xs rule: rev_cases)
  case Nil
  with assms show ?thesis
    by (intro that [of "s(Head h \<mapsto> \<lparr>tq_next = m, tq_slot = t\<rparr>)"]) (auto simp: set_next_def)
next
  case (snoc ys z)
  with assms show ?thesis
    by (intro that [of "s(Elm z \<mapsto> \<lparr>tq_next = m, tq_slot = last_node (Head h) ys\<rparr>)"])
      (auto simp: set_next_def)
qed

lemma last_node_next:
  assumes "seg s (Head h) xs n" and "s (Head h) = Some \<lparr>tq_next = first_or xs n, tq_slot = t\<rparr>"
  shows "\<exists>l. s (last_node (Head h) xs) = Some l \<and> tq_next l = n"
  using assms by (cases xs rule: rev_cases) auto

section \<open>What each macro does to the list\<close>

definition allocated :: "tq_store \<Rightarrow> nat \<Rightarrow> bool" where
  "allocated s x \<longleftrightarrow> s (Elm x) \<noteq> None"

lemma is_queue_frame:
  assumes "is_queue h s xs" and "\<And>a. a \<in> cells h xs \<Longrightarrow> s' a = s a"
  shows "is_queue h s' xs"
proof -
  have "seg s' (Head h) xs None = seg s (Head h) xs None"
    by (rule seg_cong) (simp add: assms(2) cells_def)
  then show ?thesis using assms by (simp add: is_queue_def cells_def)
qed

lemma is_queue_allocated: "is_queue h s xs \<Longrightarrow> x \<in> set xs \<Longrightarrow> allocated s x"
proof -
  have "seg s p xs n \<Longrightarrow> x \<in> set xs \<Longrightarrow> s (Elm x) \<noteq> None" for p n
    by (induction xs arbitrary: p) auto
  then show "is_queue h s xs \<Longrightarrow> x \<in> set xs \<Longrightarrow> allocated s x"
    by (auto simp: is_queue_def allocated_def)
qed

lemma INIT_queue:
  assumes "s (Head h) \<noteq> None"
  obtains s' where "TAILQ_INIT h s = Some s'" "is_queue h s' []" "\<And>a. a \<noteq> Head h \<Longrightarrow> s' a = s a"
  using assms by (auto simp: TAILQ_INIT_def tq_access is_queue_def)

lemma INITIALIZER_queue: "is_queue h (s(Head h \<mapsto> TAILQ_HEAD_INITIALIZER h)) []"
  by (simp add: is_queue_def TAILQ_HEAD_INITIALIZER_def)

lemma FIRST_queue: "is_queue h s xs \<Longrightarrow> TAILQ_FIRST h s = Some (first_or xs None)"
  by (simp add: TAILQ_FIRST_def tq_access is_queue_def)

lemma EMPTY_queue: "is_queue h s xs \<Longrightarrow> TAILQ_EMPTY h s = Some (xs = [])"
  by (cases xs) (simp_all add: TAILQ_EMPTY_def FIRST_queue)

lemma NEXT_queue: "is_queue h s (xs @ x # ys) \<Longrightarrow> TAILQ_NEXT x s = Some (first_or ys None)"
  by (simp add: TAILQ_NEXT_def tq_access is_queue_def)

lemma LAST_queue:
  assumes "is_queue h s xs"
  shows "TAILQ_LAST h s = Some (if xs = [] then None else Some (last xs))"
proof (cases xs rule: rev_cases)
  case Nil
  with assms show ?thesis by (auto simp: TAILQ_LAST_def tq_access is_queue_def)
next
  case (snoc ys z)
  with assms last_node_next [of s h ys "Some z"] show ?thesis
    by (auto simp: TAILQ_LAST_def tq_access is_queue_def)
qed

lemma PREV_queue:
  assumes "is_queue h s (xs @ x # ys)"
  shows "TAILQ_PREV x s = Some (if xs = [] then None else Some (last xs))"
proof (cases xs rule: rev_cases)
  case Nil
  with assms last_node_next [of s h "x # ys" None] show ?thesis
    by (auto simp: TAILQ_PREV_def tq_access is_queue_def)
next
  case (snoc zs z)
  with assms last_node_next [of s h zs "Some z"] show ?thesis
    by (auto simp: TAILQ_PREV_def tq_access is_queue_def)
qed

lemma INSERT_TAIL_queue:
  assumes q: "is_queue h s xs" and x: "x \<notin> set xs" "allocated s x"
  obtains s' where "TAILQ_INSERT_TAIL h x s = Some s'" "is_queue h s' (xs @ [x])"
    "\<And>a. a \<notin> cells h (xs @ [x]) \<Longrightarrow> s' a = s a"
proof -
  let ?l = "last_node (Head h) xs"
  define t where "t = s(Elm x \<mapsto> \<lparr>tq_next = None, tq_slot = ?l\<rparr>)"
  have t: "seg t (Head h) xs None" "t (Head h) = Some \<lparr>tq_next = first_or xs None, tq_slot = ?l\<rparr>"
    using q x(1) by (simp_all add: is_queue_def t_def)
  have d: "distinct xs" using q by (simp add: is_queue_def)
  obtain u where u: "set_next ?l (Some x) t = Some u" "seg u (Head h) xs (Some x)"
    "u (Head h) = Some \<lparr>tq_next = first_or xs (Some x), tq_slot = ?l\<rparr>"
    "\<And>a. a \<noteq> Head h \<Longrightarrow> a \<noteq> ?l \<Longrightarrow> u a = t a"
    using seg_relink [OF d t] by blast
  have l: "?l = Head h \<or> (\<exists>z\<in>set xs. ?l = Elm z)" by (simp add: last_node_def)
  have ux: "u (Elm x) = Some \<lparr>tq_next = None, tq_slot = ?l\<rparr>"
  proof -
    have "Elm x \<noteq> ?l" using l x(1) by auto
    then show ?thesis using u(4) [of "Elm x"] by (simp add: t_def)
  qed
  obtain lx where lx: "s (Elm x) = Some lx" using x(2) by (auto simp: allocated_def)
  have "TAILQ_INSERT_TAIL h x s =
      Some (u(Head h \<mapsto> \<lparr>tq_next = first_or xs (Some x), tq_slot = Elm x\<rparr>))"
  proof -
    have "set_next (Elm x) None s = Some (s(Elm x \<mapsto> lx\<lparr>tq_next := None\<rparr>))"
      using lx by (simp add: set_next_def)
    moreover have "get_slot (Head h) (s(Elm x \<mapsto> lx\<lparr>tq_next := None\<rparr>)) = Some ?l"
      using q by (simp add: get_slot_def is_queue_def)
    moreover have "set_slot (Elm x) ?l (s(Elm x \<mapsto> lx\<lparr>tq_next := None\<rparr>)) = Some t"
      by (cases lx) (simp add: set_slot_def t_def)
    moreover have "get_slot (Head h) t = Some ?l" using t(2) by (simp add: get_slot_def)
    ultimately show ?thesis
      using u(1,3) by (simp add: TAILQ_INSERT_TAIL_def set_slot_def)
  qed
  moreover have "is_queue h (u(Head h \<mapsto> \<lparr>tq_next = first_or xs (Some x), tq_slot = Elm x\<rparr>)) (xs @ [x])"
    using d x(1) u(2) ux by (simp add: is_queue_def)
  moreover have "(u(Head h \<mapsto> \<lparr>tq_next = first_or xs (Some x), tq_slot = Elm x\<rparr>)) a = s a"
    if "a \<notin> cells h (xs @ [x])" for a
  proof -
    have "a \<noteq> Head h" "a \<noteq> ?l" "a \<noteq> Elm x" using that l by (auto simp: cells_def)
    then show ?thesis using u(4) [of a] by (simp add: t_def)
  qed
  ultimately show ?thesis using that by blast
qed

lemma REMOVE_queue:
  assumes q: "is_queue h s (xs @ x # ys)"
  obtains s' where "TAILQ_REMOVE h x s = Some s'" "is_queue h s' (xs @ ys)"
    "\<And>a. a \<notin> cells h (xs @ ys) \<Longrightarrow> s' a = s a"
proof -
  let ?l = "last_node (Head h) xs"
  define t where "t = (case ys of
      [] \<Rightarrow> s(Head h \<mapsto> \<lparr>tq_next = first_or xs (Some x), tq_slot = ?l\<rparr>)
    | y # zs \<Rightarrow> s(Elm y \<mapsto> \<lparr>tq_next = first_or zs None, tq_slot = ?l\<rparr>))"
  have d: "distinct xs" "distinct ys" "set xs \<inter> set ys = {}" "x \<notin> set xs" "x \<notin> set ys"
    using q by (auto simp: is_queue_def)
  have sx: "s (Elm x) = Some \<lparr>tq_next = first_or ys None, tq_slot = ?l\<rparr>"
    using q by (simp add: is_queue_def)
  have t: "seg t (Head h) xs (Some x)" "seg t ?l ys None"
    "t (Head h) = Some \<lparr>tq_next = first_or xs (Some x), tq_slot = last_node ?l ys\<rparr>" "t (Elm x) = s (Elm x)"
    using q d by (auto simp: t_def is_queue_def split: list.split)
  obtain u where u: "set_next ?l (first_or ys None) t = Some u" "seg u (Head h) xs (first_or ys None)"
    "u (Head h) = Some \<lparr>tq_next = first_or xs (first_or ys None), tq_slot = last_node ?l ys\<rparr>"
    "\<And>a. a \<noteq> Head h \<Longrightarrow> a \<noteq> ?l \<Longrightarrow> u a = t a"
    using seg_relink [OF d(1) t(1,3)] by blast
  have l: "?l = Head h \<or> (\<exists>z\<in>set xs. ?l = Elm z)" by (simp add: last_node_def)
  have "(case first_or ys None of Some y \<Rightarrow> set_slot (Elm y) ?l s | None \<Rightarrow> set_slot (Head h) ?l s) = Some t"
    using q by (cases ys) (auto simp: t_def tq_access is_queue_def)
  then have run: "TAILQ_REMOVE h x s = Some u"
    using sx t(4) u(1) by (simp add: TAILQ_REMOVE_def TAILQ_NEXT_def get_next_def get_slot_def)
  have "seg u ?l ys None = seg t ?l ys None"
    using d(3) l by (intro seg_cong u(4)) auto
  then have "is_queue h u (xs @ ys)" using u(2,3) t(2) d by (simp add: is_queue_def)
  moreover have "u a = s a" if "a \<notin> cells h (xs @ ys)" for a
  proof -
    have "a \<noteq> Head h" "a \<noteq> ?l" using that l by (auto simp: cells_def)
    moreover have "t a = s a" using that by (auto simp: t_def cells_def split: list.split)
    ultimately show ?thesis using u(4) [of a] by simp
  qed
  ultimately show ?thesis using run that by blast
qed


lemma INSERT_HEAD_queue:
  assumes q: "is_queue h s xs" and x: "x \<notin> set xs" "allocated s x"
  obtains s' where "TAILQ_INSERT_HEAD h x s = Some s'" "is_queue h s' (x # xs)"
    "\<And>a. a \<notin> cells h (x # xs) \<Longrightarrow> s' a = s a"
proof -
  obtain lx where lx: "s (Elm x) = Some lx" using x(2) by (auto simp: allocated_def)
  show ?thesis
  proof (cases xs)
    case Nil
    show ?thesis
      by (rule that [of "s(Head h \<mapsto> \<lparr>tq_next = Some x, tq_slot = Elm x\<rparr>,
          Elm x \<mapsto> \<lparr>tq_next = None, tq_slot = Head h\<rparr>)"])
        (use q lx Nil in \<open>cases lx; auto simp: TAILQ_INSERT_HEAD_def TAILQ_FIRST_def tq_access is_queue_def cells_def\<close>)+
  next
    case (Cons y ys)
    show ?thesis
      by (rule that [of "s(Head h \<mapsto> \<lparr>tq_next = Some x, tq_slot = last_node (Head h) xs\<rparr>,
          Elm x \<mapsto> \<lparr>tq_next = Some y, tq_slot = Head h\<rparr>,
          Elm y \<mapsto> \<lparr>tq_next = first_or ys None, tq_slot = Elm x\<rparr>)"])
        (use q lx x(1) Cons in \<open>cases lx; auto simp: TAILQ_INSERT_HEAD_def TAILQ_FIRST_def tq_access is_queue_def cells_def\<close>)+
  qed
qed

lemma INSERT_AFTER_queue:
  assumes q: "is_queue h s (xs @ y # ys)" and x: "x \<notin> set (xs @ y # ys)" "allocated s x"
  obtains s' where "TAILQ_INSERT_AFTER h y x s = Some s'" "is_queue h s' (xs @ y # x # ys)"
    "\<And>a. a \<notin> cells h (xs @ y # x # ys) \<Longrightarrow> s' a = s a"
proof -
  obtain lx where lx: "s (Elm x) = Some lx" using x(2) by (auto simp: allocated_def)
  let ?s1 = "s(Elm y \<mapsto> \<lparr>tq_next = Some x, tq_slot = last_node (Head h) xs\<rparr>,
      Elm x \<mapsto> \<lparr>tq_next = first_or ys None, tq_slot = Elm y\<rparr>)"
  show ?thesis
  proof (cases ys)
    case Nil
    show ?thesis
      by (rule that [of "?s1(Head h \<mapsto> \<lparr>tq_next = first_or xs (Some y), tq_slot = Elm x\<rparr>)"])
        (use q lx x(1) Nil in \<open>cases lx; auto simp: TAILQ_INSERT_AFTER_def TAILQ_NEXT_def tq_access is_queue_def cells_def\<close>)+
  next
    case (Cons z zs)
    show ?thesis
      by (rule that [of "?s1(Elm z \<mapsto> \<lparr>tq_next = first_or zs None, tq_slot = Elm x\<rparr>)"])
        (use q lx x(1) Cons in \<open>cases lx; auto simp: TAILQ_INSERT_AFTER_def TAILQ_NEXT_def tq_access is_queue_def cells_def\<close>)+
  qed
qed

lemma INSERT_BEFORE_queue:
  assumes q: "is_queue h s (xs @ y # ys)" and x: "x \<notin> set (xs @ y # ys)" "allocated s x"
  obtains s' where "TAILQ_INSERT_BEFORE y x s = Some s'" "is_queue h s' (xs @ x # y # ys)"
    "\<And>a. a \<notin> cells h (xs @ x # y # ys) \<Longrightarrow> s' a = s a"
proof -
  let ?l = "last_node (Head h) xs"
  obtain lx where lx: "s (Elm x) = Some lx" using x(2) by (auto simp: allocated_def)
  define t where "t = s(Elm x \<mapsto> \<lparr>tq_next = Some y, tq_slot = ?l\<rparr>)"
  have d: "distinct xs" "distinct ys" "set xs \<inter> set ys = {}" "y \<notin> set xs" "y \<notin> set ys" "x \<noteq> y"
    "x \<notin> set xs" "x \<notin> set ys"
    using q x(1) by (auto simp: is_queue_def)
  have sy: "s (Elm y) = Some \<lparr>tq_next = first_or ys None, tq_slot = ?l\<rparr>"
    using q by (simp add: is_queue_def)
  have t: "seg t (Head h) xs (Some y)"
    "t (Head h) = Some \<lparr>tq_next = first_or xs (Some y), tq_slot = last_node (Elm y) ys\<rparr>"
    "seg t (Elm y) ys None" "t (Elm y) = s (Elm y)"
    using q d by (simp_all add: is_queue_def t_def)
  obtain u where u: "set_next ?l (Some x) t = Some u" "seg u (Head h) xs (Some x)"
    "u (Head h) = Some \<lparr>tq_next = first_or xs (Some x), tq_slot = last_node (Elm y) ys\<rparr>"
    "\<And>a. a \<noteq> Head h \<Longrightarrow> a \<noteq> ?l \<Longrightarrow> u a = t a"
    using seg_relink [OF d(1) t(1,2)] by blast
  have l: "?l = Head h \<or> (\<exists>z\<in>set xs. ?l = Elm z)" by (simp add: last_node_def)
  have off: "u (Elm a) = t (Elm a)" if "a \<notin> set xs" for a
    using that l u(4) [of "Elm a"] by fastforce
  define v where "v = u(Elm y \<mapsto> \<lparr>tq_next = first_or ys None, tq_slot = Elm x\<rparr>)"
  have run: "TAILQ_INSERT_BEFORE y x s = Some v"
  proof -
    have "get_slot (Elm y) s = Some ?l" "get_slot (Elm y) t = Some ?l"
      using sy t(4) by (simp_all add: get_slot_def)
    moreover have "set_slot (Elm x) ?l s = Some (s(Elm x \<mapsto> lx\<lparr>tq_slot := ?l\<rparr>))"
      using lx by (simp add: set_slot_def)
    moreover have "set_next (Elm x) (Some y) (s(Elm x \<mapsto> lx\<lparr>tq_slot := ?l\<rparr>)) = Some t"
      by (cases lx) (simp add: set_next_def t_def)
    moreover have "set_slot (Elm y) (Elm x) u = Some v"
      using off [OF d(4)] t(4) sy by (simp add: set_slot_def v_def)
    ultimately show ?thesis using u(1) by (simp add: TAILQ_INSERT_BEFORE_def)
  qed
  have "seg u (Elm y) ys None = seg t (Elm y) ys None" using d(3) by (intro seg_cong off) auto
  then have "is_queue h v (xs @ x # y # ys)"
    using u(2,3) t(3) d off [OF d(7)] by (simp add: is_queue_def v_def t_def)
  moreover have "v a = s a" if "a \<notin> cells h (xs @ x # y # ys)" for a
  proof -
    have "a \<noteq> Head h" "a \<noteq> ?l" "a \<noteq> Elm x" "a \<noteq> Elm y" using that l by (auto simp: cells_def)
    then show ?thesis using u(4) [of a] by (simp add: t_def v_def)
  qed
  ultimately show ?thesis using run that by blast
qed

lemma CONCAT_queue:
  assumes q: "is_queue h1 s xs" "is_queue h2 s ys" and d: "h1 \<noteq> h2" "set xs \<inter> set ys = {}"
  obtains s' where "TAILQ_CONCAT h1 h2 s = Some s'" "is_queue h1 s' (xs @ ys)" "is_queue h2 s' []"
    "\<And>a. a \<notin> cells h1 xs \<union> cells h2 ys \<Longrightarrow> s' a = s a"
proof (cases ys)
  case Nil
  then have "TAILQ_CONCAT h1 h2 s = Some s"
    using FIRST_queue [OF q(2)] by (simp add: TAILQ_CONCAT_def)
  then show ?thesis using that q Nil by auto
next
  case (Cons y zs)
  let ?l = "last_node (Head h1) xs"
  have l: "?l = Head h1 \<or> (\<exists>z\<in>set xs. ?l = Elm z)" by (simp add: last_node_def)
  have h1: "seg s (Head h1) xs None" "s (Head h1) = Some \<lparr>tq_next = first_or xs None, tq_slot = ?l\<rparr>"
    "distinct xs" using q(1) by (simp_all add: is_queue_def)
  obtain u where u: "set_next ?l (Some y) s = Some u" "seg u (Head h1) xs (Some y)"
    "u (Head h1) = Some \<lparr>tq_next = first_or xs (Some y), tq_slot = ?l\<rparr>"
    "\<And>a. a \<noteq> Head h1 \<Longrightarrow> a \<noteq> ?l \<Longrightarrow> u a = s a"
    using seg_relink [OF h1(3,1,2)] by blast
  have off: "u (Elm a) = s (Elm a)" if "a \<notin> set xs" for a
    using that l u(4) [of "Elm a"] by fastforce
  have uh2: "u (Head h2) = Some \<lparr>tq_next = Some y, tq_slot = last_node (Elm y) zs\<rparr>"
    using u(4) [of "Head h2"] l d(1) q(2) Cons by (auto simp: is_queue_def)
  have yx: "y \<notin> set xs" "set xs \<inter> set zs = {}" "y \<notin> set zs" "distinct zs"
    using d(2) Cons q(2) by (auto simp: is_queue_def)
  have uy: "u (Elm y) = Some \<lparr>tq_next = first_or zs None, tq_slot = Head h2\<rparr>"
    using off [OF yx(1)] q(2) Cons by (simp add: is_queue_def)
  define v where "v = u(Elm y \<mapsto> \<lparr>tq_next = first_or zs None, tq_slot = ?l\<rparr>,
      Head h1 \<mapsto> \<lparr>tq_next = first_or xs (Some y), tq_slot = last_node (Elm y) zs\<rparr>,
      Head h2 \<mapsto> \<lparr>tq_next = None, tq_slot = Head h2\<rparr>)"
  have run: "TAILQ_CONCAT h1 h2 s = Some v"
  proof -
    have g: "TAILQ_FIRST h2 s = Some (Some y)" "get_slot (Head h1) s = Some ?l"
      using FIRST_queue [OF q(2)] Cons h1(2) by (simp_all add: get_slot_def)
    define u1 where "u1 = u(Elm y \<mapsto> \<lparr>tq_next = first_or zs None, tq_slot = ?l\<rparr>)"
    define u2 where "u2 = u1(Head h1 \<mapsto> \<lparr>tq_next = first_or xs (Some y), tq_slot = last_node (Elm y) zs\<rparr>)"
    have "set_slot (Elm y) ?l u = Some u1" using uy by (simp add: set_slot_def u1_def)
    moreover have "get_slot (Head h2) u1 = Some (last_node (Elm y) zs)"
      using uh2 by (simp add: get_slot_def u1_def)
    moreover have "set_slot (Head h1) (last_node (Elm y) zs) u1 = Some u2"
      using u(3) by (simp add: set_slot_def u1_def u2_def)
    moreover have "TAILQ_INIT h2 u2 = Some v"
      using uh2 d(1) by (simp add: TAILQ_INIT_def set_slot_def set_next_def u1_def u2_def v_def)
    ultimately show ?thesis using g u(1) by (simp add: TAILQ_CONCAT_def)
  qed
  have "seg u (Elm y) zs None = seg s (Elm y) zs None" using yx(2) by (intro seg_cong off) auto
  then have "is_queue h1 v (xs @ ys)"
    using u(2) q d(1) h1(3) yx Cons by (simp add: is_queue_def v_def)
  moreover have "is_queue h2 v []" by (simp add: is_queue_def v_def)
  moreover have "v a = s a" if "a \<notin> cells h1 xs \<union> cells h2 ys" for a
  proof -
    have "a \<noteq> Head h1" "a \<noteq> ?l" "a \<noteq> Elm y" "a \<noteq> Head h2" using that l Cons by (auto simp: cells_def)
    then show ?thesis using u(4) [of a] by (simp add: v_def)
  qed
  ultimately show ?thesis using run that by blast
qed

text \<open>Exchanging two queues: the heads change places, and the first elements point back to their new head.\<close>

lemma SWAP_queue:
  assumes q: "is_queue h1 s xs" "is_queue h2 s ys" and d: "h1 \<noteq> h2" "set xs \<inter> set ys = {}"
  obtains s' where "TAILQ_SWAP h1 h2 s = Some s'" "is_queue h1 s' ys" "is_queue h2 s' xs"
    "\<And>a. a \<notin> cells h1 xs \<union> cells h2 ys \<Longrightarrow> s' a = s a"
proof -
  define heads where "heads = s(Head h1 \<mapsto> \<lparr>tq_next = first_or ys None, tq_slot = last_node (Head h1) ys\<rparr>,
      Head h2 \<mapsto> \<lparr>tq_next = first_or xs None, tq_slot = last_node (Head h2) xs\<rparr>)"
  define prevs where "prevs = (\<lambda>h zs (t :: tq_store). case zs of [] \<Rightarrow> t
      | z # zs' \<Rightarrow> t(Elm z \<mapsto> \<lparr>tq_next = first_or zs' None, tq_slot = Head h\<rparr>))"
  define s' where "s' = prevs h2 xs (prevs h1 ys heads)"
  have "TAILQ_SWAP h1 h2 s = Some s'"
    using q d by (cases xs; cases ys)
      (auto simp: TAILQ_SWAP_def tq_access is_queue_def s'_def prevs_def heads_def fun_upd_twist)
  moreover have "is_queue h1 s' ys" "is_queue h2 s' xs"
    using q d by (cases xs; cases ys; simp add: is_queue_def s'_def prevs_def heads_def)+
  moreover have "s' a = s a" if "a \<notin> cells h1 xs \<union> cells h2 ys" for a
    using that by (cases xs; cases ys) (auto simp: s'_def prevs_def heads_def cells_def)
  ultimately show ?thesis using that by blast
qed

section \<open>The interface clients rely on\<close>

interpretation tq: edited_queue "is_queue h" "TAILQ_FIRST h" TAILQ_NEXT allocated
  "TAILQ_INSERT_TAIL h" "TAILQ_REMOVE h" for h
proof
  show "TAILQ_FIRST h s = Some (first_or xs None)" if "is_queue h s xs" for s xs
    using that by (rule FIRST_queue)
  show "TAILQ_NEXT x s = Some (first_or ys None)" if "is_queue h s (xs @ x # ys)" for s xs x ys
    using that by (rule NEXT_queue)
  show "\<exists>s'. TAILQ_INSERT_TAIL h x s = Some s' \<and> is_queue h s' (xs @ [x]) \<and> allocated s' = allocated s"
    if q: "is_queue h s xs" "x \<notin> set xs" "allocated s x" for s xs x
  proof -
    obtain s' where s': "TAILQ_INSERT_TAIL h x s = Some s'" "is_queue h s' (xs @ [x])"
      "\<And>a. a \<notin> cells h (xs @ [x]) \<Longrightarrow> s' a = s a"
      using INSERT_TAIL_queue [OF q] by blast
    have "allocated s' y = allocated s y" for y
      using s'(3) [of "Elm y"] is_queue_allocated [OF s'(2), of y] is_queue_allocated [OF q(1), of y] q(3)
      by (cases "y \<in> set (xs @ [x])") (auto simp: allocated_def)
    then show ?thesis using s' by auto
  qed
  show "\<exists>s'. TAILQ_REMOVE h x s = Some s' \<and> is_queue h s' (xs @ ys) \<and> allocated s' = allocated s"
    if q: "is_queue h s (xs @ x # ys)" for s xs x ys
  proof -
    obtain s' where s': "TAILQ_REMOVE h x s = Some s'" "is_queue h s' (xs @ ys)"
      "\<And>a. a \<notin> cells h (xs @ ys) \<Longrightarrow> s' a = s a"
      using REMOVE_queue [OF q] by blast
    have "allocated s' y = allocated s y" for y
      using s'(3) [of "Elm y"] is_queue_allocated [OF s'(2), of y] is_queue_allocated [OF q, of y]
      by (cases "y \<in> set (xs @ ys)") (auto simp: allocated_def)
    then show ?thesis using s' by auto
  qed
qed

text \<open>Backwards, the list is the reversed one.\<close>

interpretation tqr: traversal "\<lambda>s xs. is_queue h s (rev xs)" "TAILQ_LAST h" TAILQ_PREV for h
proof
  show "TAILQ_LAST h s = Some (first_or xs None)" if "is_queue h s (rev xs)" for s xs
    using LAST_queue [OF that] by (cases xs) simp_all
  show "TAILQ_PREV x s = Some (first_or ys None)" if "is_queue h s (rev (xs @ x # ys))" for s xs x ys
    using PREV_queue [of h s "rev ys" x "rev xs"] that by (cases ys) simp_all
qed


lemma TAILQ_loops:
  assumes q: "is_queue h s (ys @ x # zs)"
  shows "TAILQ_FOREACH fst h collect (s, []) = Some (s, ys @ x # zs)"
    and "TAILQ_FOREACH_SAFE fst h collect (s, []) = Some (s, ys @ x # zs)"
    and "TAILQ_FOREACH_FROM fst h (Some x) collect (s, []) = Some (s, x # zs)"
    and "TAILQ_FOREACH_FROM_SAFE fst h (Some x) collect (s, []) = Some (s, x # zs)"
    and "TAILQ_FOREACH_REVERSE fst h collect (s, []) = Some (s, rev (ys @ x # zs))"
    and "TAILQ_FOREACH_REVERSE_SAFE fst h collect (s, []) = Some (s, rev (ys @ x # zs))"
    and "TAILQ_FOREACH_REVERSE_FROM fst h (Some x) collect (s, []) = Some (s, x # rev ys)"
    and "TAILQ_FOREACH_REVERSE_FROM_SAFE fst h (Some x) collect (s, []) = Some (s, x # rev ys)"
proof -
  have r: "is_queue h s (rev (rev zs @ x # rev ys))" "is_queue h s (rev (rev (ys @ x # zs)))" using q by simp_all
  note loops = tq.foreach_collects [OF q] tq.from_collects [OF q]
    tqr.foreach_collects [OF r(2)] tqr.from_collects [OF r(1)]
  then show "TAILQ_FOREACH fst h collect (s, []) = Some (s, ys @ x # zs)"
    "TAILQ_FOREACH_SAFE fst h collect (s, []) = Some (s, ys @ x # zs)"
    "TAILQ_FOREACH_FROM fst h (Some x) collect (s, []) = Some (s, x # zs)"
    "TAILQ_FOREACH_FROM_SAFE fst h (Some x) collect (s, []) = Some (s, x # zs)"
    "TAILQ_FOREACH_REVERSE fst h collect (s, []) = Some (s, rev (ys @ x # zs))"
    "TAILQ_FOREACH_REVERSE_SAFE fst h collect (s, []) = Some (s, rev (ys @ x # zs))"
    "TAILQ_FOREACH_REVERSE_FROM fst h (Some x) collect (s, []) = Some (s, x # rev ys)"
    "TAILQ_FOREACH_REVERSE_FROM_SAFE fst h (Some x) collect (s, []) = Some (s, x # rev ys)"
    by (simp_all add: TAILQ_FOREACH_def TAILQ_FOREACH_SAFE_def TAILQ_FOREACH_FROM_def
        TAILQ_FOREACH_FROM_SAFE_def TAILQ_FOREACH_REVERSE_def TAILQ_FOREACH_REVERSE_SAFE_def
        TAILQ_FOREACH_REVERSE_FROM_def TAILQ_FOREACH_REVERSE_FROM_SAFE_def)
qed

section \<open>Properties\<close>

text \<open>
  Appending elements with \<^verbatim>\<open>TAILQ_INSERT_TAIL\<close> keeps arrival order: starting from an
  initialised queue, inserting the allocated, pairwise different elements \<open>ys\<close> one after the
  other succeeds, the queue is then exactly \<open>ys\<close>, walking it forwards visits \<open>ys\<close> and walking it
  backwards visits \<open>ys\<close> reversed.
\<close>

theorem tailq_fifo:
  assumes "s (Head h) \<noteq> None" and "distinct ys" and "\<forall>y\<in>set ys. allocated s y"
  shows "\<exists>s0 s'. TAILQ_INIT h s = Some s0 \<and> fold_opt (TAILQ_INSERT_TAIL h) ys s0 = Some s' \<and>
           TAILQ_FOREACH fst h collect (s', []) = Some (s', ys) \<and>
           TAILQ_FOREACH_REVERSE fst h collect (s', []) = Some (s', rev ys)"
proof -
  obtain s0 where s0: "TAILQ_INIT h s = Some s0" "is_queue h s0 []" "\<And>a. a \<noteq> Head h \<Longrightarrow> s0 a = s a"
    using INIT_queue [of s h] assms(1) by blast
  have "\<forall>y\<in>set ys. allocated s0 y" using assms(3) s0(3) by (simp add: allocated_def)
  then obtain s' where s': "fold_opt (TAILQ_INSERT_TAIL h) ys s0 = Some s'" "is_queue h s' ys"
    using tq.insert_all [OF s0(2) assms(2)] by auto
  have "TAILQ_FOREACH fst h collect (s', []) = Some (s', ys)"
    using tq.foreach_collects(1) [OF s'(2)] by (simp add: TAILQ_FOREACH_def)
  moreover have "TAILQ_FOREACH_REVERSE fst h collect (s', []) = Some (s', rev ys)"
    using tqr.foreach_collects(1) [of h s' "rev ys"] s'(2) by (simp add: TAILQ_FOREACH_REVERSE_def)
  ultimately show ?thesis using s0(1) s'(1) by blast
qed

definition blank_cells :: tq_store where
  "blank_cells = (\<lambda>a. Some \<lparr>tq_next = None, tq_slot = Head 0\<rparr>)"

theorem tailq_fifo_witness:
  "\<exists>s0 s'. TAILQ_INIT 0 blank_cells = Some s0 \<and> fold_opt (TAILQ_INSERT_TAIL 0) [5, 3, 9] s0 = Some s' \<and>
     TAILQ_FOREACH fst 0 collect (s', []) = Some (s', [5, 3, 9]) \<and>
     TAILQ_FOREACH_REVERSE fst 0 collect (s', []) = Some (s', rev [5, 3, 9])"
  by (rule tailq_fifo) (simp_all add: blank_cells_def allocated_def)


text \<open>A queue is a chain of forward pointers with the right back pointers and the right end.\<close>

lemma seg_by_checks:
  assumes "chain (\<lambda>a. get_next a s) p xs None" and "distinct xs"
  shows "seg s p xs None \<longleftrightarrow> (\<forall>y. first_or xs None = Some y \<longrightarrow> get_slot (Elm y) s = Some p) \<and>
           (\<forall>x\<in>set xs. \<forall>y. get_next (Elm x) s = Some (Some y) \<longrightarrow> get_slot (Elm y) s = Some (Elm x))"
  using assms
proof (induction xs arbitrary: p)
  case (Cons x xs)
  obtain l where l: "s (Elm x) = Some l" "tq_next l = first_or xs None"
    using chain_first [of "\<lambda>a. get_next a s" "Elm x" xs None] Cons.prems by (auto simp: get_next_def)
  then have "s (Elm x) = Some \<lparr>tq_next = first_or xs None, tq_slot = p\<rparr> \<longleftrightarrow> get_slot (Elm x) s = Some p"
    by (cases l) (auto simp: get_slot_def)
  then show ?case using Cons l by (auto simp: get_next_def)
qed simp

lemma chain_end_unique:
  assumes "chain l (Head h) xs None" and "a \<in> cells h xs" and "l a = Some None"
  shows "a = last_node (Head h) xs"
proof (cases "a = Head h")
  case True
  then show ?thesis using assms chain_first [OF assms(1)] by simp
next
  case False
  then obtain ys x zs where x: "a = Elm x" "xs = ys @ x # zs" using assms(2) by (auto simp: cells_def dest: split_list)
  then have "chain l (Elm x) zs None" using assms(1) by simp
  then have "first_or zs None = None" using chain_first assms(3) x(1) by fastforce
  then show ?thesis using x by simp
qed

text \<open>
  C38: the checks of the debugging build decide whether a tail queue is in order.  When the
  forward pointers of a head form a list of different elements and its \<^verbatim>\<open>tqh_last\<close> is one of the
  queue's own cells, the queue is well-formed if and only if the checks of head, tail and every
  element's successor pass, and then the checks of the predecessors pass too.
\<close>

theorem tailq_checks_decide:
  assumes lk: "linked h (\<lambda>a. get_next a s) xs" and own: "get_slot (Head h) s = Some e" "e \<in> cells h xs"
  shows "(is_queue h s xs \<longleftrightarrow> QMD_TAILQ_CHECK_HEAD h s = Some True \<and> QMD_TAILQ_CHECK_TAIL h s = Some True \<and>
            (\<forall>x\<in>set xs. QMD_TAILQ_CHECK_NEXT x s = Some True)) \<and>
         (is_queue h s xs \<longrightarrow> (\<forall>x\<in>set xs. QMD_TAILQ_CHECK_PREV x s = Some True))"
proof
  have c: "chain (\<lambda>a. get_next a s) (Head h) xs None" and d: "distinct xs" using lk by (simp_all add: linked_def)
  have f: "get_next (Head h) s = Some (first_or xs None)" using chain_first [OF c] .
  have head: "QMD_TAILQ_CHECK_HEAD h s = Some True \<longleftrightarrow>
      (\<forall>y. first_or xs None = Some y \<longrightarrow> get_slot (Elm y) s = Some (Head h))"
    using f by (cases "first_or xs None")
      (auto simp: QMD_TAILQ_CHECK_HEAD_def TAILQ_EMPTY_def TAILQ_FIRST_def bind_eq_Some_conv)
  have tail: "QMD_TAILQ_CHECK_TAIL h s = Some True \<longleftrightarrow> e = last_node (Head h) xs"
    using own chain_end_unique [OF c own(2)] chain_last [OF c]
    by (auto simp: QMD_TAILQ_CHECK_TAIL_def bind_eq_Some_conv)
  have nxt: "QMD_TAILQ_CHECK_NEXT x s = Some True \<longleftrightarrow>
      (\<forall>y. get_next (Elm x) s = Some (Some y) \<longrightarrow> get_slot (Elm y) s = Some (Elm x))" if x: "x \<in> set xs" for x
  proof -
    obtain n where "get_next (Elm x) s = Some n" using linked_allocated [OF lk x] by blast
    then show ?thesis by (cases n) (auto simp: QMD_TAILQ_CHECK_NEXT_def TAILQ_NEXT_def bind_eq_Some_conv)
  qed
  obtain l where l: "s (Head h) = Some l" "tq_next l = first_or xs None" "tq_slot l = e"
    using f own(1) by (auto simp: get_next_def get_slot_def)
  then have "s (Head h) = Some \<lparr>tq_next = first_or xs None, tq_slot = last_node (Head h) xs\<rparr> \<longleftrightarrow>
      e = last_node (Head h) xs"
    by (cases l) auto
  then show "is_queue h s xs \<longleftrightarrow> QMD_TAILQ_CHECK_HEAD h s = Some True \<and> QMD_TAILQ_CHECK_TAIL h s = Some True \<and>
      (\<forall>x\<in>set xs. QMD_TAILQ_CHECK_NEXT x s = Some True)"
    using seg_by_checks [OF c d] d head tail nxt by (auto simp: is_queue_def)
  show "is_queue h s xs \<longrightarrow> (\<forall>x\<in>set xs. QMD_TAILQ_CHECK_PREV x s = Some True)"
  proof (intro impI ballI)
    fix x
    assume q: "is_queue h s xs" and "x \<in> set xs"
    then obtain ys zs where x: "xs = ys @ x # zs" by (auto dest: split_list)
    then have "get_slot (Elm x) s = Some (last_node (Head h) ys)" using q by (simp add: is_queue_def get_slot_def)
    then show "QMD_TAILQ_CHECK_PREV x s = Some True"
      using linked_before [of h "\<lambda>a. get_next a s" ys x zs] lk x by (simp add: QMD_TAILQ_CHECK_PREV_def)
  qed
qed

definition sample_queue :: tq_store where
  "sample_queue =
     [Head 0 \<mapsto> \<lparr>tq_next = Some 5, tq_slot = Elm 3\<rparr>, Elm 5 \<mapsto> \<lparr>tq_next = Some 3, tq_slot = Head 0\<rparr>,
      Elm 3 \<mapsto> \<lparr>tq_next = None, tq_slot = Elm 5\<rparr>, Elm 9 \<mapsto> \<lparr>tq_next = None, tq_slot = Head 0\<rparr>,
      Head 1 \<mapsto> \<lparr>tq_next = None, tq_slot = Head 1\<rparr>]"


theorem tailq_checks_decide_witness:
  "QMD_TAILQ_CHECK_TAIL 0 sample_queue = Some True \<and> QMD_TAILQ_CHECK_NEXT 5 sample_queue = Some True"
proof -
  have "is_queue 0 sample_queue [5, 3]" by (simp add: is_queue_def sample_queue_def)
  moreover have "linked 0 (\<lambda>a. get_next a sample_queue) [5, 3]"
    by (simp add: linked_def get_next_def sample_queue_def)
  moreover have "get_slot (Head 0) sample_queue = Some (Elm 3)" "Elm 3 \<in> cells 0 [5, 3]"
    by (simp_all add: get_slot_def sample_queue_def)
  ultimately show ?thesis using tailq_checks_decide by simp
qed

end
