(* ===== verification/Server_Main.thy ===== *)
theory Server_Main
  imports Client_Session Tail_Queue
begin

text \<open>
  The main thread of \<^verbatim>\<open>server/aesdsocket.c\<close>: start-up, the accept loop, the queue of client
  connections and the shutdown.  A \<^verbatim>\<open>struct client_queue\<close> lives at an address of \<open>srv_mem\<close>, its
  queue links in the cell of the same number in \<open>srv_q\<close>; both go away with \<^verbatim>\<open>free\<close>.  What the
  operating system answers to the calls of one function is an argument of that function.
  \<open>None\<close> is an access to memory that is not allocated.  The client threads appear with what
  they do to the shared state when they end: setting \<^verbatim>\<open>task_finished\<close> under the queue lock.
\<close>

section \<open>State\<close>

record server =
  srv_q :: tq_store
  srv_mem :: "nat \<rightharpoonup> client_queue"
  srv_fds :: "int list"
  srv_threads :: "nat list"
  queue_lock :: bool
  run_connections :: bool

text \<open>The queue head \<^verbatim>\<open>head\<close>.\<close>

definition head_s :: nat where "head_s = 0"

record create_env =
  new_elem :: "nat option"
  open_fd :: int
  thread_rc :: int
  new_thread :: nat
  lock_rc :: int
  unlock_rc :: int

definition lock_queue :: "server \<Rightarrow> server" where
  "lock_queue s = s\<lparr>queue_lock := True\<rparr>"

definition unlock_queue :: "server \<Rightarrow> server" where
  "unlock_queue s = s\<lparr>queue_lock := False\<rparr>"

definition free_client :: "nat \<Rightarrow> server \<Rightarrow> server" where
  "free_client e s = s\<lparr>srv_q := (srv_q s)(Elm e := None), srv_mem := (srv_mem s)(e := None)\<rparr>"

definition close_fd :: "int \<Rightarrow> server \<Rightarrow> server" where
  "close_fd n s = s\<lparr>srv_fds := remove1 n (srv_fds s)\<rparr>"

definition set_client :: "nat \<Rightarrow> client_queue \<Rightarrow> server \<Rightarrow> server" where
  "set_client e c s = s\<lparr>srv_mem := (srv_mem s)(e \<mapsto> c)\<rparr>"

section \<open>Creating a client thread\<close>

text \<open>Fresh memory holds arbitrary values; zeros stand for them.\<close>

definition malloc_client :: "nat \<Rightarrow> int \<Rightarrow> server \<Rightarrow> server" where
  "malloc_client e conn s =
     s\<lparr>srv_q := (srv_q s)(Elm e \<mapsto> \<lparr>tq_next = None, tq_slot = Head head_s\<rparr>),
       srv_mem := (srv_mem s)(e \<mapsto> \<lparr>connfd = conn, task_finished = 0, threadId = 0, fd = 0,
                                    write_back_pkt = replicate MAX_BUF_SIZE 0\<rparr>)\<rparr>"

definition create_client_thread :: "create_env \<Rightarrow> int \<Rightarrow> server \<Rightarrow> (int \<times> server) option" where
  "create_client_thread E conn s =
     (case new_elem E of
        None \<Rightarrow> Some (-1, s)
      | Some e \<Rightarrow>
          let s1 = malloc_client e conn s in
          if open_fd E = -1 then Some (-1, s1)
          else do {
            c1 \<leftarrow> srv_mem s1 e;
            let s2 = (set_client e (c1\<lparr>fd := open_fd E\<rparr>) s1)\<lparr>srv_fds := srv_fds s1 @ [open_fd E]\<rparr>;
            if thread_rc E \<noteq> 0 then Some (-1, free_client e s2)
            else do {
              c2 \<leftarrow> srv_mem s2 e;
              let s3 = (set_client e (c2\<lparr>threadId := new_thread E\<rparr>) s2)
                         \<lparr>srv_threads := srv_threads s2 @ [new_thread E]\<rparr>;
              if lock_rc E \<noteq> 0 then Some (-1, s3)
              else do {
                let s4 = lock_queue s3;
                q \<leftarrow> TAILQ_INSERT_TAIL head_s e (srv_q s4);
                let s5 = s4\<lparr>srv_q := q\<rparr>;
                if unlock_rc E \<noteq> 0 then Some (-1, s5) else Some (0, unlock_queue s5)
              }
            }
          })"

section \<open>Collecting finished threads\<close>

definition reap_body :: "nat \<Rightarrow> server \<times> int \<Rightarrow> (server \<times> int) option" where
  "reap_body e = (\<lambda>(s, outstanding_cons).
     do {
       c \<leftarrow> srv_mem s e;
       if task_finished c = 1
       then do {
         let s1 = s\<lparr>srv_threads := remove1 (threadId c) (srv_threads s)\<rparr>;
         let s2 = close_fd (fd c) (close_fd (connfd c) s1);
         q \<leftarrow> TAILQ_REMOVE head_s e (srv_q s2);
         Some (free_client e (s2\<lparr>srv_q := q\<rparr>), outstanding_cons)
       }
       else Some (s, outstanding_cons + 1)
     })"

definition check_for_finished_client_threads :: "int \<Rightarrow> int \<Rightarrow> server \<Rightarrow> (int \<times> server) option" where
  "check_for_finished_client_threads lock_result unlock_result s =
     (if lock_result \<noteq> 0 then Some (-1, s)
      else do {
        (s1, outstanding_cons) \<leftarrow>
          TAILQ_FOREACH_SAFE (\<lambda>(s, n). srv_q s) head_s reap_body (lock_queue s, 0);
        if unlock_result \<noteq> 0 then Some (-1, s1) else Some (outstanding_cons, unlock_queue s1)
      })"

section \<open>The end of a client thread, signals\<close>

text \<open>The last part of \<^verbatim>\<open>process_client_connection\<close>; a failing lock is only logged.\<close>

definition finish_client :: "nat \<Rightarrow> byte list \<Rightarrow> server \<Rightarrow> server option" where
  "finish_client e p s =
     do { c \<leftarrow> srv_mem s e; Some (set_client e (c\<lparr>task_finished := 1, write_back_pkt := p\<rparr>) s) }"

definition SIGINT :: int where "SIGINT = 2"
definition SIGTERM :: int where "SIGTERM = 15"

definition sig_handler :: "int \<Rightarrow> server \<Rightarrow> server" where
  "sig_handler signo s =
     (if signo = SIGTERM \<or> signo = SIGINT then s\<lparr>run_connections := False\<rparr> else s)"

section \<open>The main function\<close>

record main_env =
  argc :: int
  argv1 :: string
  sock_fd :: int
  bind_rc :: int
  fork_pid :: int
  sigterm_ok :: bool
  sigint_ok :: bool
  mutex_rc :: int
  listen_rc :: int

text \<open>How start-up ends: an early return, the jump to \<^verbatim>\<open>prog_cleanup\<close>, or the accept loop.\<close>

datatype start_result = Return int | Prog_cleanup | Serve

definition main_start :: "main_env \<Rightarrow> start_result" where
  "main_start E =
     (let dont_fork = (if argc E = 2 \<and> argv1 E = ''-d'' then 0 else (1 :: int)) in
      if sock_fd E = -1 then Return (-1)
      else if bind_rc E \<noteq> 0 then Return (-1)
      else let pid = (if dont_fork = 0 then fork_pid E else 0) in
        if pid = 0
        then if \<not> sigterm_ok E then Prog_cleanup
             else if \<not> sigint_ok E then Prog_cleanup
             else if mutex_rc E \<noteq> 0 then Prog_cleanup
             else if listen_rc E \<noteq> 0 then Prog_cleanup
             else Serve
        else Prog_cleanup)"

definition EAGAIN :: int where "EAGAIN = 11"

text \<open>What the system answers to \<^verbatim>\<open>accept\<close> and to the calls that follow it.\<close>

record loop_env =
  accept_ret :: int
  accept_errno :: int
  create_env :: create_env

text \<open>
  The first half of a pass: accept, and a thread for a new connection.  The flag tells whether
  the loop goes on; the second half is a call of \<open>check_for_finished_client_threads\<close>.
\<close>

definition accept_client :: "loop_env \<Rightarrow> server \<Rightarrow> (bool \<times> server) option" where
  "accept_client E s =
     (if accept_ret E < 0 \<and> accept_errno E \<noteq> EAGAIN then Some (False, s)
      else if \<not> accept_ret E < 0
      then do {
        (rc, s') \<leftarrow> create_client_thread (create_env E) (accept_ret E)
                     (s\<lparr>srv_fds := srv_fds s @ [accept_ret E]\<rparr>);
        Some (True, s')
      }
      else Some (True, s))"

text \<open>What the system answers is fresh: addresses, descriptors and threads not in use.\<close>

definition create_fresh :: "create_env \<Rightarrow> int \<Rightarrow> server \<Rightarrow> bool" where
  "create_fresh E conn s \<longleftrightarrow>
     (\<forall>e. new_elem E = Some e \<longrightarrow> srv_mem s e = None) \<and>
     (open_fd E \<noteq> -1 \<longrightarrow> open_fd E \<noteq> conn \<and> open_fd E \<notin> set (srv_fds s)) \<and>
     (thread_rc E = 0 \<longrightarrow> new_thread E \<notin> set (srv_threads s))"

definition loop_fresh :: "loop_env \<Rightarrow> server \<Rightarrow> bool" where
  "loop_fresh E s \<longleftrightarrow>
     (0 \<le> accept_ret E \<longrightarrow>
        accept_ret E \<notin> set (srv_fds s) \<and> create_fresh (create_env E) (accept_ret E) s)"

datatype main_pc = Accepting | Checking | Draining | Exited

text \<open>
  The running server: the calls of the main thread, the ends of client threads and signals in
  any order.  A client thread ends under the queue lock, hence not while the main thread is in a
  critical section.  The creation of a client is one step: a thread that ends between its start
  and its insertion into the queue leaves the same state as one that ends after the insertion
  (\<open>finish_before_insert\<close>).
\<close>

inductive srv_step :: "int \<Rightarrow> main_pc \<times> server \<Rightarrow> main_pc \<times> server \<Rightarrow> bool" for sockfd where
  main_accept: "run_connections s \<Longrightarrow> loop_fresh E s \<Longrightarrow> accept_client E s = Some (go, s') \<Longrightarrow>
     srv_step sockfd (Accepting, s) (if go then Checking else Draining, s')"
| main_check: "check_for_finished_client_threads l u s = Some (n, s') \<Longrightarrow>
     srv_step sockfd (Checking, s) (Accepting, s')"
| main_stop: "\<not> run_connections s \<Longrightarrow> srv_step sockfd (Accepting, s) (Draining, s)"
| main_drain: "check_for_finished_client_threads l u s = Some (n, s') \<Longrightarrow>
     srv_step sockfd (Draining, s) (if n \<noteq> 0 then (Draining, s') else (Exited, close_fd sockfd s'))"
| client_end: "pc \<noteq> Exited \<Longrightarrow> \<not> queue_lock s \<Longrightarrow> srv_mem s e = Some c \<Longrightarrow> threadId c \<in> set (srv_threads s) \<Longrightarrow>
     task_finished c = 0 \<Longrightarrow> finish_client e p s = Some s' \<Longrightarrow> srv_step sockfd (pc, s) (pc, s')"
| signal: "pc \<noteq> Exited \<Longrightarrow> srv_step sockfd (pc, s) (pc, sig_handler signo s)"

lemma finish_before_insert:
  "do { t \<leftarrow> finish_client x p s; q \<leftarrow> TAILQ_INSERT_TAIL head_s e (srv_q t); Some (t\<lparr>srv_q := q\<rparr>) } =
   do { q \<leftarrow> TAILQ_INSERT_TAIL head_s e (srv_q s); finish_client x p (s\<lparr>srv_q := q\<rparr>) }"
  by (cases "srv_mem s x"; cases "TAILQ_INSERT_TAIL head_s e (srv_q s)")
    (simp_all add: finish_client_def set_client_def)

text \<open>The state when the accept loop is entered: an initialised queue and the listening socket.\<close>

definition server_start :: "int \<Rightarrow> tq_store \<Rightarrow> server" where
  "server_start sockfd q =
     \<lparr>srv_q = q, srv_mem = Map.empty, srv_fds = [sockfd], srv_threads = [], queue_lock = False,
      run_connections = True\<rparr>"

inductive srv_reach :: "int \<Rightarrow> main_pc \<times> server \<Rightarrow> bool" for sockfd where
  reach_serve: "main_start E = Serve \<Longrightarrow> sock_fd E = sockfd \<Longrightarrow> dom q0 = {Head head_s} \<Longrightarrow>
     TAILQ_INIT head_s q0 = Some q \<Longrightarrow> srv_reach sockfd (Accepting, server_start sockfd q)"
| reach_step: "srv_reach sockfd st \<Longrightarrow> srv_step sockfd st st' \<Longrightarrow> srv_reach sockfd st'"

section \<open>The queue and the memory it describes\<close>

text \<open>The clients in the queue; the allocated cells are those of the allocated clients.\<close>

definition queued :: "server \<Rightarrow> nat list \<Rightarrow> bool" where
  "queued s es \<longleftrightarrow> is_queue head_s (srv_q s) es \<and> (\<forall>e. allocated (srv_q s) e \<longleftrightarrow> srv_mem s e \<noteq> None)"

definition running :: "server \<Rightarrow> nat \<Rightarrow> bool" where
  "running s e \<longleftrightarrow> (case srv_mem s e of None \<Rightarrow> True | Some c \<Rightarrow> task_finished c \<noteq> 1)"

text \<open>Collecting one client, apart from the queue.\<close>

definition reap_client :: "nat \<Rightarrow> server \<Rightarrow> server" where
  "reap_client e s =
     (case srv_mem s e of
        None \<Rightarrow> s
      | Some c \<Rightarrow> s\<lparr>srv_threads := remove1 (threadId c) (srv_threads s),
                    srv_fds := remove1 (fd c) (remove1 (connfd c) (srv_fds s)),
                    srv_mem := (srv_mem s)(e := None)\<rparr>)"

lemma queued_mem: "queued s es \<Longrightarrow> e \<in> set es \<Longrightarrow> \<exists>c. srv_mem s e = Some c"
  using is_queue_allocated by (fastforce simp: queued_def)

lemma is_queue_free:
  assumes "is_queue h q es" and "e \<notin> set es"
  shows "is_queue h (q(Elm e := None)) es"
  by (rule is_queue_frame [OF assms(1)]) (use assms(2) in \<open>auto simp: cells_def\<close>)

lemma reap_body_keeps:
  assumes "queued s (ys @ e # zs)" and "running s e"
  shows "reap_body e (s, n) = Some (s, n + 1)"
  using queued_mem [OF assms(1), of e] assms(2) by (auto simp: reap_body_def running_def)

lemma reap_body_frees:
  assumes q: "queued s (ys @ e # zs)" and f: "\<not> running s e"
  shows "\<exists>s'. reap_body e (s, n) = Some (s', n) \<and> queued s' (ys @ zs) \<and>
           s'\<lparr>srv_q := srv_q t\<rparr> = reap_client e (s\<lparr>srv_q := srv_q t\<rparr>)"
proof -
  obtain c where c: "srv_mem s e = Some c" "task_finished c = 1"
    using queued_mem [OF q, of e] f by (auto simp: running_def)
  have iq: "is_queue head_s (srv_q s) (ys @ e # zs)" using q by (simp add: queued_def)
  obtain q' where q': "TAILQ_REMOVE head_s e (srv_q s) = Some q'" "is_queue head_s q' (ys @ zs)"
    "allocated q' = allocated (srv_q s)"
    using tq.remove_ok [OF iq] by blast
  have "e \<notin> set (ys @ zs)" using iq by (auto simp: is_queue_def)
  from is_queue_free [OF q'(2) this] have "is_queue head_s (q'(Elm e := None)) (ys @ zs)" .
  moreover have "allocated (q'(Elm e := None)) x \<longleftrightarrow> x \<noteq> e \<and> srv_mem s x \<noteq> None" for x
    using q q'(3) by (auto simp: queued_def allocated_def fun_eq_iff)
  ultimately show ?thesis
    using c q'(1)
    by (auto simp: reap_body_def close_fd_def free_client_def queued_def reap_client_def Let_def)
qed

lemma reap_client_mem: "srv_mem (reap_client e s) = (srv_mem s)(e := None)"
  by (auto simp: reap_client_def split: option.split)

lemma fold_reap_mem:
  "srv_mem (fold reap_client es s) = (\<lambda>e. if e \<in> set es then None else srv_mem s e)"
  by (induction es arbitrary: s) (auto simp: reap_client_mem fun_eq_iff)

text \<open>
  The sweep: the finished clients of the queue are collected in order, the others stay in
  order and are counted.
\<close>

lemma sweep_queue:
  assumes q: "queued s es"
  shows "\<exists>s'. TAILQ_FOREACH_SAFE (\<lambda>(s, n). srv_q s) head_s reap_body (s, 0) =
             Some (s', int (length (filter (running s) es))) \<and>
           queued s' (filter (running s) es) \<and>
           s'\<lparr>srv_q := srv_q s\<rparr> = fold reap_client (filter (\<lambda>e. \<not> running s e) es) s"
proof -
  define I where "I = (\<lambda>(t, n) ys zs. \<exists>pre. es = pre @ zs \<and> ys = filter (running s) pre \<and>
      n = int (length ys) \<and> queued t (ys @ zs) \<and>
      t\<lparr>srv_q := srv_q s\<rparr> = fold reap_client (filter (\<lambda>e. \<not> running s e) pre) s)"
  have same: "running t e = running s e"
    if "t\<lparr>srv_q := srv_q s\<rparr> = fold reap_client (filter (\<lambda>e. \<not> running s e) pre) s" "e \<notin> set pre" for t pre e
  proof -
    have "srv_mem t e = srv_mem (t\<lparr>srv_q := srv_q s\<rparr>) e" by simp
    then show ?thesis using that by (simp only: running_def fold_reap_mem) simp
  qed
  have step: "\<exists>\<tau>'. reap_body e \<tau> = Some \<tau>' \<and> I \<tau>' (if running s e then ys @ [e] else ys) zs"
    if i: "I \<tau> ys (e # zs)" for \<tau> ys e zs
  proof -
    obtain t n where \<tau>: "\<tau> = (t, n)" by (cases \<tau>)
    obtain pre where pre: "es = pre @ e # zs" "ys = filter (running s) pre" "n = int (length ys)"
      "queued t (ys @ e # zs)" "t\<lparr>srv_q := srv_q s\<rparr> = fold reap_client (filter (\<lambda>e. \<not> running s e) pre) s"
      using i unfolding I_def \<tau> by auto
    have "e \<notin> set pre" using q pre(1) by (auto simp: queued_def is_queue_def)
    with same [OF pre(5)] have r: "running t e = running s e" by simp
    show ?thesis
    proof (cases "running s e")
      case True
      then have "reap_body e \<tau> = Some (t, n + 1)" using reap_body_keeps [OF pre(4)] r \<tau> by simp
      moreover have "I (t, n + 1) (ys @ [e]) zs"
        unfolding I_def using pre True by (auto intro!: exI [of _ "pre @ [e]"])
      ultimately show ?thesis using True by auto
    next
      case False
      then obtain t' where "reap_body e \<tau> = Some (t', n)" "queued t' (ys @ zs)"
        "t'\<lparr>srv_q := srv_q s\<rparr> = reap_client e (t\<lparr>srv_q := srv_q s\<rparr>)"
        using reap_body_frees [OF pre(4), of n s] r \<tau> by blast
      moreover from this have "I (t', n) ys zs"
        unfolding I_def using pre False by (auto intro!: exI [of _ "pre @ [e]"])
      ultimately show ?thesis using False by auto
    qed
  qed
  have "I (s, 0) [] es" using q by (auto simp: I_def)
  moreover have "is_queue head_s ((\<lambda>(s, n). srv_q s) \<tau>) (ys @ zs)" if "I \<tau> ys zs" for \<tau> ys zs
    using that by (cases \<tau>) (auto simp: I_def queued_def)
  ultimately obtain \<sigma>' where "TAILQ_FOREACH_SAFE (\<lambda>(s, n). srv_q s) head_s reap_body (s, 0) = Some \<sigma>'"
    "I \<sigma>' (filter (running s) es) []"
    using tq.sweep_rule [of I "(s, 0)" es head_s "\<lambda>(s, n). srv_q s" reap_body "running s"] step
    unfolding TAILQ_FOREACH_SAFE_def by blast
  then show ?thesis unfolding I_def by (cases \<sigma>') auto
qed

section \<open>What the queued clients hold\<close>

definition client_fds :: "server \<Rightarrow> nat \<Rightarrow> int list" where
  "client_fds s e = (case srv_mem s e of None \<Rightarrow> [] | Some c \<Rightarrow> [connfd c, fd c])"

definition client_tids :: "server \<Rightarrow> nat \<Rightarrow> nat list" where
  "client_tids s e = (case srv_mem s e of None \<Rightarrow> [] | Some c \<Rightarrow> [threadId c])"

text \<open>\<open>holds f es xs\<close>: the resources \<open>f e\<close> of the clients \<open>es\<close> are different entries of the table \<open>xs\<close>.\<close>

definition holds :: "('e \<Rightarrow> 'r list) \<Rightarrow> 'e list \<Rightarrow> 'r list \<Rightarrow> bool" where
  "holds f es xs \<longleftrightarrow> distinct xs \<and> distinct (concat (map f es)) \<and> set (concat (map f es)) \<subseteq> set xs"

definition clients_ok :: "server \<Rightarrow> nat list \<Rightarrow> bool" where
  "clients_ok s es \<longleftrightarrow>
     queued s es \<and> holds (client_fds s) es (srv_fds s) \<and> holds (client_tids s) es (srv_threads s) \<and>
     (\<forall>e\<in>set es. \<forall>c. srv_mem s e = Some c \<longrightarrow> task_finished c \<in> {0, 1})"

lemma fold_remove1:
  assumes "distinct xs"
  shows "set (fold remove1 ys xs) = set xs - set ys" and "distinct (fold remove1 ys xs)"
  using assms by (induction ys arbitrary: xs) auto

lemma distinct_concat_filter:
  "distinct (concat (map f es)) \<Longrightarrow> distinct (concat (map f (filter P es)))"
  by (induction es) auto

lemma filter_parts_disjoint:
  assumes "distinct (concat (map f es))"
  shows "set (concat (map f (filter P es))) \<inter> set (concat (map f (filter (\<lambda>e. \<not> P e) es))) = {}"
  using assms by (induction es) (auto 0 3)

lemma holds_filter:
  assumes "holds f es xs"
  shows "holds f (filter P es) (fold remove1 (concat (map f (filter (\<lambda>e. \<not> P e) es))) xs)"
proof -
  have d: "distinct xs" "distinct (concat (map f es))" "set (concat (map f es)) \<subseteq> set xs"
    using assms by (simp_all add: holds_def)
  show ?thesis
    unfolding holds_def fold_remove1(1) [OF d(1)]
  proof (intro conjI)
    show "distinct (fold remove1 (concat (map f (filter (\<lambda>e. \<not> P e) es))) xs)"
      by (rule fold_remove1(2) [OF d(1)])
    show "distinct (concat (map f (filter P es)))" by (rule distinct_concat_filter [OF d(2)])
    have "set (concat (map f (filter P es))) \<subseteq> set xs" using d(3) by auto
    then show "set (concat (map f (filter P es))) \<subseteq> set xs - set (concat (map f (filter (\<lambda>e. \<not> P e) es)))"
      using filter_parts_disjoint [OF d(2), of P] by blast
  qed
qed

lemma holds_cong:
  assumes "holds f es xs" and "\<And>e. e \<in> set es \<Longrightarrow> g e = f e"
  shows "holds g es xs"
proof -
  have "map g es = map f es" using assms(2) by simp
  then show ?thesis using assms(1) by (simp only: holds_def)
qed

lemma holds_more:
  assumes "holds f es xs" and "distinct (xs @ ys)"
  shows "holds f es (xs @ ys)"
  using assms by (auto simp: holds_def)

lemma holds_snoc:
  assumes "holds f es xs" and "distinct (xs @ ys)" and "f e = ys"
  shows "holds f (es @ [e]) (xs @ ys)"
  using assms by (auto simp: holds_def)

lemma fold_reap_resources:
  assumes "distinct es"
  shows "srv_fds (fold reap_client es s) = fold remove1 (concat (map (client_fds s) es)) (srv_fds s)"
    and "srv_threads (fold reap_client es s) = fold remove1 (concat (map (client_tids s) es)) (srv_threads s)"
proof -
  have "client_fds (reap_client e s) x = client_fds s x \<and> client_tids (reap_client e s) x = client_tids s x"
    if "x \<noteq> e" for e x s
    using that by (simp add: client_fds_def client_tids_def reap_client_mem)
  then have tl: "map (client_fds (reap_client e s)) es = map (client_fds s) es"
    "map (client_tids (reap_client e s)) es = map (client_tids s) es" if "e \<notin> set es" for e es s
    using that by (auto intro!: map_cong) metis+
  have one: "srv_fds (reap_client e s) = fold remove1 (client_fds s e) (srv_fds s)"
    "srv_threads (reap_client e s) = fold remove1 (client_tids s e) (srv_threads s)" for e s
    by (auto simp: reap_client_def client_fds_def client_tids_def split: option.split)
  from assms show "srv_fds (fold reap_client es s) = fold remove1 (concat (map (client_fds s) es)) (srv_fds s)"
    by (induction es arbitrary: s) (simp_all add: tl one)
  from assms show "srv_threads (fold reap_client es s) = fold remove1 (concat (map (client_tids s) es)) (srv_threads s)"
    by (induction es arbitrary: s) (simp_all add: tl one)
qed

lemma fold_reap_flags:
  "queue_lock (fold reap_client es s) = queue_lock s \<and> run_connections (fold reap_client es s) = run_connections s"
  by (induction es arbitrary: s) (auto simp: reap_client_def split: option.split)

section \<open>Collecting and creating keep the clients in order\<close>

lemma queued_flags [simp]:
  "queued (s\<lparr>queue_lock := l\<rparr>) es = queued s es" "queued (s\<lparr>srv_fds := x\<rparr>) es = queued s es"
  "queued (s\<lparr>srv_threads := y\<rparr>) es = queued s es" "queued (s\<lparr>run_connections := b\<rparr>) es = queued s es"
  by (simp_all add: queued_def)

lemma clients_ok_flags [simp]:
  "clients_ok (s\<lparr>queue_lock := l\<rparr>) es = clients_ok s es"
  "clients_ok (s\<lparr>run_connections := b\<rparr>) es = clients_ok s es"
proof -
  have "client_fds (s\<lparr>queue_lock := l\<rparr>) = client_fds s" "client_tids (s\<lparr>queue_lock := l\<rparr>) = client_tids s"
    "client_fds (s\<lparr>run_connections := b\<rparr>) = client_fds s" "client_tids (s\<lparr>run_connections := b\<rparr>) = client_tids s"
    by (simp_all add: client_fds_def client_tids_def fun_eq_iff)
  then show "clients_ok (s\<lparr>queue_lock := l\<rparr>) es = clients_ok s es"
    "clients_ok (s\<lparr>run_connections := b\<rparr>) es = clients_ok s es"
    by (simp_all add: clients_ok_def)
qed

lemma running_flags [simp]: "running (s\<lparr>queue_lock := l\<rparr>) = running s"
  by (simp add: running_def fun_eq_iff)

lemma check_sweeps:
  assumes ok: "clients_ok s es"
  obtains s' where
    "check_for_finished_client_threads 0 0 s = Some (int (length (filter (running s) es)), s')"
    "clients_ok s' (filter (running s) es)"
    "srv_mem s' = (\<lambda>e. if e \<in> set es \<and> \<not> running s e then None else srv_mem s e)"
    "srv_fds s' = fold remove1 (concat (map (client_fds s) (filter (\<lambda>e. \<not> running s e) es))) (srv_fds s)"
    "srv_threads s' = fold remove1 (concat (map (client_tids s) (filter (\<lambda>e. \<not> running s e) es))) (srv_threads s)"
    "\<not> queue_lock s'" "run_connections s' = run_connections s"
proof -
  let ?F = "filter (\<lambda>e. \<not> running s e) es" and ?R = "filter (running s) es"
  have q: "queued (lock_queue s) es" using ok by (simp add: clients_ok_def lock_queue_def)
  have d: "distinct es" using q by (simp add: queued_def is_queue_def)
  obtain t where t: "TAILQ_FOREACH_SAFE (\<lambda>(s, n). srv_q s) head_s reap_body (lock_queue s, 0) =
      Some (t, int (length ?R))" "queued t ?R"
    "t\<lparr>srv_q := srv_q (lock_queue s)\<rparr> = fold reap_client ?F (lock_queue s)"
    using sweep_queue [OF q] by (auto simp: lock_queue_def)
  let ?f = "fold reap_client ?F (lock_queue s)"
  have f: "srv_mem t = srv_mem ?f" "srv_fds t = srv_fds ?f" "srv_threads t = srv_threads ?f"
    "run_connections t = run_connections ?f"
    unfolding t(3) [symmetric] by simp_all
  have dF: "distinct ?F" using d by simp
  have same: "client_fds (lock_queue s) = client_fds s" "client_tids (lock_queue s) = client_tids s"
    by (auto simp: lock_queue_def client_fds_def client_tids_def fun_eq_iff)
  have mem: "srv_mem t = (\<lambda>e. if e \<in> set es \<and> \<not> running s e then None else srv_mem s e)"
    unfolding f fold_reap_mem by (auto simp: lock_queue_def fun_eq_iff)
  have fds: "srv_fds t = fold remove1 (concat (map (client_fds s) ?F)) (srv_fds s)"
    and tids: "srv_threads t = fold remove1 (concat (map (client_tids s) ?F)) (srv_threads s)"
    unfolding f fold_reap_resources [OF dF] same by (simp_all add: lock_queue_def)
  have keep: "client_fds t e = client_fds s e" "client_tids t e = client_tids s e" "srv_mem t e = srv_mem s e"
    if "e \<in> set ?R" for e
    using that by (auto simp: client_fds_def client_tids_def mem)
  have "holds (client_fds t) ?R (srv_fds t)"
    using ok unfolding fds by (intro holds_cong [OF holds_filter]) (auto simp: clients_ok_def keep)
  moreover have "holds (client_tids t) ?R (srv_threads t)"
    using ok unfolding tids by (intro holds_cong [OF holds_filter]) (auto simp: clients_ok_def keep)
  ultimately have "clients_ok t ?R" using t(2) ok keep(3) by (auto simp: clients_ok_def)
  moreover have "check_for_finished_client_threads 0 0 s = Some (int (length ?R), unlock_queue t)"
    using t(1) by (simp add: check_for_finished_client_threads_def)
  moreover have "run_connections t = run_connections s"
    unfolding f using fold_reap_flags [of ?F "lock_queue s"] by (simp add: lock_queue_def)
  ultimately show ?thesis
    using that [of "unlock_queue t"] mem fds tids by (simp add: unlock_queue_def)
qed

lemma check_total:
  assumes "clients_ok s es"
  obtains n s' es' where "check_for_finished_client_threads l u s = Some (n, s')" "clients_ok s' es'"
    "run_connections s' = run_connections s"
proof (cases "l = 0")
  case False
  then show ?thesis using that [of "-1" s es] assms by (simp add: check_for_finished_client_threads_def)
next
  case True
  obtain t where t: "check_for_finished_client_threads 0 0 s = Some (int (length (filter (running s) es)), t)"
    "clients_ok t (filter (running s) es)" "run_connections t = run_connections s"
    using check_sweeps [OF assms] by blast
  obtain t1 where t1: "t = unlock_queue t1"
    "check_for_finished_client_threads l u s =
       (if u \<noteq> 0 then Some (-1, t1) else Some (int (length (filter (running s) es)), t))"
    using t(1) True by (auto simp: check_for_finished_client_threads_def bind_eq_Some_conv split: if_splits)
  have "clients_ok t1 (filter (running s) es)" "run_connections t1 = run_connections s"
    using t(2,3) t1(1) by (simp_all add: unlock_queue_def)
  then show ?thesis using that t t1 by (cases "u = 0") auto
qed

lemma queued_malloc:
  assumes q: "queued s es" and e: "srv_mem s e = None"
  shows "queued (malloc_client e conn s) es" and "e \<notin> set es"
    and "queued (free_client e (malloc_client e conn s)) es"
proof -
  show ne: "e \<notin> set es" using queued_mem [OF q] e by fastforce
  have iq: "is_queue head_s (srv_q s) es" using q by (simp add: queued_def)
  have "is_queue head_s ((srv_q s)(Elm e := v)) es" for v
    by (rule is_queue_frame [OF iq]) (use ne in \<open>auto simp: cells_def\<close>)
  then show "queued (malloc_client e conn s) es" "queued (free_client e (malloc_client e conn s)) es"
    using q by (auto simp: queued_def malloc_client_def free_client_def allocated_def)
qed

lemma clients_ok_extend:
  assumes ok: "clients_ok s es" and q: "queued s' es"
    and mem: "\<And>e. e \<in> set es \<Longrightarrow> srv_mem s' e = srv_mem s e"
    and fds: "srv_fds s' = srv_fds s @ xs" "distinct (srv_fds s @ xs)"
    and tids: "srv_threads s' = srv_threads s @ ys" "distinct (srv_threads s @ ys)"
  shows "clients_ok s' es"
proof -
  have h: "holds (client_fds s) es (srv_fds s @ xs)" "holds (client_tids s) es (srv_threads s @ ys)"
    using ok fds(2) tids(2) by (auto simp: clients_ok_def intro: holds_more)
  have "holds (client_fds s') es (srv_fds s')"
    unfolding fds(1) by (rule holds_cong [OF h(1)]) (simp add: client_fds_def mem)
  moreover have "holds (client_tids s') es (srv_threads s')"
    unfolding tids(1) by (rule holds_cong [OF h(2)]) (simp add: client_tids_def mem)
  ultimately show ?thesis using q ok mem by (auto simp: clients_ok_def)
qed

text \<open>The state after the thread was started, before the queue lock is taken.\<close>

definition started :: "create_env \<Rightarrow> int \<Rightarrow> nat \<Rightarrow> server \<Rightarrow> server" where
  "started E conn e s =
     s\<lparr>srv_q := (srv_q s)(Elm e \<mapsto> \<lparr>tq_next = None, tq_slot = Head head_s\<rparr>),
       srv_mem := (srv_mem s)(e \<mapsto> \<lparr>connfd = conn, task_finished = 0, threadId = new_thread E, fd = open_fd E,
                                    write_back_pkt = replicate MAX_BUF_SIZE 0\<rparr>),
       srv_fds := srv_fds s @ [open_fd E], srv_threads := srv_threads s @ [new_thread E]\<rparr>"

lemma create_cases:
  "create_client_thread E conn s =
     (case new_elem E of
        None \<Rightarrow> Some (-1, s)
      | Some e \<Rightarrow>
          if open_fd E = -1 then Some (-1, malloc_client e conn s)
          else if thread_rc E \<noteq> 0
               then Some (-1, (free_client e (malloc_client e conn s))\<lparr>srv_fds := srv_fds s @ [open_fd E]\<rparr>)
          else if lock_rc E \<noteq> 0 then Some (-1, started E conn e s)
          else do {
            q \<leftarrow> TAILQ_INSERT_TAIL head_s e (srv_q (started E conn e s));
            Some (if unlock_rc E \<noteq> 0 then (-1, (started E conn e s)\<lparr>srv_q := q, queue_lock := True\<rparr>)
                  else (0, (started E conn e s)\<lparr>srv_q := q, queue_lock := False\<rparr>))
          })"
  by (cases s; cases "new_elem E"; cases "open_fd E = -1"; cases "thread_rc E = 0"; cases "lock_rc E = 0";
      cases "unlock_rc E = 0")
    (simp_all add: create_client_thread_def malloc_client_def free_client_def set_client_def started_def
      lock_queue_def unlock_queue_def Let_def)

lemma started_ok:
  assumes ok: "clients_ok s es" and e: "srv_mem s e = None"
    and fd: "distinct (srv_fds s @ [open_fd E])" and t: "distinct (srv_threads s @ [new_thread E])"
  shows "clients_ok (started E conn e s) es" and "queued (started E conn e s) es"
proof -
  have q: "queued s es" using ok by (simp add: clients_ok_def)
  have iq: "is_queue head_s (srv_q s) es" using q by (simp add: queued_def)
  have ne: "e \<notin> set es" using queued_malloc(2) [OF q e] .
  have "is_queue head_s (srv_q (started E conn e s)) es"
    by (rule is_queue_frame [OF iq]) (use ne in \<open>auto simp: cells_def started_def\<close>)
  then show qs: "queued (started E conn e s) es"
    using q by (auto simp: queued_def started_def allocated_def)
  show "clients_ok (started E conn e s) es"
    by (rule clients_ok_extend [OF ok qs _ _ fd _ t]) (use ne in \<open>auto simp: started_def\<close>)
qed

text \<open>Putting the started client into the queue; \<open>conn\<close> is its own descriptor.\<close>

lemma insert_started:
  assumes ok: "clients_ok s es" and e: "srv_mem s e = None"
    and fd: "distinct (srv_fds s @ [open_fd E])" and t: "distinct (srv_threads s @ [new_thread E])"
    and conn: "conn \<in> set (srv_fds s)" "conn \<notin> set (concat (map (client_fds s) es))"
  obtains q where "TAILQ_INSERT_TAIL head_s e (srv_q (started E conn e s)) = Some q"
    "clients_ok ((started E conn e s)\<lparr>srv_q := q\<rparr>) (es @ [e])"
proof -
  let ?s = "started E conn e s"
  note so = started_ok [OF ok e fd t, of conn]
  have ne: "e \<notin> set es" using queued_malloc(2) [OF _ e] ok by (simp add: clients_ok_def)
  have "is_queue head_s (srv_q ?s) es" "allocated (srv_q ?s) e"
    using so(2) by (simp_all add: queued_def started_def)
  then obtain q where q: "TAILQ_INSERT_TAIL head_s e (srv_q ?s) = Some q" "is_queue head_s q (es @ [e])"
    "allocated q = allocated (srv_q ?s)"
    using tq.insert_ok [OF _ ne] by blast
  let ?t = "?s\<lparr>srv_q := q\<rparr>"
  have "queued ?t (es @ [e])" using q(2,3) so(2) by (simp add: queued_def)
  moreover have same: "client_fds ?t = client_fds ?s" "client_tids ?t = client_tids ?s"
    by (simp_all add: client_fds_def client_tids_def fun_eq_iff)
  have fx: "client_fds ?s x = client_fds s x" if "x \<in> set es" for x
    using that ne by (auto simp: client_fds_def started_def)
  have "holds (client_fds ?s) (es @ [e]) (srv_fds ?s)"
  proof -
    have h: "holds (client_fds ?s) es (srv_fds ?s)" using so(1) by (simp add: clients_ok_def)
    have ce: "client_fds ?s e = [conn, open_fd E]" by (simp add: client_fds_def started_def)
    have old: "set (concat (map (client_fds ?s) es)) \<subseteq> set (srv_fds s)"
      using ok fx by (auto simp: clients_ok_def holds_def)
    have cn: "conn \<notin> set (concat (map (client_fds ?s) es))" using conn(2) fx by auto
    show ?thesis
      using h ce old cn fd conn(1) unfolding holds_def by (auto simp: started_def)
  qed
  moreover have "holds (client_tids ?s) (es @ [e]) (srv_threads ?s)"
  proof -
    have h: "holds (client_tids s) es (srv_threads s)" using ok by (simp add: clients_ok_def)
    have "holds (client_tids ?s) es (srv_threads s)"
      by (rule holds_cong [OF h]) (use ne in \<open>auto simp: client_tids_def started_def\<close>)
    then show ?thesis
      using holds_snoc [of "client_tids ?s" es "srv_threads s" "[new_thread E]" e] t
      by (simp add: client_tids_def started_def)
  qed
  moreover have "\<forall>x\<in>set (es @ [e]). \<forall>c. srv_mem ?t x = Some c \<longrightarrow> task_finished c \<in> {0, 1}"
    using ok by (auto simp: clients_ok_def started_def)
  ultimately have "clients_ok ?t (es @ [e])" unfolding clients_ok_def same by simp
  with q(1) show ?thesis using that by blast
qed

section \<open>Every pass keeps the clients in order\<close>

lemma create_total:
  assumes ok: "clients_ok s es" and conn: "conn \<notin> set (srv_fds s)" and fresh: "create_fresh E conn s"
  obtains rc s' es' where
    "create_client_thread E conn (s\<lparr>srv_fds := srv_fds s @ [conn]\<rparr>) = Some (rc, s')" "clients_ok s' es'"
    "run_connections s' = run_connections s"
proof -
  let ?s = "s\<lparr>srv_fds := srv_fds s @ [conn]\<rparr>"
  have d: "distinct (srv_fds s)" "distinct (srv_threads s)" and q: "queued s es"
    using ok by (simp_all add: clients_ok_def holds_def)
  have ok1: "clients_ok ?s es"
    by (rule clients_ok_extend [OF ok, where xs = "[conn]" and ys = "[]"]) (use d q conn in auto)
  have q1: "queued ?s es" using q by simp
  show ?thesis
  proof (cases "new_elem E")
    case None
    then show ?thesis using that [of "-1" ?s es] ok1 by (simp add: create_cases)
  next
    case (Some e)
    have e: "srv_mem ?s e = None" using fresh Some by (simp add: create_fresh_def)
    have ne: "e \<notin> set es" by (rule queued_malloc(2) [OF q1 e])
    show ?thesis
    proof (cases "open_fd E = -1 \<or> thread_rc E \<noteq> 0")
      case True
      let ?m = "malloc_client e conn ?s"
      let ?f = "(free_client e ?m)\<lparr>srv_fds := srv_fds ?s @ [open_fd E]\<rparr>"
      have mok: "clients_ok ?m es"
        by (rule clients_ok_extend [OF ok1 queued_malloc(1) [OF q1 e], where xs = "[]" and ys = "[]"])
          (use d conn ne in \<open>auto simp: malloc_client_def\<close>)
      have qf: "queued ?f es" using queued_malloc(3) [OF q1 e] by simp
      have fok: "clients_ok ?f es" if "open_fd E \<noteq> -1"
        by (rule clients_ok_extend [OF ok1 qf, where xs = "[open_fd E]" and ys = "[]"])
          (use that d conn ne fresh in \<open>auto simp: malloc_client_def free_client_def create_fresh_def\<close>)
      have flags: "run_connections ?m = run_connections s" "run_connections ?f = run_connections s"
        by (simp_all add: malloc_client_def free_client_def)
      show ?thesis
      proof (cases "open_fd E = -1")
        case True
        then have "create_client_thread E conn ?s = Some (-1, ?m)" using Some by (simp add: create_cases)
        from that [OF this mok flags(1)] show ?thesis .
      next
        case o: False
        then have "create_client_thread E conn ?s = Some (-1, ?f)" using True Some by (simp add: create_cases)
        from that [OF this fok [OF o] flags(2)] show ?thesis .
      qed
    next
      case False
      have fd: "distinct (srv_fds ?s @ [open_fd E])" and t: "distinct (srv_threads ?s @ [new_thread E])"
        using False d conn fresh by (auto simp: create_fresh_def)
      have own: "conn \<in> set (srv_fds ?s)" "conn \<notin> set (concat (map (client_fds ?s) es))"
      proof -
        have "client_fds ?s = client_fds s" by (simp add: client_fds_def fun_eq_iff)
        then show "conn \<in> set (srv_fds ?s)" "conn \<notin> set (concat (map (client_fds ?s) es))"
          using ok conn by (auto simp: clients_ok_def holds_def)
      qed
      let ?t = "started E conn e ?s"
      obtain q' where q': "TAILQ_INSERT_TAIL head_s e (srv_q ?t) = Some q'" "clients_ok (?t\<lparr>srv_q := q'\<rparr>) (es @ [e])"
        using insert_started [OF ok1 e fd t own] by blast
      have flag: "run_connections ?t = run_connections s" by (simp add: started_def)
      show ?thesis
      proof (cases "lock_rc E = 0")
        case True
        define r where "r = (if unlock_rc E \<noteq> 0 then (-1 :: int, ?t\<lparr>srv_q := q', queue_lock := True\<rparr>)
            else (0, ?t\<lparr>srv_q := q', queue_lock := False\<rparr>))"
        have run: "create_client_thread E conn ?s = Some r"
          using True False Some q'(1) by (simp add: create_cases r_def)
        have "clients_ok (snd r) (es @ [e])" "run_connections (snd r) = run_connections s"
          using q'(2) flag by (simp_all add: r_def)
        then show ?thesis using that [of "fst r" "snd r"] run by simp
      next
        case l: False
        then have "create_client_thread E conn ?s = Some (-1, ?t)" using False Some by (simp add: create_cases)
        from that [OF this started_ok(1) [OF ok1 e fd t] flag] show ?thesis .
      qed
    qed
  qed
qed

lemma accept_client_total:
  assumes ok: "clients_ok s es" and fresh: "loop_fresh E s"
  obtains go s' es' where "accept_client E s = Some (go, s')" "clients_ok s' es'"
    "run_connections s' = run_connections s"
proof (cases "accept_ret E < 0")
  case True
  then show ?thesis
    using that [of False s es] that [of True s es] ok
    by (cases "accept_errno E = EAGAIN") (simp_all add: accept_client_def)
next
  case False
  then have f: "accept_ret E \<notin> set (srv_fds s)" "create_fresh (create_env E) (accept_ret E) s"
    using fresh by (simp_all add: loop_fresh_def)
  obtain rc s1 es1 where c: "create_client_thread (create_env E) (accept_ret E)
      (s\<lparr>srv_fds := srv_fds s @ [accept_ret E]\<rparr>) = Some (rc, s1)" "clients_ok s1 es1"
    "run_connections s1 = run_connections s"
    using create_total [OF ok f] by blast
  then show ?thesis using that [of True s1 es1] False by (simp add: accept_client_def)
qed

lemma finish_client_ok:
  assumes ok: "clients_ok s es" and c: "srv_mem s e = Some c"
  obtains s' where "finish_client e p s = Some s'" "clients_ok s' es" "\<not> running s' e"
    "\<And>x. x \<noteq> e \<Longrightarrow> running s' x = running s x" "queue_lock s' = queue_lock s"
proof -
  define s' where "s' = set_client e (c\<lparr>task_finished := 1, write_back_pkt := p\<rparr>) s"
  have res: "client_fds s' = client_fds s" "client_tids s' = client_tids s"
    using c by (auto simp: s'_def set_client_def client_fds_def client_tids_def fun_eq_iff)
  have "queued s' es"
    using ok c by (auto simp: clients_ok_def queued_def s'_def set_client_def)
  moreover have "srv_fds s' = srv_fds s" "srv_threads s' = srv_threads s"
    "\<forall>x\<in>set es. \<forall>c. srv_mem s' x = Some c \<longrightarrow> task_finished c \<in> {0, 1}"
    using ok by (auto simp: clients_ok_def s'_def set_client_def)
  ultimately have "clients_ok s' es" using ok by (simp add: clients_ok_def res)
  moreover have "finish_client e p s = Some s'" using c by (simp add: finish_client_def s'_def)
  ultimately show ?thesis using that by (simp add: s'_def set_client_def running_def)
qed

section \<open>Reachable states of the server\<close>

definition main_inv :: "main_pc \<times> server \<Rightarrow> bool" where
  "main_inv st \<longleftrightarrow> (\<exists>es. clients_ok (snd st) es \<and> (fst st = Exited \<longrightarrow> es = []))"

lemma check_zero:
  assumes ok: "clients_ok s es" and run: "check_for_finished_client_threads l u s = Some (0, s')"
  shows "clients_ok s' []" and "filter (running s) es = []" and "l = 0" and "u = 0"
proof -
  show lu: "l = 0" "u = 0" using run
    by (auto simp: check_for_finished_client_threads_def bind_eq_Some_conv split: if_splits)
  obtain t where "check_for_finished_client_threads 0 0 s = Some (int (length (filter (running s) es)), t)"
    "clients_ok t (filter (running s) es)"
    using check_sweeps [OF ok] by blast
  then show "clients_ok s' []" "filter (running s) es = []" using run lu by auto
qed

lemma srv_step_inv:
  assumes "srv_step sockfd st st'" and "main_inv st"
  shows "main_inv st'"
  using assms
proof (induction rule: srv_step.induct)
  case (main_accept s E go s')
  then obtain es where ok: "clients_ok s es" by (auto simp: main_inv_def)
  from accept_client_total [OF ok main_accept(2)] main_accept(3) show ?case by (auto simp: main_inv_def)
next
  case (main_check l u s n s')
  then obtain es where ok: "clients_ok s es" by (auto simp: main_inv_def)
  from check_total [OF ok, of l u] main_check(1) show ?case by (auto simp: main_inv_def)
next
  case (main_stop s)
  then show ?case by (auto simp: main_inv_def)
next
  case (main_drain l u s n s')
  then obtain es where ok: "clients_ok s es" by (auto simp: main_inv_def)
  show ?case
  proof (cases "n = 0")
    case True
    then have "clients_ok s' []" using check_zero(1) [OF ok] main_drain(1) by simp
    then have "clients_ok (close_fd sockfd s') []"
      by (simp add: clients_ok_def queued_def close_fd_def holds_def distinct_remove1)
    then show ?thesis using True by (auto simp: main_inv_def)
  next
    case False
    obtain m t es' where "check_for_finished_client_threads l u s = Some (m, t)" "clients_ok t es'"
      using check_total [OF ok] by blast
    then show ?thesis using False main_drain(1) by (auto simp: main_inv_def)
  qed
next
  case (client_end pc s e c p s')
  then obtain es where ok: "clients_ok s es" by (auto simp: main_inv_def)
  from finish_client_ok [OF ok client_end(3), of p] client_end(1,6) show ?case by (auto simp: main_inv_def)
next
  case (signal pc s signo)
  then show ?case by (auto simp: main_inv_def sig_handler_def)
qed

lemma srv_reach_inv: "srv_reach sockfd st \<Longrightarrow> main_inv st"
proof (induction rule: srv_reach.induct)
  case (reach_serve E q0 q)
  have "q0 (Head head_s) \<noteq> None" using reach_serve(3) by auto
  then obtain q' where q': "TAILQ_INIT head_s q0 = Some q'" "is_queue head_s q' []"
    "\<And>a. a \<noteq> Head head_s \<Longrightarrow> q' a = q0 a"
    using INIT_queue [of q0 head_s] by blast
  have "q0 (Elm e) = None" for e using reach_serve(3) by auto
  then have "clients_ok (server_start sockfd q) []"
    using q' reach_serve(4) by (simp add: clients_ok_def queued_def server_start_def holds_def allocated_def)
  then show ?case by (auto simp: main_inv_def)
next
  case (reach_step st st')
  then show ?case using srv_step_inv by blast
qed

section \<open>Properties\<close>

text \<open>
  C27: the server never uses freed memory or corrupts its queue.  In every reachable state, with
  client threads ending and signals arriving at any time, the queue is a well-formed list of
  allocated clients, each with two open descriptors and a started thread that no other queued
  client has; and accepting a client and every collection of finished threads run
  to their end without touching memory that is not allocated.
\<close>

theorem server_queue_integrity:
  assumes "srv_reach sockfd (pc, s)"
  shows "(\<exists>es. is_queue head_s (srv_q s) es \<and> (\<forall>e\<in>set es. srv_mem s e \<noteq> None) \<and>
            distinct (concat (map (client_fds s) es)) \<and> set (concat (map (client_fds s) es)) \<subseteq> set (srv_fds s) \<and>
            distinct (concat (map (client_tids s) es)) \<and> set (concat (map (client_tids s) es)) \<subseteq> set (srv_threads s)) \<and>
         (\<forall>E. loop_fresh E s \<longrightarrow> accept_client E s \<noteq> None) \<and>
         (\<forall>l u. check_for_finished_client_threads l u s \<noteq> None)"
proof -
  obtain es where ok: "clients_ok s es" using srv_reach_inv [OF assms] by (auto simp: main_inv_def)
  have "\<forall>e\<in>set es. srv_mem s e \<noteq> None" using queued_mem [of s es] ok by (auto simp: clients_ok_def)
  moreover have "accept_client E s \<noteq> None" if "loop_fresh E s" for E
    using accept_client_total [OF ok that] by blast
  moreover have "check_for_finished_client_threads l u s \<noteq> None" for l u
    using check_total [OF ok] by (metis option.distinct(1))
  ultimately show ?thesis using ok by (auto simp: clients_ok_def queued_def holds_def)
qed

text \<open>A server that has just started, and the system's answers to a first connection.\<close>

definition sample_main :: main_env where
  "sample_main = \<lparr>argc = 1, argv1 = [], sock_fd = 3, bind_rc = 0, fork_pid = 0, sigterm_ok = True,
                  sigint_ok = True, mutex_rc = 0, listen_rc = 0\<rparr>"

definition sample_server :: server where
  "sample_server = server_start 3 [Head head_s \<mapsto> \<lparr>tq_next = None, tq_slot = Head head_s\<rparr>]"

definition sample_create :: create_env where
  "sample_create = \<lparr>new_elem = Some 0, open_fd = 5, thread_rc = 0, new_thread = 0, lock_rc = 0, unlock_rc = 0\<rparr>"

lemma sample_reach: "srv_reach 3 (Accepting, sample_server)"
  unfolding sample_server_def
proof (rule reach_serve [of sample_main])
  show "dom [Head head_s \<mapsto> \<lparr>tq_next = None, tq_slot = Elm 9\<rparr>] = {Head head_s}" by simp
qed (simp_all add: main_start_def sample_main_def TAILQ_INIT_def tq_access)

lemma sample_ok: "clients_ok sample_server []"
  using srv_reach_inv [OF sample_reach]
  by (simp add: clients_ok_def queued_def is_queue_def holds_def sample_server_def server_start_def allocated_def)

theorem server_queue_integrity_witness:
  "(\<exists>es. is_queue head_s (srv_q sample_server) es) \<and> check_for_finished_client_threads 0 0 sample_server \<noteq> None"
  using server_queue_integrity [OF sample_reach] by blast

text \<open>
  C28: collecting finished threads takes exactly those out.  Of the queued clients, those whose
  thread has set \<^verbatim>\<open>task_finished\<close> are joined, both their descriptors are closed, and they are
  unlinked and freed; the others stay, in order and untouched, and the result is their number.
\<close>

theorem check_collects_exactly_finished:
  assumes "clients_ok s es"
  shows "\<exists>s'. check_for_finished_client_threads 0 0 s = Some (int (length (filter (running s) es)), s') \<and>
           is_queue head_s (srv_q s') (filter (running s) es) \<and> clients_ok s' (filter (running s) es) \<and>
           srv_mem s' = (\<lambda>e. if e \<in> set es \<and> \<not> running s e then None else srv_mem s e) \<and>
           set (srv_fds s') = set (srv_fds s) - (\<Union>e\<in>{e \<in> set es. \<not> running s e}. set (client_fds s e)) \<and>
           set (srv_threads s') = set (srv_threads s) - (\<Union>e\<in>{e \<in> set es. \<not> running s e}. set (client_tids s e))"
proof -
  have d: "distinct (srv_fds s)" "distinct (srv_threads s)" using assms by (simp_all add: clients_ok_def holds_def)
  obtain s' where s': "check_for_finished_client_threads 0 0 s = Some (int (length (filter (running s) es)), s')"
    "clients_ok s' (filter (running s) es)"
    "srv_mem s' = (\<lambda>e. if e \<in> set es \<and> \<not> running s e then None else srv_mem s e)"
    "srv_fds s' = fold remove1 (concat (map (client_fds s) (filter (\<lambda>e. \<not> running s e) es))) (srv_fds s)"
    "srv_threads s' = fold remove1 (concat (map (client_tids s) (filter (\<lambda>e. \<not> running s e) es))) (srv_threads s)"
    using check_sweeps [OF assms] by blast
  have "is_queue head_s (srv_q s') (filter (running s) es)" using s'(2) by (simp add: clients_ok_def queued_def)
  moreover have "set (srv_fds s') = set (srv_fds s) - (\<Union>e\<in>{e \<in> set es. \<not> running s e}. set (client_fds s e))"
    "set (srv_threads s') = set (srv_threads s) - (\<Union>e\<in>{e \<in> set es. \<not> running s e}. set (client_tids s e))"
    unfolding s'(4,5) using fold_remove1(1) [OF d(1)] fold_remove1(1) [OF d(2)] by simp_all
  ultimately show ?thesis using s'(1-3) by blast
qed

text \<open>The state after one client connected, and after its thread ended.\<close>

definition one_client :: server where
  "one_client = (case create_client_thread sample_create 4 (sample_server\<lparr>srv_fds := [3, 4]\<rparr>) of
                   None \<Rightarrow> sample_server | Some (rc, s) \<Rightarrow> s)"

definition ended_client :: server where
  "ended_client = (case finish_client 0 [] one_client of None \<Rightarrow> one_client | Some s \<Rightarrow> s)"

lemma one_client_eq:
  "one_client =
     \<lparr>srv_q = [Head head_s \<mapsto> \<lparr>tq_next = Some 0, tq_slot = Elm 0\<rparr>, Elm 0 \<mapsto> \<lparr>tq_next = None, tq_slot = Head head_s\<rparr>],
      srv_mem = [0 \<mapsto> \<lparr>connfd = 4, task_finished = 0, threadId = 0, fd = 5, write_back_pkt = replicate MAX_BUF_SIZE 0\<rparr>],
      srv_fds = [3, 4, 5], srv_threads = [0], queue_lock = False, run_connections = True\<rparr>"
  by (simp add: one_client_def create_cases sample_create_def sample_server_def server_start_def started_def
      TAILQ_INSERT_TAIL_def tq_access fun_eq_iff)

lemma ended_client_ok: "clients_ok ended_client [0]" "\<not> running ended_client 0" "srv_fds ended_client = [3, 4, 5]"
  "client_fds ended_client 0 = [4, 5]"
  by (simp_all add: ended_client_def finish_client_def set_client_def one_client_eq clients_ok_def queued_def
      is_queue_def holds_def client_fds_def client_tids_def allocated_def running_def)

theorem check_collects_exactly_finished_witness:
  "\<exists>s'. check_for_finished_client_threads 0 0 ended_client = Some (0, s') \<and>
        is_queue head_s (srv_q s') [] \<and> set (srv_fds s') = {3}"
  using check_collects_exactly_finished [OF ended_client_ok(1)] ended_client_ok(2-4) by auto

text \<open>
  A new connection is queued last with its own descriptors and thread: when every call
  succeeds, \<^verbatim>\<open>create_client_thread\<close> returns 0, the client is appended to the queue with the
  connection, the freshly opened device file and the new thread, unfinished, and no other
  client changes.
\<close>

theorem create_appends_client:
  assumes "clients_ok s es" and "conn \<notin> set (srv_fds s)" and "create_fresh E conn s"
    and "new_elem E = Some e" and "open_fd E \<noteq> -1" and "thread_rc E = 0" and "lock_rc E = 0" and "unlock_rc E = 0"
  shows "\<exists>s'. create_client_thread E conn (s\<lparr>srv_fds := srv_fds s @ [conn]\<rparr>) = Some (0, s') \<and>
           clients_ok s' (es @ [e]) \<and> is_queue head_s (srv_q s') (es @ [e]) \<and> \<not> queue_lock s' \<and>
           srv_mem s' = (srv_mem s)(e \<mapsto> \<lparr>connfd = conn, task_finished = 0, threadId = new_thread E,
                                         fd = open_fd E, write_back_pkt = replicate MAX_BUF_SIZE 0\<rparr>) \<and>
           srv_fds s' = srv_fds s @ [conn, open_fd E] \<and> srv_threads s' = srv_threads s @ [new_thread E] \<and>
           run_connections s' = run_connections s"
proof -
  let ?s = "s\<lparr>srv_fds := srv_fds s @ [conn]\<rparr>"
  have d: "distinct (srv_fds s)" "distinct (srv_threads s)" and q: "queued s es"
    using assms(1) by (simp_all add: clients_ok_def holds_def)
  have ok: "clients_ok ?s es"
    by (rule clients_ok_extend [OF assms(1), where xs = "[conn]" and ys = "[]"]) (use d q assms(2) in auto)
  have e: "srv_mem ?s e = None" using assms(3,4) by (simp add: create_fresh_def)
  have fd: "distinct (srv_fds ?s @ [open_fd E])" and t: "distinct (srv_threads ?s @ [new_thread E])"
    using assms d by (auto simp: create_fresh_def)
  have "client_fds ?s = client_fds s" by (simp add: client_fds_def fun_eq_iff)
  then have own: "conn \<in> set (srv_fds ?s)" "conn \<notin> set (concat (map (client_fds ?s) es))"
    using assms(1,2) by (auto simp: clients_ok_def holds_def)
  obtain q' where q': "TAILQ_INSERT_TAIL head_s e (srv_q (started E conn e ?s)) = Some q'"
    "clients_ok ((started E conn e ?s)\<lparr>srv_q := q'\<rparr>) (es @ [e])"
    using insert_started [OF ok e fd t own] by blast
  let ?r = "(started E conn e ?s)\<lparr>srv_q := q', queue_lock := False\<rparr>"
  have "create_client_thread E conn ?s = Some (0, ?r)"
    using q'(1) assms(4-8) by (simp add: create_cases)
  moreover have "clients_ok ?r (es @ [e])" using q'(2) by simp
  moreover from this have "is_queue head_s (srv_q ?r) (es @ [e])" unfolding clients_ok_def queued_def by blast
  ultimately show ?thesis by (auto simp: started_def)
qed

lemma sample_create_fresh: "create_fresh sample_create 4 sample_server"
  by (simp add: create_fresh_def sample_create_def sample_server_def server_start_def)

theorem create_appends_client_witness:
  "\<exists>s'. create_client_thread sample_create 4 (sample_server\<lparr>srv_fds := srv_fds sample_server @ [4]\<rparr>) = Some (0, s') \<and>
        is_queue head_s (srv_q s') [0] \<and> srv_fds s' = [3, 4, 5]"
  using create_appends_client [OF sample_ok _ sample_create_fresh, of 0]
  by (auto simp: sample_create_def sample_server_def server_start_def)

text \<open>
  A failing \<^verbatim>\<open>pthread_create\<close> leaks the connection: the client structure is freed and -1 is
  returned, but neither the connection nor the device file opened for it is closed, and the
  caller does not close them either.
\<close>

theorem failed_thread_leaks_descriptors:
  assumes "clients_ok s es" and "conn \<notin> set (srv_fds s)" and "create_fresh E conn s"
    and "new_elem E = Some e" and "open_fd E \<noteq> -1" and "thread_rc E \<noteq> 0"
  shows "\<exists>s'. create_client_thread E conn (s\<lparr>srv_fds := srv_fds s @ [conn]\<rparr>) = Some (-1, s') \<and>
           srv_mem s' = srv_mem s \<and> srv_fds s' = srv_fds s @ [conn, open_fd E] \<and>
           (\<forall>x\<in>set es. conn \<notin> set (client_fds s' x) \<and> open_fd E \<notin> set (client_fds s' x))"
proof -
  let ?s = "s\<lparr>srv_fds := srv_fds s @ [conn]\<rparr>"
  let ?r = "(free_client e (malloc_client e conn ?s))\<lparr>srv_fds := srv_fds ?s @ [open_fd E]\<rparr>"
  have e: "srv_mem s e = None" using assms(3,4) by (simp add: create_fresh_def)
  have run: "create_client_thread E conn ?s = Some (-1, ?r)" using assms(4-6) by (simp add: create_cases)
  have mem: "srv_mem ?r = srv_mem s" using e by (auto simp: free_client_def malloc_client_def)
  then have "client_fds ?r = client_fds s" by (simp add: client_fds_def fun_eq_iff)
  moreover have "\<forall>x\<in>set es. set (client_fds s x) \<subseteq> set (srv_fds s)"
    using assms(1) by (auto simp: clients_ok_def holds_def)
  moreover have "open_fd E \<notin> set (srv_fds s)" using assms(3,5) by (simp add: create_fresh_def)
  ultimately show ?thesis using run mem assms(2) by (intro exI [of _ ?r]) auto
qed

theorem failed_thread_leaks_descriptors_witness:
  "\<exists>s'. create_client_thread (sample_create\<lparr>thread_rc := 11\<rparr>) 4
          (sample_server\<lparr>srv_fds := srv_fds sample_server @ [4]\<rparr>) = Some (-1, s') \<and>
        srv_mem s' = Map.empty \<and> srv_fds s' = [3, 4, 5]"
proof -
  have "create_fresh (sample_create\<lparr>thread_rc := 11\<rparr>) 4 sample_server"
    using sample_create_fresh by (simp add: create_fresh_def)
  from failed_thread_leaks_descriptors [OF sample_ok _ this, of 0] show ?thesis
    by (auto simp: sample_create_def sample_server_def server_start_def)
qed

section \<open>The life of a connection\<close>

text \<open>
  A connection leaves no trace in the server.  First the end of the thread that was queued last,
  and a collection; then the whole life of a connection, from \<^verbatim>\<open>create_client_thread\<close> on.
\<close>

lemma collect_last:
  assumes ok: "clients_ok s (es @ [e])" and mem: "srv_mem s e = Some cl" and run: "\<forall>x\<in>set es. running s x"
    and fds: "srv_fds s = xs @ [connfd cl, fd cl]" and ts: "srv_threads s = ts @ [threadId cl]"
  shows "\<exists>s2 s3. finish_client e p s = Some s2 \<and>
    check_for_finished_client_threads 0 0 s2 = Some (int (length es), s3) \<and> clients_ok s3 es \<and>
    srv_mem s3 = (srv_mem s)(e := None) \<and> srv_fds s3 = xs \<and> srv_threads s3 = ts \<and>
    \<not> queue_lock s3 \<and> run_connections s3 = run_connections s"
proof -
  let ?s2 = "set_client e (cl\<lparr>task_finished := 1, write_back_pkt := p\<rparr>) s"
  have ne: "e \<notin> set es" and d: "distinct (srv_fds s)" "distinct (srv_threads s)"
    using ok by (auto simp: clients_ok_def queued_def is_queue_def holds_def)
  have fin: "finish_client e p s = Some ?s2" using mem by (simp add: finish_client_def)
  obtain s2 where "finish_client e p s = Some s2" "clients_ok s2 (es @ [e])"
    using finish_client_ok [OF ok mem, of p] by blast
  then have ok2: "clients_ok ?s2 (es @ [e])" using fin by simp
  have s2: "\<not> running ?s2 e" "\<forall>x\<in>set es. running ?s2 x"
    "client_fds ?s2 e = [connfd cl, fd cl]" "client_tids ?s2 e = [threadId cl]"
    using run ne mem by (auto simp: set_client_def running_def client_fds_def client_tids_def)
  then have f: "filter (running ?s2) (es @ [e]) = es" "filter (\<lambda>x. \<not> running ?s2 x) (es @ [e]) = [e]"
    by (simp_all add: filter_id_conv filter_empty_conv)
  obtain s3 where s3: "check_for_finished_client_threads 0 0 ?s2 = Some (int (length es), s3)" "clients_ok s3 es"
    "srv_mem s3 = (\<lambda>x. if x \<in> set (es @ [e]) \<and> \<not> running ?s2 x then None else srv_mem ?s2 x)"
    "srv_fds s3 = fold remove1 (client_fds ?s2 e) (srv_fds ?s2)"
    "srv_threads s3 = fold remove1 (client_tids ?s2 e) (srv_threads ?s2)"
    "\<not> queue_lock s3" "run_connections s3 = run_connections ?s2"
    using check_sweeps [OF ok2] unfolding f by auto
  have "srv_mem s3 = (srv_mem s)(e := None)"
    using s3(3) s2(1,2) by (auto simp: fun_eq_iff set_client_def)
  moreover have "srv_fds s3 = xs" "srv_threads s3 = ts"
    using s3(4,5) s2(3,4) fds ts d by (auto simp: set_client_def remove1_append)
  ultimately show ?thesis using fin s3(1,2,6,7) by (auto simp: set_client_def)
qed

lemma connection_life:
  assumes ok: "clients_ok s es" and run: "\<forall>x\<in>set es. running s x"
    and conn: "conn \<notin> set (srv_fds s)" and fresh: "create_fresh E conn s"
    and rcs: "new_elem E = Some e" "open_fd E \<noteq> -1" "thread_rc E = 0" "lock_rc E = 0" "unlock_rc E = 0"
  obtains s1 where "create_client_thread E conn (s\<lparr>srv_fds := srv_fds s @ [conn]\<rparr>) = Some (0, s1)"
    "srv_mem s1 e = Some \<lparr>connfd = conn, task_finished = 0, threadId = new_thread E, fd = open_fd E,
                          write_back_pkt = replicate MAX_BUF_SIZE 0\<rparr>"
    "\<And>p. \<exists>s2 s3. finish_client e p s1 = Some s2 \<and>
       check_for_finished_client_threads 0 0 s2 = Some (int (length es), s3) \<and> clients_ok s3 es \<and>
       srv_mem s3 = srv_mem s \<and> srv_fds s3 = srv_fds s \<and> srv_threads s3 = srv_threads s \<and>
       \<not> queue_lock s3 \<and> run_connections s3 = run_connections s"
proof -
  let ?cl = "\<lparr>connfd = conn, task_finished = 0, threadId = new_thread E, fd = open_fd E,
              write_back_pkt = replicate MAX_BUF_SIZE 0\<rparr>"
  obtain s1 where s1: "create_client_thread E conn (s\<lparr>srv_fds := srv_fds s @ [conn]\<rparr>) = Some (0, s1)"
    "clients_ok s1 (es @ [e])" "srv_mem s1 = (srv_mem s)(e \<mapsto> ?cl)"
    "srv_fds s1 = srv_fds s @ [conn, open_fd E]" "srv_threads s1 = srv_threads s @ [new_thread E]"
    "run_connections s1 = run_connections s"
    using create_appends_client [OF ok conn fresh rcs] by blast
  have e: "srv_mem s e = None" "e \<notin> set es"
    using s1(2) fresh rcs(1) by (auto simp: clients_ok_def queued_def is_queue_def create_fresh_def)
  have run1: "\<forall>x\<in>set es. running s1 x" using run e(2) s1(3) by (auto simp: running_def)
  have "(srv_mem s1)(e := None) = srv_mem s" using e(1) s1(3) by (auto simp: fun_eq_iff)
  with collect_last [OF s1(2) _ run1, of ?cl "srv_fds s" "srv_threads s"] s1(3-6)
  show thesis by (intro that [OF s1(1)]) auto
qed

section \<open>Shutdown\<close>

text \<open>Ending the running threads of the queue one by one.\<close>

lemma all_clients_can_end:
  assumes "clients_ok s es" and "\<not> queue_lock s" and "pc \<noteq> Exited"
  shows "\<exists>s'. (srv_step sockfd)\<^sup>*\<^sup>* (pc, s) (pc, s') \<and> clients_ok s' es \<and> filter (running s') es = [] \<and>
           run_connections s' = run_connections s"
  using assms
proof (induction "length (filter (running s) es)" arbitrary: s rule: less_induct)
  case less
  show ?case
  proof (cases "filter (running s) es")
    case Nil
    then show ?thesis using less.prems(1) by auto
  next
    case (Cons e r)
    then have e: "e \<in> set es" "running s e" by (auto simp: filter_eq_Cons_iff)
    obtain c where c: "srv_mem s e = Some c" using queued_mem [of s es e] e(1) less.prems(1) by (auto simp: clients_ok_def)
    have t: "task_finished c = 0" using less.prems(1) e c by (auto simp: clients_ok_def running_def)
    have "client_tids s e = [threadId c]" using c by (simp add: client_tids_def)
    then have "threadId c \<in> set (srv_threads s)"
      using less.prems(1) e(1) by (force simp: clients_ok_def holds_def)
    moreover obtain s1 where s1: "finish_client e [] s = Some s1" "clients_ok s1 es" "\<not> running s1 e"
      "\<And>x. x \<noteq> e \<Longrightarrow> running s1 x = running s x" "queue_lock s1 = queue_lock s"
      using finish_client_ok [OF less.prems(1) c] by blast
    ultimately have step: "srv_step sockfd (pc, s) (pc, s1)"
      using less.prems(2,3) c t by (intro client_end) auto
    have "running s1 x \<longleftrightarrow> x \<noteq> e \<and> running s x" for x using s1(3) s1(4) [of x] by (cases "x = e") auto
    then have "filter (running s1) es = filter (\<lambda>x. x \<noteq> e) (filter (running s) es)"
      unfolding filter_filter by (intro filter_cong) auto
    then have "length (filter (running s1) es) < length (filter (running s) es)"
      unfolding Cons by (simp add: le_imp_less_Suc)
    from less.hyps [OF this s1(2)] obtain s' where
      "(srv_step sockfd)\<^sup>*\<^sup>* (pc, s1) (pc, s')" "clients_ok s' es" "filter (running s') es = []"
      "run_connections s' = run_connections s1"
      using less.prems(2,3) s1(5) by auto
    moreover have "run_connections s1 = run_connections s"
      using s1(1) by (auto simp: finish_client_def set_client_def bind_eq_Some_conv)
    ultimately show ?thesis using step by (metis converse_rtranclp_into_rtranclp)
  qed
qed

lemma drain_exits:
  assumes "clients_ok s es" and "filter (running s) es = []"
  shows "\<exists>s'. srv_step sockfd (Draining, s) (Exited, s') \<and> is_queue head_s (srv_q s') []"
proof -
  obtain t where t: "check_for_finished_client_threads 0 0 s = Some (int (length (filter (running s) es)), t)"
    "clients_ok t (filter (running s) es)"
    using check_sweeps [OF assms(1)] by blast
  have "srv_step sockfd (Draining, s) (Exited, close_fd sockfd t)"
    using main_drain [OF t(1), of sockfd] assms(2) by simp
  moreover have "is_queue head_s (srv_q (close_fd sockfd t)) []"
    using t(2) assms(2) by (simp add: clients_ok_def queued_def close_fd_def)
  ultimately show ?thesis by blast
qed

text \<open>Without running clients, the main thread leaves the accept loop once it sees the flag.\<close>

lemma reach_draining:
  assumes ok: "clients_ok s es" and none: "filter (running s) es = []"
    and stop: "\<not> run_connections s" and pc: "pc \<noteq> Exited"
  shows "\<exists>t ts. (srv_step sockfd)\<^sup>*\<^sup>* (pc, s) (Draining, t) \<and> clients_ok t ts \<and> filter (running t) ts = []"
proof (cases "pc = Checking")
  case True
  obtain t where t: "check_for_finished_client_threads 0 0 s = Some (0, t)" "clients_ok t []"
    using check_sweeps [OF ok] none by auto
  have "\<not> run_connections t" using check_total [OF ok, of 0 0] t(1) stop by auto
  then have "srv_step sockfd (Accepting, t) (Draining, t)" by (rule main_stop)
  moreover have "srv_step sockfd (Checking, s) (Accepting, t)" using t(1) by (rule main_check)
  ultimately show ?thesis using t(2) True
    by (intro exI [of _ t] exI [of _ "[]"]) (auto intro: converse_rtranclp_into_rtranclp)
next
  case False
  then have "(srv_step sockfd)\<^sup>*\<^sup>* (pc, s) (Draining, s)" using stop pc by (cases pc) (auto intro: main_stop)
  then show ?thesis using ok none by blast
qed



text \<open>
  Exactly one process serves.  Without \<^verbatim>\<open>-d\<close> the process itself enters the accept loop when
  socket, bind, signal handlers, mutex and listen succeed; with \<^verbatim>\<open>-d\<close> the child of the fork does
  and the parent goes to the clean-up; a failing socket or bind ends every process with -1.
\<close>

theorem exactly_one_process_serves:
  "(sock_fd E = -1 \<or> bind_rc E \<noteq> 0 \<longleftrightarrow> main_start E = Return (-1)) \<and>
   (sock_fd E \<noteq> -1 \<and> bind_rc E = 0 \<and> sigterm_ok E \<and> sigint_ok E \<and> mutex_rc E = 0 \<and> listen_rc E = 0 \<longrightarrow>
      (if argc E = 2 \<and> argv1 E = ''-d''
       then (main_start (E\<lparr>fork_pid := 0\<rparr>) = Serve) \<and> (\<forall>pid. pid \<noteq> 0 \<longrightarrow> main_start (E\<lparr>fork_pid := pid\<rparr>) = Prog_cleanup)
       else main_start E = Serve)) \<and>
   (main_start E = Serve \<longrightarrow> sigterm_ok E \<and> sigint_ok E \<and> mutex_rc E = 0 \<and> listen_rc E = 0)"
  by (auto simp: main_start_def Let_def)

theorem exactly_one_process_serves_witness:
  "main_start (sample_main\<lparr>argc := 2, argv1 := ''-d'', fork_pid := 0\<rparr>) = Serve \<and>
   main_start (sample_main\<lparr>argc := 2, argv1 := ''-d'', fork_pid := 77\<rparr>) = Prog_cleanup"
  using exactly_one_process_serves [of "sample_main\<lparr>argc := 2, argv1 := ''-d''\<rparr>"]
  by (simp add: sample_main_def)

end
