(* ===== verification/Data_File_Server.thy ===== *)
theory Data_File_Server
  imports Client_Session Server_Main
begin

text \<open>
  The server of \<^verbatim>\<open>server/aesdsocket.c\<close> built without \<^verbatim>\<open>USE_AESD_CHAR_DEVICE\<close>: packets go to the regular
  file \<^verbatim>\<open>/var/tmp/aesdsocketdata\<close>, a timer adds a time stamp every ten seconds, and \<^verbatim>\<open>file_lock\<close> keeps
  them apart.  All calls of \<^verbatim>\<open>process_packet\<close> and \<^verbatim>\<open>timer_thread\<close> share one open file with one position.
  Each call is a task with a program counter over its system calls; the tasks interleave freely.
  \<open>rc\<close> is what the system answers to the next call of a task.
\<close>

section \<open>State\<close>

datatype packet_pc =
    P_lock | P_seek_end | P_write | P_rewind | P_read | P_send int "byte list" | P_unlock | P_done int

text \<open>
  One call of \<^verbatim>\<open>process_packet\<close>: its arguments \<^verbatim>\<open>fd\<close> and the \<^verbatim>\<open>len\<close> bytes of \<^verbatim>\<open>buff\<close>, and its connection.
  \<open>p_out0\<close> is what had been sent on the connection before the call.
\<close>

record packet =
  p_pc :: packet_pc
  p_fd :: int
  p_buf :: "byte list"
  p_conn :: conn
  p_write_bytes :: int
  p_out0 :: "byte list"

datatype timer_pc = T_lock | T_write | T_unlock | T_done

datatype task = Packet packet | Timer timer_pc "byte list"

text \<open>
  \<open>data\<close> and \<open>dpos\<close> are the contents and the position of the open file, \<open>lock_owner\<close> the task that
  holds \<^verbatim>\<open>file_lock\<close>.  \<open>history\<close> records the bytes each write added, in order.
\<close>

record dstate =
  data :: "byte list"
  dpos :: nat
  lock_owner :: "nat option"
  dtasks :: "nat \<rightharpoonup> task"
  armed :: bool
  history :: "byte list list"

definition write_file :: "byte list \<Rightarrow> dstate \<Rightarrow> dstate" where
  "write_file bs s =
     s\<lparr>data := take (dpos s) (data s) @ replicate (dpos s - length (data s)) 0 @ bs
                 @ drop (dpos s + length bs) (data s),
       dpos := dpos s + length bs, history := history s @ [bs]\<rparr>"

definition set_dtask :: "nat \<Rightarrow> task \<Rightarrow> dstate \<Rightarrow> dstate" where
  "set_dtask i t s = s\<lparr>dtasks := (dtasks s)(i \<mapsto> t)\<rparr>"

text \<open>
  The mutex: an answer other than 0 leaves it alone and is only logged by the callers; a lock that
  is answered with 0 needs a free mutex, an unlock its owner.
\<close>

definition lock_file :: "nat \<Rightarrow> int \<Rightarrow> dstate \<Rightarrow> dstate option" where
  "lock_file i rc s =
     (if rc \<noteq> 0 then Some s else if lock_owner s \<noteq> None then None else Some (s\<lparr>lock_owner := Some i\<rparr>))"

definition unlock_file :: "nat \<Rightarrow> int \<Rightarrow> dstate \<Rightarrow> dstate option" where
  "unlock_file i rc s =
     (if rc \<noteq> 0 then Some s else if lock_owner s \<noteq> Some i then None else Some (s\<lparr>lock_owner := None\<rparr>))"

section \<open>The packet and timer threads\<close>

text \<open>
  \<^verbatim>\<open>process_packet\<close>.  A descriptor other than that of the data file, \<open>dfd\<close>, is not open: calls on it
  fail.  A write answers -1 or how many bytes it took; a read of the file may fail.
\<close>

definition packet_step :: "int \<Rightarrow> nat \<Rightarrow> int \<Rightarrow> packet \<Rightarrow> dstate \<Rightarrow> dstate option" where
  "packet_step dfd i rc p s =
     (let goto = (\<lambda>l. set_dtask i (Packet (p\<lparr>p_pc := l\<rparr>))) in
      case p_pc p of
        P_lock \<Rightarrow> map_option (goto P_seek_end) (lock_file i rc s)
      | P_seek_end \<Rightarrow>
          Some (goto P_write (if p_fd p = dfd then s\<lparr>dpos := length (data s)\<rparr> else s))
      | P_write \<Rightarrow>
          let after = set_dtask i (Packet (p\<lparr>p_pc := P_rewind, p_write_bytes := rc\<rparr>)) in
          if rc = -1 then Some (after s)
          else if p_fd p = dfd \<and> 0 \<le> rc \<and> rc \<le> int (length (p_buf p))
          then Some (after (write_file (take (nat rc) (p_buf p)) s))
          else None
      | P_rewind \<Rightarrow> Some (goto P_read (if p_fd p = dfd then s\<lparr>dpos := 0\<rparr> else s))
      | P_read \<Rightarrow>
          if p_fd p \<noteq> dfd \<or> rc = -1 then Some (goto (P_send (-1) []) s)
          else let bs = take MAX_BUF_SIZE (drop (dpos s) (data s)) in
            Some (if bs = [] then goto P_unlock s
                  else goto (P_send (int (length bs)) bs) (s\<lparr>dpos := dpos s + length bs\<rparr>))
      | P_send n bs \<Rightarrow>
          let (written, c) = sock_write (p_conn p) bs n in
          Some (set_dtask i (Packet (p\<lparr>p_pc := (if written \<noteq> n then P_done (-1) else P_read), p_conn := c\<rparr>)) s)
      | P_unlock \<Rightarrow> map_option (goto (P_done 0)) (unlock_file i rc s)
      | P_done r \<Rightarrow> None)"

text \<open>\<^verbatim>\<open>timer_thread\<close>, with the time stamp \<^verbatim>\<open>strftime\<close> made; it writes at the position it finds.\<close>

definition timer_step :: "nat \<Rightarrow> int \<Rightarrow> timer_pc \<Rightarrow> byte list \<Rightarrow> dstate \<Rightarrow> dstate option" where
  "timer_step i rc tpc time_stamp s =
     (let goto = (\<lambda>l. set_dtask i (Timer l time_stamp)) in
      case tpc of
        T_lock \<Rightarrow> map_option (goto T_write) (lock_file i rc s)
      | T_write \<Rightarrow>
          if rc = -1 then Some (goto T_unlock s)
          else if 0 \<le> rc \<and> rc \<le> int (length time_stamp)
          then Some (goto T_unlock (write_file (take (nat rc) time_stamp) s))
          else None
      | T_unlock \<Rightarrow> map_option (goto T_done) (unlock_file i rc s)
      | T_done \<Rightarrow> None)"

definition task_step :: "int \<Rightarrow> nat \<Rightarrow> int \<Rightarrow> dstate \<Rightarrow> dstate option" where
  "task_step dfd i rc s =
     (case dtasks s i of
        None \<Rightarrow> None
      | Some (Packet p) \<Rightarrow> packet_step dfd i rc p s
      | Some (Timer l st) \<Rightarrow> timer_step i rc l st s)"

text \<open>
  \<^verbatim>\<open>setup_posix_timer\<close>, with the answers of \<^verbatim>\<open>timer_create\<close> and \<^verbatim>\<open>timer_settime\<close>: the result and the
  first expiry and the period, in seconds and nanoseconds, of the armed timer.
\<close>

definition setup_posix_timer :: "int \<Rightarrow> int \<Rightarrow> int \<times> ((nat \<times> nat) \<times> (nat \<times> nat)) option" where
  "setup_posix_timer create_rc settime_rc =
     (if create_rc < 0 then (-1, None)
      else if settime_rc < 0 then (-1, None)
      else (0, Some ((10, 1000000), (10, 1000000))))"

section \<open>Start-up and clean-up\<close>

text \<open>Start-up as in \<open>main_start\<close>, with the data file opened first and a second mutex.\<close>

definition main_start_file :: "main_env \<Rightarrow> int \<Rightarrow> int \<Rightarrow> start_result" where
  "main_start_file E data_fd file_mutex_rc =
     (let dont_fork = (if argc E = 2 \<and> argv1 E = ''-d'' then 0 else (1 :: int)) in
      if data_fd = -1 then Return (-1)
      else if sock_fd E = -1 then Return (-1)
      else if bind_rc E \<noteq> 0 then Return (-1)
      else let pid = (if dont_fork = 0 then fork_pid E else 0) in
        if pid = 0
        then if \<not> sigterm_ok E then Prog_cleanup
             else if \<not> sigint_ok E then Prog_cleanup
             else if mutex_rc E \<noteq> 0 then Prog_cleanup
             else if file_mutex_rc \<noteq> 0 then Prog_cleanup
             else if listen_rc E \<noteq> 0 then Prog_cleanup
             else Serve
        else Prog_cleanup)"

text \<open>The clean-up unlinks the data file; \<open>remove_ok\<close> is the answer of \<^verbatim>\<open>remove\<close>.\<close>

definition prog_cleanup_file :: "bool \<Rightarrow> (string \<rightharpoonup> 'f) \<Rightarrow> (string \<rightharpoonup> 'f)" where
  "prog_cleanup_file remove_ok dir =
     (if remove_ok then dir(''/var/tmp/aesdsocketdata'' := None) else dir)"

definition data_start :: "byte list \<Rightarrow> bool \<Rightarrow> dstate" where
  "data_start old timer =
     \<lparr>data = old, dpos = 0, lock_owner = None, dtasks = Map.empty, armed = timer, history = []\<rparr>"

section \<open>Executions\<close>

text \<open>
  Calls begin at any time, on fresh task numbers.  In a \<open>nominal\<close> execution every packet is written
  to the descriptor of the data file and no \<^verbatim>\<open>pthread_mutex_lock\<close> fails.
\<close>

definition locking :: "task \<Rightarrow> bool" where
  "locking t \<longleftrightarrow> (case t of Packet p \<Rightarrow> p_pc p = P_lock | Timer l st \<Rightarrow> l = T_lock)"

inductive df_step :: "bool \<Rightarrow> int \<Rightarrow> dstate \<Rightarrow> dstate \<Rightarrow> bool" for nominal dfd where
  packet: "dtasks s i = None \<Longrightarrow> (nominal \<longrightarrow> n = dfd) \<Longrightarrow>
     df_step nominal dfd s
       (set_dtask i (Packet \<lparr>p_pc = P_lock, p_fd = n, p_buf = bytes, p_conn = c,
          p_write_bytes = 0, p_out0 = conn_out c\<rparr>) s)"
| expiry: "dtasks s i = None \<Longrightarrow> armed s \<Longrightarrow> df_step nominal dfd s (set_dtask i (Timer T_lock st) s)"
| run: "dtasks s i = Some t \<Longrightarrow> (nominal \<and> locking t \<longrightarrow> rc = 0) \<Longrightarrow> task_step dfd i rc s = Some s' \<Longrightarrow>
     df_step nominal dfd s s'"

inductive_cases df_stepE: "df_step nominal dfd s s'"

section \<open>The invariant of a nominal execution\<close>

text \<open>
  A packet that was written is the last piece of the history while its task holds the lock; the
  reply of a finished task is the history up to its packet.
\<close>

definition wrote :: "packet \<Rightarrow> byte list list \<Rightarrow> bool" where
  "wrote p hs \<longleftrightarrow> (0 \<le> p_write_bytes p \<longrightarrow> (\<exists>hs0. hs = hs0 @ [take (nat (p_write_bytes p)) (p_buf p)]))"

definition answered :: "packet \<Rightarrow> byte list list \<Rightarrow> bool" where
  "answered p hs \<longleftrightarrow>
     (\<exists>hs1 hs2. hs = hs1 @ hs2 \<and> wrote p hs1 \<and> conn_out (p_conn p) = p_out0 p @ concat hs1)"

definition packet_ok :: "int \<Rightarrow> nat \<Rightarrow> packet \<Rightarrow> dstate \<Rightarrow> bool" where
  "packet_ok dfd i p s \<longleftrightarrow> p_fd p = dfd \<and>
     (case p_pc p of
        P_lock \<Rightarrow> conn_out (p_conn p) = p_out0 p
      | P_seek_end \<Rightarrow> lock_owner s = Some i \<and> conn_out (p_conn p) = p_out0 p
      | P_write \<Rightarrow> lock_owner s = Some i \<and> conn_out (p_conn p) = p_out0 p \<and> dpos s = length (data s)
      | P_rewind \<Rightarrow> lock_owner s = Some i \<and> wrote p (history s) \<and> conn_out (p_conn p) = p_out0 p
      | P_read \<Rightarrow> lock_owner s = Some i \<and> wrote p (history s) \<and> dpos s \<le> length (data s) \<and>
          conn_out (p_conn p) = p_out0 p @ take (dpos s) (data s)
      | P_send n bs \<Rightarrow> lock_owner s = Some i \<and> wrote p (history s) \<and> dpos s \<le> length (data s) \<and>
          (n = -1 \<and> bs = [] \<or> n = int (length bs)) \<and>
          conn_out (p_conn p) @ bs = p_out0 p @ take (dpos s) (data s)
      | P_unlock \<Rightarrow> lock_owner s = Some i \<and> wrote p (history s) \<and> dpos s = length (data s) \<and>
          conn_out (p_conn p) = p_out0 p @ data s
      | P_done r \<Rightarrow> r = 0 \<longrightarrow> answered p (history s))"

definition timer_ok :: "nat \<Rightarrow> timer_pc \<Rightarrow> dstate \<Rightarrow> bool" where
  "timer_ok i l s \<longleftrightarrow> (l \<in> {T_write, T_unlock} \<longrightarrow> lock_owner s = Some i \<and> dpos s = length (data s))"

fun task_ok :: "int \<Rightarrow> nat \<Rightarrow> task \<Rightarrow> dstate \<Rightarrow> bool" where
  "task_ok dfd i (Packet p) s \<longleftrightarrow> packet_ok dfd i p s"
| "task_ok dfd i (Timer l st) s \<longleftrightarrow> timer_ok i l s"

definition df_inv :: "int \<Rightarrow> dstate \<Rightarrow> bool" where
  "df_inv dfd s \<longleftrightarrow>
     data s = concat (history s) \<and>
     (lock_owner s = None \<longrightarrow> dpos s = length (data s)) \<and>
     (\<forall>i. lock_owner s = Some i \<longrightarrow> dtasks s i \<noteq> None) \<and>
     (\<forall>i t. dtasks s i = Some t \<longrightarrow> task_ok dfd i t s)"

lemma df_invD:
  assumes "df_inv dfd s"
  shows "data s = concat (history s)" and "dtasks s i = Some t \<Longrightarrow> task_ok dfd i t s"
  using assms unfolding df_inv_def by blast+

lemma answered_append: "answered p hs \<Longrightarrow> answered p (hs @ hs1)"
  unfolding answered_def by (metis append_assoc)

lemma task_ok_same:
  assumes "task_ok dfd j t s" and "data s' = data s" "dpos s' = dpos s" "lock_owner s' = lock_owner s"
    "history s' = history s"
  shows "task_ok dfd j t s'"
  using assms by (cases t) (auto simp: packet_ok_def timer_ok_def split: packet_pc.split)

text \<open>A task that does not hold the lock does not depend on the file.\<close>

lemma task_ok_unlocked:
  assumes "task_ok dfd j t s" and "lock_owner s \<noteq> Some j" and "history s' = history s @ hs1"
  shows "task_ok dfd j t s'"
  using assms by (cases t) (auto simp: packet_ok_def timer_ok_def intro: answered_append split: packet_pc.splits)

text \<open>A send that is accepted whole adds the bytes to what the peer gets.\<close>

lemma sock_write_whole:
  assumes "sock_write c bs n = (n, c')"
  shows "n = int (length bs) \<Longrightarrow> conn_out c' = conn_out c @ bs" and "n = -1 \<Longrightarrow> c' = c"
  using assms by (auto simp: sock_write_def min_def split: if_splits list.splits option.splits)

lemma write_file_end:
  "dpos s = length (data s) \<Longrightarrow> write_file bs s =
     s\<lparr>data := data s @ bs, dpos := length (data s @ bs), history := history s @ [bs]\<rparr>"
  by (simp add: write_file_def)

text \<open>What a step of a task does in a nominal execution.\<close>

definition step_effect :: "int \<Rightarrow> nat \<Rightarrow> dstate \<Rightarrow> dstate \<Rightarrow> bool" where
  "step_effect dfd i s s' \<longleftrightarrow>
     (\<exists>t'. dtasks s' = (dtasks s)(i \<mapsto> t') \<and> task_ok dfd i t' s') \<and>
     data s' = concat (history s') \<and> (lock_owner s' = None \<longrightarrow> dpos s' = length (data s')) \<and>
     (lock_owner s' = lock_owner s \<or> lock_owner s' = None \<or> lock_owner s' = Some i) \<and>
     (data s' = data s \<and> dpos s' = dpos s \<and> lock_owner s' = lock_owner s \<and> history s' = history s \<or>
      (\<forall>j. j \<noteq> i \<longrightarrow> lock_owner s \<noteq> Some j) \<and> (\<exists>hs1. history s' = history s @ hs1))"

lemma timer_step_effect:
  assumes "timer_step i rc l st s = Some s'" and "timer_ok i l s" and "l = T_lock \<longrightarrow> rc = 0"
    and "data s = concat (history s)" "lock_owner s = None \<longrightarrow> dpos s = length (data s)"
  shows "step_effect dfd i s s'"
  using assms
  by (cases l)
    (auto simp: timer_step_def step_effect_def timer_ok_def set_dtask_def lock_file_def unlock_file_def
      write_file_end split: if_splits)

lemma packet_step_effect:
  assumes "packet_step dfd i rc p s = Some s'" and "packet_ok dfd i p s" and "p_pc p = P_lock \<longrightarrow> rc = 0"
    and "data s = concat (history s)" "lock_owner s = None \<longrightarrow> dpos s = length (data s)"
  shows "step_effect dfd i s s'"
proof (cases "p_pc p")
  case P_lock
  then show ?thesis using assms
    by (auto simp: packet_step_def step_effect_def packet_ok_def set_dtask_def lock_file_def split: if_splits)
next
  case P_seek_end
  then show ?thesis using assms by (auto simp: packet_step_def step_effect_def packet_ok_def set_dtask_def)
next
  case P_write
  then show ?thesis using assms
    by (auto simp: packet_step_def step_effect_def packet_ok_def set_dtask_def write_file_end wrote_def Let_def
        split: if_splits)
next
  case P_rewind
  then show ?thesis using assms by (auto simp: packet_step_def step_effect_def packet_ok_def set_dtask_def wrote_def)
next
  case P_unlock
  then have "answered (p\<lparr>p_pc := P_done 0\<rparr>) (history s)"
    using assms(2,4) unfolding answered_def packet_ok_def wrote_def by auto
  then show ?thesis using assms P_unlock
    by (auto simp: packet_step_def step_effect_def packet_ok_def set_dtask_def unlock_file_def split: if_splits)
next
  case (P_done r)
  then show ?thesis using assms by (simp add: packet_step_def)
next
  case P_read
  show ?thesis
  proof (cases "p_fd p \<noteq> dfd \<or> rc = -1 \<or> drop (dpos s) (data s) = []")
    case True
    then show ?thesis using assms P_read
      by (auto simp: packet_step_def step_effect_def packet_ok_def set_dtask_def wrote_def MAX_BUF_SIZE_def
          split: if_splits)
  next
    case False
    let ?bs = "take MAX_BUF_SIZE (drop (dpos s) (data s))"
    have "take (dpos s + length ?bs) (data s) = take (dpos s) (data s) @ ?bs"
      by (simp add: take_add min_def)
    moreover have "dpos s + length ?bs \<le> length (data s)" using False by auto
    moreover have "?bs \<noteq> []" using False by (simp add: MAX_BUF_SIZE_def)
    moreover define s1 where "s1 = s\<lparr>dpos := dpos s + length ?bs\<rparr>"
    ultimately have s': "s' = set_dtask i (Packet (p\<lparr>p_pc := P_send (int (length ?bs)) ?bs\<rparr>)) s1"
      and t: "take (dpos s1) (data s1) = take (dpos s) (data s) @ ?bs" "dpos s1 \<le> length (data s1)"
      using assms(1) P_read False by (simp_all add: packet_step_def Let_def)
    have s1: "lock_owner s1 = lock_owner s" "history s1 = history s" "data s1 = data s" "dtasks s1 = dtasks s"
      by (simp_all add: s1_def)
    have "packet_ok dfd i (p\<lparr>p_pc := P_send (int (length ?bs)) ?bs\<rparr>) s'"
      using assms(2) P_read t s1 unfolding s' by (simp add: packet_ok_def set_dtask_def wrote_def)
    moreover have "lock_owner s = Some i" using assms(2) P_read by (simp add: packet_ok_def)
    ultimately show ?thesis using s1 assms(4) unfolding step_effect_def s' by (auto simp: set_dtask_def)
  qed
next
  case (P_send n bs)
  obtain w c where w: "sock_write (p_conn p) bs n = (w, c)" by fastforce
  have ok: "lock_owner s = Some i" "wrote p (history s)" "dpos s \<le> length (data s)" "p_fd p = dfd"
    "n = -1 \<and> bs = [] \<or> n = int (length bs)" "conn_out (p_conn p) @ bs = p_out0 p @ take (dpos s) (data s)"
    using assms(2) P_send by (simp_all add: packet_ok_def)
  have out: "conn_out c = p_out0 p @ take (dpos s) (data s)" if "w = n"
    using sock_write_whole [of "p_conn p" bs n c] w that ok(5,6) by auto
  have s': "s' = set_dtask i (Packet (p\<lparr>p_pc := (if w \<noteq> n then P_done (-1) else P_read), p_conn := c\<rparr>)) s"
    using assms(1) P_send w by (simp add: packet_step_def)
  show ?thesis using ok out assms(4,5) unfolding s'
    by (auto simp: step_effect_def packet_ok_def set_dtask_def wrote_def)
qed

lemma step_effect_inv:
  assumes eff: "step_effect dfd i s s'" and inv: "df_inv dfd s"
  shows "df_inv dfd s'"
proof -
  obtain t' where t': "dtasks s' = (dtasks s)(i \<mapsto> t')" "task_ok dfd i t' s'"
    using eff by (auto simp: step_effect_def)
  have "task_ok dfd j t s'" if "dtasks s' j = Some t" for j t
  proof (cases "j = i")
    case True
    then show ?thesis using that t' by simp
  next
    case False
    then have ok: "task_ok dfd j t s" using that t'(1) inv by (simp add: df_inv_def)
    show ?thesis
    proof (cases "data s' = data s \<and> dpos s' = dpos s \<and> lock_owner s' = lock_owner s \<and> history s' = history s")
      case True
      then show ?thesis using task_ok_same [OF ok] by simp
    next
      case diff: False
      then obtain hs1 where "lock_owner s \<noteq> Some j" "history s' = history s @ hs1"
        using eff False by (auto simp: step_effect_def)
      then show ?thesis using task_ok_unlocked [OF ok] by simp
    qed
  qed
  moreover have "dtasks s' j \<noteq> None" if "lock_owner s' = Some j" for j
    using that eff inv t'(1) by (auto simp: step_effect_def df_inv_def)
  ultimately show ?thesis using eff by (simp add: df_inv_def step_effect_def)
qed

lemma task_step_inv:
  assumes run: "task_step dfd i rc s = Some s'" and t: "dtasks s i = Some t" and nom: "locking t \<longrightarrow> rc = 0"
    and inv: "df_inv dfd s"
  shows "df_inv dfd s'"
proof (rule step_effect_inv [OF _ inv])
  have ok: "task_ok dfd i t s" "data s = concat (history s)" "lock_owner s = None \<longrightarrow> dpos s = length (data s)"
    using inv t by (simp_all add: df_inv_def)
  show "step_effect dfd i s s'"
  proof (cases t)
    case (Packet p)
    then show ?thesis using run t ok nom by (auto simp: task_step_def locking_def intro: packet_step_effect)
  next
    case (Timer l st)
    then show ?thesis using run t ok nom by (auto simp: task_step_def locking_def intro: timer_step_effect)
  qed
qed

lemma spawn_inv:
  assumes "df_inv dfd s" and "dtasks s i = None" and "task_ok dfd i t (set_dtask i t s)"
  shows "df_inv dfd (set_dtask i t s)"
proof -
  have "task_ok dfd j u (set_dtask i t s)" if "dtasks s j = Some u" for j u
    by (rule task_ok_same [OF df_invD(2) [OF assms(1) that]]) (simp_all add: set_dtask_def)
  then have "task_ok dfd j u (set_dtask i t s)" if "dtasks (set_dtask i t s) j = Some u" for j u
    using that assms(3) by (cases "j = i") (simp_all add: set_dtask_def)
  moreover have "data (set_dtask i t s) = data s" "history (set_dtask i t s) = history s"
    "lock_owner (set_dtask i t s) = lock_owner s" "dpos (set_dtask i t s) = dpos s"
    by (simp_all add: set_dtask_def)
  moreover have "dtasks (set_dtask i t s) j \<noteq> None" if "lock_owner s = Some j" for j
    using assms(1) that by (auto simp: df_inv_def set_dtask_def)
  ultimately show ?thesis using assms(1) unfolding df_inv_def by metis
qed

lemma nominal_step_inv: "df_step True dfd s s' \<Longrightarrow> df_inv dfd s \<Longrightarrow> df_inv dfd s'"
proof (induction rule: df_step.induct)
  case (packet s i n bytes c)
  then show ?case by (intro spawn_inv) (auto simp: packet_ok_def)
next
  case (expiry s i st)
  then show ?case by (intro spawn_inv) (auto simp: timer_ok_def)
next
  case (run s i t rc s')
  then show ?case using task_step_inv by blast
qed

lemma nominal_reach_inv: "(df_step True dfd)\<^sup>*\<^sup>* (data_start [] timer) s \<Longrightarrow> df_inv dfd s"
proof (induction rule: rtranclp_induct)
  case base
  then show ?case by (simp add: df_inv_def data_start_def)
next
  case (step s s')
  then show ?case using nominal_step_inv by blast
qed

section \<open>Properties\<close>


text \<open>The program points of a task between its lock and its unlock.\<close>

definition in_critical :: "task \<Rightarrow> bool" where
  "in_critical t \<longleftrightarrow>
     (case t of
        Packet p \<Rightarrow> (case p_pc p of P_lock \<Rightarrow> False | P_done r \<Rightarrow> False | _ \<Rightarrow> True)
      | Timer l st \<Rightarrow> l \<in> {T_write, T_unlock})"

text \<open>
  In those interleavings at most one thread is between its lock and its unlock of
  \<^verbatim>\<open>file_lock\<close>, and it holds the mutex.
\<close>

theorem file_lock_excludes:
  assumes "(df_step True dfd)\<^sup>*\<^sup>* (data_start [] timer) s"
    and "dtasks s i = Some t" "in_critical t" and "dtasks s j = Some u" "in_critical u"
  shows "i = j \<and> lock_owner s = Some i"
proof -
  have inv: "df_inv dfd s" using assms(1) by (rule nominal_reach_inv)
  have "lock_owner s = Some k" if "dtasks s k = Some v" "in_critical v" for k v
  proof -
    have "task_ok dfd k v s" using df_invD(2) [OF inv that(1)] .
    then show ?thesis using that(2)
      by (cases v) (auto simp: in_critical_def packet_ok_def timer_ok_def split: packet_pc.splits)
  qed
  from this [OF assms(2,3)] this [OF assms(4,5)] show ?thesis by simp
qed

text \<open>A task that does not own the lock cannot release it, nor change another task.\<close>

lemma task_step_others:
  assumes "task_step dfd j rc s = Some s'" and "lock_owner s = Some i" and "j \<noteq> i"
  shows "lock_owner s' = Some i" and "dtasks s' i = dtasks s i"
proof -
  obtain t where t: "dtasks s j = Some t" using assms(1) by (auto simp: task_step_def split: option.splits)
  have "lock_owner s' = Some i \<and> dtasks s' i = dtasks s i"
  proof (cases t)
    case (Packet p)
    then show ?thesis using assms t
      by (cases "p_pc p")
        (auto simp: task_step_def packet_step_def lock_file_def unlock_file_def set_dtask_def write_file_def Let_def
          split: if_splits prod.splits)
  next
    case (Timer l st)
    then show ?thesis using assms t
      by (cases l)
        (auto simp: task_step_def timer_step_def lock_file_def unlock_file_def set_dtask_def write_file_def
          split: if_splits)
  qed
  then show "lock_owner s' = Some i" "dtasks s' i = dtasks s i" by simp_all
qed

text \<open>The lock is held by a call that has returned.\<close>

definition lock_lost :: "nat \<Rightarrow> dstate \<Rightarrow> bool" where
  "lock_lost i s \<longleftrightarrow>
     lock_owner s = Some i \<and> (\<exists>p r. dtasks s i = Some (Packet p) \<and> p_pc p = P_done r)"

lemma lock_lost_step: "df_step b dfd s s' \<Longrightarrow> lock_lost i s \<Longrightarrow> lock_lost i s'"
proof (induction rule: df_step.induct)
  case (packet s j n bytes c)
  then show ?case by (auto simp: lock_lost_def set_dtask_def)
next
  case (expiry s j st)
  then show ?case by (auto simp: lock_lost_def set_dtask_def)
next
  case (run s j t rc s')
  obtain p r where p: "lock_owner s = Some i" "dtasks s i = Some (Packet p)" "p_pc p = P_done r"
    using run.prems by (auto simp: lock_lost_def)
  have "j \<noteq> i" using run.hyps(3) p by (auto simp: task_step_def packet_step_def)
  then show ?case using task_step_others [OF run.hyps(3) p(1)] p by (simp add: lock_lost_def)
qed

lemma lock_lost_forever: "(df_step b dfd)\<^sup>*\<^sup>* s s' \<Longrightarrow> lock_lost i s \<Longrightarrow> lock_lost i s'"
  by (induction rule: rtranclp_induct) (auto intro: lock_lost_step)

text \<open>
  C40: a failed send blocks the data file for good.  When the peer of a packet thread refuses the
  reply, \<^verbatim>\<open>process_packet\<close> returns -1 without releasing \<^verbatim>\<open>file_lock\<close>; from then on, in every
  execution, the mutex stays with the thread that has returned and no other thread can take it.
\<close>

theorem failed_send_blocks_file:
  assumes "(df_step True dfd)\<^sup>*\<^sup>* (data_start [] timer) s" and "dtasks s i = Some (Packet p)"
    and "p_pc p = P_send n bs" and "0 \<le> n" and "conn_lim (p_conn p) = None # ls"
  shows "\<exists>s1 p1. task_step dfd i rc s = Some s1 \<and> dtasks s1 i = Some (Packet p1) \<and> p_pc p1 = P_done (-1) \<and>
    (\<forall>s'. (df_step b dfd)\<^sup>*\<^sup>* s1 s' \<longrightarrow>
       lock_owner s' = Some i \<and>
       (\<forall>j t. dtasks s' j = Some t \<and> locking t \<longrightarrow> task_step dfd j 0 s' = None))"
proof -
  let ?p = "p\<lparr>p_pc := P_done (-1), p_conn := (p_conn p)\<lparr>conn_lim := ls\<rparr>\<rparr>"
  have "task_ok dfd i (Packet p) s" using df_invD(2) [OF nominal_reach_inv [OF assms(1)] assms(2)] .
  then have own: "lock_owner s = Some i" using assms(3) by (simp add: packet_ok_def)
  have run: "task_step dfd i rc s = Some (set_dtask i (Packet ?p) s)"
    using assms(2-5) by (simp add: task_step_def packet_step_def sock_write_def)
  have lost: "lock_lost i (set_dtask i (Packet ?p) s)" using own by (simp add: lock_lost_def set_dtask_def)
  have held: "lock_owner s' = Some i" if "(df_step b dfd)\<^sup>*\<^sup>* (set_dtask i (Packet ?p) s) s'" for s'
    using lock_lost_forever [OF that lost] by (simp add: lock_lost_def)
  have "task_step dfd j 0 s' = None" if "lock_owner s' = Some i" "dtasks s' j = Some t" "locking t" for s' j t
    using that by (cases t) (auto simp: task_step_def packet_step_def timer_step_def lock_file_def locking_def)
  then show ?thesis using run held by (auto simp: set_dtask_def)
qed

text \<open>A packet thread with a descriptor that is not open: it goes round the reply loop.\<close>

definition spinning :: "int \<Rightarrow> packet \<Rightarrow> bool" where
  "spinning dfd p \<longleftrightarrow> p_fd p \<noteq> dfd \<and> conn_out (p_conn p) = p_out0 p \<and>
     p_pc p \<in> {P_lock, P_seek_end, P_write, P_rewind, P_read, P_send (-1) []}"

lemma spinning_step:
  assumes "packet_step dfd i rc p s = Some s'" and "spinning dfd p"
  shows "\<exists>p'. dtasks s' i = Some (Packet p') \<and> spinning dfd p' \<and> data s' = data s"
  using assms
  by (cases "p_pc p")
    (auto simp: spinning_def packet_step_def lock_file_def set_dtask_def sock_write_def Let_def split: if_splits)

lemma task_step_keeps_task: "task_step dfd j rc s = Some s' \<Longrightarrow> j \<noteq> i \<Longrightarrow> dtasks s' i = dtasks s i"
  by (auto simp: task_step_def packet_step_def timer_step_def lock_file_def unlock_file_def set_dtask_def
      write_file_def Let_def split: option.splits task.splits packet_pc.splits timer_pc.splits if_splits prod.splits)

lemma df_step_spins:
  assumes "df_step b dfd s s'" and "dtasks s i = Some (Packet p)" and "spinning dfd p"
  shows "\<exists>p'. dtasks s' i = Some (Packet p') \<and> spinning dfd p'"
  using assms
proof (induction rule: df_step.induct)
  case (run s j t rc s')
  show ?case
  proof (cases "j = i")
    case True
    then have "packet_step dfd i rc p s = Some s'" using run by (auto simp: task_step_def)
    then show ?thesis using spinning_step run.prems(2) by blast
  next
    case False
    then show ?thesis using task_step_keeps_task [OF run.hyps(3) False] run.prems by simp
  qed
qed (auto simp: set_dtask_def)

text \<open>
  A packet given to \<^verbatim>\<open>process_packet\<close> with a descriptor that is not open never comes back.  The
  reads answer -1, which the loop condition takes for data, and the sends of -1 bytes answer
  -1 too, which is taken for success: the thread goes round the loop for ever and its peer gets
  nothing.  In this build the field \<^verbatim>\<open>fd\<close> that is passed is never assigned.
\<close>

theorem bad_descriptor_never_returns:
  assumes "dtasks s i = Some (Packet p)" and "p_pc p = P_lock" and "p_fd p \<noteq> dfd"
    and "conn_out (p_conn p) = p_out0 p" and "(df_step b dfd)\<^sup>*\<^sup>* s s'"
  shows "\<exists>p'. dtasks s' i = Some (Packet p') \<and> (\<forall>r. p_pc p' \<noteq> P_done r) \<and> conn_out (p_conn p') = p_out0 p'"
proof -
  have "\<exists>p'. dtasks s' i = Some (Packet p') \<and> spinning dfd p'"
    using assms(5)
  proof (induction rule: rtranclp_induct)
    case base
    then show ?case using assms by (simp add: spinning_def)
  next
    case (step s1 s2)
    then show ?case using df_step_spins by blast
  qed
  then show ?thesis by (auto simp: spinning_def)
qed

text \<open>
  With \<^verbatim>\<open>-d\<close> the parent of the fork goes to the clean-up and unlinks the data file the child serves
  from.
\<close>

lemma daemon_parent_unlinks_data_file:
  assumes "argc E = 2" "argv1 E = ''-d''" "data_fd \<noteq> -1" "sock_fd E \<noteq> -1" "bind_rc E = 0" "sigterm_ok E"
    "sigint_ok E" "mutex_rc E = 0" "listen_rc E = 0" "0 < pid"
  shows "main_start_file (E\<lparr>fork_pid := 0\<rparr>) data_fd 0 = Serve \<and>
         main_start_file (E\<lparr>fork_pid := pid\<rparr>) data_fd 0 = Prog_cleanup \<and>
         prog_cleanup_file True dir ''/var/tmp/aesdsocketdata'' = None"
  using assms by (simp add: main_start_file_def prog_cleanup_file_def)

section \<open>Examples\<close>

text \<open>The steps of one task in a row, in a nominal execution.\<close>

fun run_task :: "int \<Rightarrow> nat \<Rightarrow> int list \<Rightarrow> dstate \<Rightarrow> dstate option" where
  "run_task dfd i [] s = Some s"
| "run_task dfd i (rc # rcs) s =
     (case dtasks s i of
        None \<Rightarrow> None
      | Some t \<Rightarrow> if locking t \<and> rc \<noteq> 0 then None
                  else do { s1 \<leftarrow> task_step dfd i rc s; run_task dfd i rcs s1 })"

lemma run_task_steps: "run_task dfd i rcs s = Some s' \<Longrightarrow> (df_step True dfd)\<^sup>*\<^sup>* s s'"
proof (induction rcs arbitrary: s)
  case (Cons rc rcs)
  then obtain t s1 where "dtasks s i = Some t" "\<not> (locking t \<and> rc \<noteq> 0)" "task_step dfd i rc s = Some s1"
    "run_task dfd i rcs s1 = Some s'"
    by (auto simp: bind_eq_Some_conv split: option.splits if_splits)
  then show ?case using Cons.IH by (meson converse_rtranclp_into_rtranclp df_step.run)
qed simp

text \<open>A packet of two bytes on descriptor 7, on a connection whose peer accepts or refuses replies.\<close>

definition sample_packet :: "int \<Rightarrow> nat option list \<Rightarrow> packet" where
  "sample_packet n lim =
     \<lparr>p_pc = P_lock, p_fd = n, p_buf = [104, 10], p_conn = \<lparr>conn_in = [], conn_out = [], conn_lim = lim\<rparr>,
      p_write_bytes = 0, p_out0 = []\<rparr>"

definition with_packet :: "int \<Rightarrow> nat option list \<Rightarrow> dstate" where
  "with_packet n lim = set_dtask 1 (Packet (sample_packet n lim)) (data_start [] True)"

lemma with_packet_reach: "(df_step True 7)\<^sup>*\<^sup>* (data_start [] True) (with_packet 7 lim)"
proof -
  have "df_step True 7 (data_start [] True)
      (set_dtask 1 (Packet \<lparr>p_pc = P_lock, p_fd = 7, p_buf = [104, 10],
         p_conn = \<lparr>conn_in = [], conn_out = [], conn_lim = lim\<rparr>, p_write_bytes = 0,
         p_out0 = conn_out \<lparr>conn_in = [], conn_out = [], conn_lim = lim\<rparr>\<rparr>) (data_start [] True))"
    by (rule df_step.packet) (simp_all add: data_start_def)
  then show ?thesis by (simp add: with_packet_def sample_packet_def)
qed

lemmas df_eval = with_packet_def sample_packet_def data_start_def set_dtask_def task_step_def packet_step_def
  timer_step_def lock_file_def unlock_file_def write_file_def locking_def sock_write_def MAX_BUF_SIZE_def Let_def

definition packet_finished :: dstate where
  "packet_finished = the (run_task 7 1 [0, 0, 2, 0, 0, 0, 0, 0] (with_packet 7 []))"

definition packet_reading :: "nat option list \<Rightarrow> dstate" where
  "packet_reading lim = the (run_task 7 1 [0, 0, 2, 0, 0] (with_packet 7 lim))"

lemma packet_finished_reach: "(df_step True 7)\<^sup>*\<^sup>* (data_start [] True) packet_finished"
proof -
  have "run_task 7 1 [0, 0, 2, 0, 0, 0, 0, 0] (with_packet 7 []) = Some packet_finished"
    by (simp add: packet_finished_def df_eval)
  then show ?thesis using run_task_steps with_packet_reach by (meson rtranclp_trans)
qed

lemma packet_reading_reach: "(df_step True 7)\<^sup>*\<^sup>* (data_start [] True) (packet_reading lim)"
proof -
  have "run_task 7 1 [0, 0, 2, 0, 0] (with_packet 7 lim) = Some (packet_reading lim)"
    by (simp add: packet_reading_def df_eval)
  then show ?thesis using run_task_steps with_packet_reach by (meson rtranclp_trans)
qed


theorem file_lock_excludes_witness: "lock_owner (packet_reading []) = Some 1"
proof -
  obtain t where "dtasks (packet_reading []) 1 = Some t" "in_critical t"
    by (simp add: packet_reading_def df_eval in_critical_def)
  then show ?thesis using file_lock_excludes [OF packet_reading_reach] by blast
qed

theorem failed_send_blocks_file_witness:
  "\<exists>s1. task_step 7 1 0 (packet_reading [None]) = Some s1 \<and> lock_owner s1 = Some 1"
proof -
  obtain p where "dtasks (packet_reading [None]) 1 = Some (Packet p)" "p_pc p = P_send 2 [104, 10]"
    "conn_lim (p_conn p) = None # []"
    by (simp add: packet_reading_def df_eval)
  from failed_send_blocks_file [OF packet_reading_reach this(1,2) _ this(3), of 0 True] show ?thesis by auto
qed

theorem bad_descriptor_never_returns_witness:
  "\<exists>p'. dtasks (the (run_task 7 1 [0, 0, -1, 0, 0, 0, 0] (with_packet 9 []))) 1 = Some (Packet p') \<and>
        (\<forall>r. p_pc p' \<noteq> P_done r)"
proof -
  have "run_task 7 1 [0, 0, -1, 0, 0, 0, 0] (with_packet 9 []) =
      Some (the (run_task 7 1 [0, 0, -1, 0, 0, 0, 0] (with_packet 9 [])))"
    by (simp add: df_eval)
  then have run: "(df_step True 7)\<^sup>*\<^sup>* (with_packet 9 []) (the (run_task 7 1 [0, 0, -1, 0, 0, 0, 0] (with_packet 9 [])))"
    by (rule run_task_steps)
  have "dtasks (with_packet 9 []) 1 = Some (Packet (sample_packet 9 []))"
    by (simp add: with_packet_def set_dtask_def)
  from bad_descriptor_never_returns [OF this _ _ _ run] show ?thesis by (auto simp: sample_packet_def)
qed

end
