(* ===== verification/Singly_Linked.thy ===== *)
theory Singly_Linked
  imports Queue_Loops
begin

text \<open>
  The singly-linked lists (\<^verbatim>\<open>SLIST\<close>) and singly-linked tail queues (\<^verbatim>\<open>STAILQ\<close>) of
  \<^verbatim>\<open>server/queue.h\<close>, macro by macro.  The pointer \<^verbatim>\<open>slh_first\<close> or \<^verbatim>\<open>stqh_first\<close> of a head and the
  pointer \<^verbatim>\<open>sle_next\<close> or \<^verbatim>\<open>stqe_next\<close> of an element are cells of a store \<open>links\<close>.  A tail queue has
  in addition the field \<^verbatim>\<open>stqh_last\<close> of its head, the address of a cell.  An access to a cell that
  is not allocated is \<open>None\<close>.  The debugging macros are empty in this build.
\<close>

section \<open>The macros of singly-linked lists\<close>

definition put :: "node \<Rightarrow> nat option \<Rightarrow> links \<Rightarrow> links option" where
  "put a v s = (if s a = None then None else Some (s(a \<mapsto> v)))"

definition SLIST_FIRST :: "nat \<Rightarrow> links \<Rightarrow> nat option option" where
  "SLIST_FIRST h s = s (Head h)"

definition SLIST_NEXT :: "nat \<Rightarrow> links \<Rightarrow> nat option option" where
  "SLIST_NEXT x s = s (Elm x)"

definition SLIST_EMPTY :: "nat \<Rightarrow> links \<Rightarrow> bool option" where
  "SLIST_EMPTY h s = do { p \<leftarrow> SLIST_FIRST h s; Some (p = None) }"

definition SLIST_INIT :: "nat \<Rightarrow> links \<Rightarrow> links option" where
  "SLIST_INIT h s = put (Head h) None s"

definition SLIST_INSERT_AFTER :: "nat \<Rightarrow> nat \<Rightarrow> links \<Rightarrow> links option" where
  "SLIST_INSERT_AFTER slistelm elm s =
     do {
       n \<leftarrow> SLIST_NEXT slistelm s;
       s \<leftarrow> put (Elm elm) n s;
       put (Elm slistelm) (Some elm) s
     }"

definition SLIST_INSERT_HEAD :: "nat \<Rightarrow> nat \<Rightarrow> links \<Rightarrow> links option" where
  "SLIST_INSERT_HEAD h elm s =
     do {
       f \<leftarrow> SLIST_FIRST h s;
       s \<leftarrow> put (Elm elm) f s;
       put (Head h) (Some elm) s
     }"

text \<open>A null pointer where the macro follows a pointer is a crash.\<close>

definition SLIST_REMOVE_AFTER :: "nat \<Rightarrow> links \<Rightarrow> links option" where
  "SLIST_REMOVE_AFTER elm s =
     do {
       next1 \<leftarrow> SLIST_NEXT elm s;
       y \<leftarrow> next1;
       n \<leftarrow> SLIST_NEXT y s;
       put (Elm elm) n s
     }"

definition SLIST_REMOVE_HEAD :: "nat \<Rightarrow> links \<Rightarrow> links option" where
  "SLIST_REMOVE_HEAD h s =
     do {
       f \<leftarrow> SLIST_FIRST h s;
       x \<leftarrow> f;
       n \<leftarrow> SLIST_NEXT x s;
       put (Head h) n s
     }"

text \<open>The search for the predecessor of \<^verbatim>\<open>elm\<close>; a list without \<^verbatim>\<open>elm\<close> ends in a crash.\<close>

partial_function (option) find_before :: "links \<Rightarrow> nat \<Rightarrow> nat option \<Rightarrow> nat option" where
  "find_before s elm curelm =
     do {
       c \<leftarrow> curelm;
       n \<leftarrow> s (Elm c);
       if n = Some elm then Some c else find_before s elm n
     }"

definition SLIST_REMOVE :: "nat \<Rightarrow> nat \<Rightarrow> links \<Rightarrow> links option" where
  "SLIST_REMOVE h elm s =
     do {
       f \<leftarrow> SLIST_FIRST h s;
       if f = Some elm then SLIST_REMOVE_HEAD h s
       else do { c \<leftarrow> find_before s elm f; SLIST_REMOVE_AFTER c s }
     }"

definition SLIST_SWAP :: "nat \<Rightarrow> nat \<Rightarrow> links \<Rightarrow> links option" where
  "SLIST_SWAP h1 h2 s =
     do {
       swap_first \<leftarrow> SLIST_FIRST h1 s;
       f2 \<leftarrow> SLIST_FIRST h2 s;
       s \<leftarrow> put (Head h1) f2 s;
       put (Head h2) swap_first s
     }"

definition SLIST_FOREACH :: "('a \<Rightarrow> links) \<Rightarrow> nat \<Rightarrow> (nat \<Rightarrow> 'a \<Rightarrow> 'a option) \<Rightarrow> 'a \<Rightarrow> 'a option" where
  "SLIST_FOREACH st h body \<sigma> = do { v \<leftarrow> SLIST_FIRST h (st \<sigma>); tq_loop st SLIST_NEXT body v \<sigma> }"

definition SLIST_FOREACH_FROM ::
  "('a \<Rightarrow> links) \<Rightarrow> nat \<Rightarrow> nat option \<Rightarrow> (nat \<Rightarrow> 'a \<Rightarrow> 'a option) \<Rightarrow> 'a \<Rightarrow> 'a option" where
  "SLIST_FOREACH_FROM st h var body \<sigma> =
     do { v \<leftarrow> from_or var (SLIST_FIRST h (st \<sigma>)); tq_loop st SLIST_NEXT body v \<sigma> }"

definition SLIST_FOREACH_SAFE :: "('a \<Rightarrow> links) \<Rightarrow> nat \<Rightarrow> (nat \<Rightarrow> 'a \<Rightarrow> 'a option) \<Rightarrow> 'a \<Rightarrow> 'a option" where
  "SLIST_FOREACH_SAFE st h body \<sigma> = do { v \<leftarrow> SLIST_FIRST h (st \<sigma>); tq_loop_safe st SLIST_NEXT body v \<sigma> }"

definition SLIST_FOREACH_FROM_SAFE ::
  "('a \<Rightarrow> links) \<Rightarrow> nat \<Rightarrow> nat option \<Rightarrow> (nat \<Rightarrow> 'a \<Rightarrow> 'a option) \<Rightarrow> 'a \<Rightarrow> 'a option" where
  "SLIST_FOREACH_FROM_SAFE st h var body \<sigma> =
     do { v \<leftarrow> from_or var (SLIST_FIRST h (st \<sigma>)); tq_loop_safe st SLIST_NEXT body v \<sigma> }"

text \<open>This loop walks over the cells; the body gets the address \<^verbatim>\<open>varp\<close> of the pointer to \<^verbatim>\<open>var\<close>.\<close>

partial_function (option) prevptr_loop ::
  "('a \<Rightarrow> links) \<Rightarrow> (nat \<Rightarrow> node \<Rightarrow> 'a \<Rightarrow> 'a option) \<Rightarrow> node \<Rightarrow> 'a \<Rightarrow> 'a option" where
  "prevptr_loop st body varp \<sigma> =
     do {
       var \<leftarrow> st \<sigma> varp;
       case var of
         None \<Rightarrow> Some \<sigma>
       | Some x \<Rightarrow> do { \<sigma>' \<leftarrow> body x varp \<sigma>; prevptr_loop st body (Elm x) \<sigma>' }
     }"

definition SLIST_FOREACH_PREVPTR ::
  "('a \<Rightarrow> links) \<Rightarrow> nat \<Rightarrow> (nat \<Rightarrow> node \<Rightarrow> 'a \<Rightarrow> 'a option) \<Rightarrow> 'a \<Rightarrow> 'a option" where
  "SLIST_FOREACH_PREVPTR st h body \<sigma> = prevptr_loop st body (Head h) \<sigma>"

section \<open>What they do to the list\<close>

lemma put_Some [simp]: "s a = Some v \<Longrightarrow> put a w s = Some (s(a \<mapsto> w))"
  by (simp add: put_def)

lemma find_before_chain:
  assumes "chain s (Elm c) (xs @ x # ys) n" and "x \<notin> set xs"
  shows "find_before s x (Some c) = Some (last (c # xs))"
  using assms
proof (induction xs arbitrary: c)
  case Nil
  then show ?case by (subst find_before.simps) simp
next
  case (Cons y xs)
  then show ?case by (subst find_before.simps) auto
qed

interpretation sl: traversal "linked h" "SLIST_FIRST h" SLIST_NEXT for h
proof
  show "SLIST_FIRST h s = Some (first_or xs None)" if "linked h s xs" for s xs
    using that by (auto simp: SLIST_FIRST_def linked_def dest: chain_first)
  show "SLIST_NEXT x s = Some (first_or ys None)" if "linked h s (xs @ x # ys)" for s xs x ys
    using that by (auto simp: SLIST_NEXT_def linked_def dest: chain_first)
qed

lemma SLIST_INIT_linked: "s (Head h) \<noteq> None \<Longrightarrow> SLIST_INIT h s = Some (s(Head h \<mapsto> None)) \<and> linked h (s(Head h \<mapsto> None)) []"
  by (auto simp: SLIST_INIT_def put_def linked_def)

lemma SLIST_INSERT_HEAD_linked:
  "linked h s xs \<Longrightarrow> s (Elm x) \<noteq> None \<Longrightarrow>
   SLIST_INSERT_HEAD h x s = Some (s(Elm x \<mapsto> first_or xs None, Head h \<mapsto> Some x))"
  by (auto simp: SLIST_INSERT_HEAD_def SLIST_FIRST_def put_def linked_first)

lemma SLIST_INSERT_AFTER_linked:
  "linked h s (xs @ y # ys) \<Longrightarrow> s (Elm x) \<noteq> None \<Longrightarrow> x \<noteq> y \<Longrightarrow>
   SLIST_INSERT_AFTER y x s = Some (s(Elm x \<mapsto> first_or ys None, Elm y \<mapsto> Some x))"
  by (auto simp: SLIST_INSERT_AFTER_def SLIST_NEXT_def put_def linked_next)

lemma SLIST_REMOVE_HEAD_linked:
  "linked h s (x # xs) \<Longrightarrow> SLIST_REMOVE_HEAD h s = Some (s(Head h \<mapsto> first_or xs None))"
  by (auto simp: SLIST_REMOVE_HEAD_def SLIST_FIRST_def SLIST_NEXT_def linked_def dest: chain_first)

lemma SLIST_REMOVE_AFTER_linked:
  "linked h s (xs @ y # x # ys) \<Longrightarrow> SLIST_REMOVE_AFTER y s = Some (s(Elm y \<mapsto> first_or ys None))"
  by (auto simp: SLIST_REMOVE_AFTER_def SLIST_NEXT_def linked_def dest: chain_first)

lemma SLIST_REMOVE_linked:
  assumes q: "linked h s (xs @ x # ys)"
  shows "SLIST_REMOVE h x s = Some (s(last_node (Head h) xs \<mapsto> first_or ys None))"
proof (cases xs)
  case Nil
  then show ?thesis using q SLIST_REMOVE_HEAD_linked [of h s x ys]
    by (auto simp: SLIST_REMOVE_def SLIST_FIRST_def linked_def)
next
  case (Cons c zs)
  then have c: "chain s (Elm c) (zs @ x # ys) None" "x \<notin> set zs" "c \<noteq> x" "SLIST_FIRST h s = Some (Some c)"
    using q by (auto simp: linked_def SLIST_FIRST_def)
  obtain ws w where w: "c # zs = ws @ [w]" by (metis list.distinct(1) rev_exhaust)
  then have "last (c # zs) = w" "SLIST_REMOVE_AFTER w s = Some (s(Elm w \<mapsto> first_or ys None))"
    using q Cons SLIST_REMOVE_AFTER_linked [of h s ws w x ys] by (simp_all del: last.simps)
  moreover have "last_node (Head h) xs = Elm w" using w Cons by (simp add: last_node_def)
  ultimately show ?thesis using c find_before_chain [OF c(1,2)] by (simp add: SLIST_REMOVE_def)
qed

lemma SLIST_SWAP_linked:
  "linked h1 s xs \<Longrightarrow> linked h2 s ys \<Longrightarrow> h1 \<noteq> h2 \<Longrightarrow>
   SLIST_SWAP h1 h2 s = Some (s(Head h1 \<mapsto> first_or ys None, Head h2 \<mapsto> first_or xs None))"
  by (simp add: SLIST_SWAP_def SLIST_FIRST_def put_def linked_first)

text \<open>The cell loop pairs every element with the cell that points to it.\<close>

lemma prevptr_loop_visits:
  assumes "chain (st \<sigma>) p xs None"
    and keeps: "\<And>x a \<tau> \<tau>'. body x a \<tau> = Some \<tau>' \<Longrightarrow> st \<tau>' = st \<tau>"
  shows "prevptr_loop st body p \<sigma> = fold_opt (\<lambda>(a, x). body x a) (zip (p # map Elm xs) xs) \<sigma>"
  using assms(1)
proof (induction xs arbitrary: p \<sigma>)
  case Nil
  then show ?case by (subst prevptr_loop.simps) simp
next
  case (Cons x xs)
  show ?case
  proof (cases "body x p \<sigma>")
    case None
    then show ?thesis using Cons.prems by (subst prevptr_loop.simps) simp
  next
    case (Some \<tau>)
    then have "chain (st \<tau>) (Elm x) xs None" using Cons.prems keeps [OF Some] by simp
    from Cons.IH [OF this] show ?thesis using Cons.prems Some by (subst prevptr_loop.simps) simp
  qed
qed

lemma SLIST_loops:
  assumes q: "linked h l (ys @ x # zs)"
  shows "SLIST_FOREACH fst h collect (l, []) = Some (l, ys @ x # zs)"
    and "SLIST_FOREACH_SAFE fst h collect (l, []) = Some (l, ys @ x # zs)"
    and "SLIST_FOREACH_FROM fst h None collect (l, []) = Some (l, ys @ x # zs)"
    and "SLIST_FOREACH_FROM fst h (Some x) collect (l, []) = Some (l, x # zs)"
    and "SLIST_FOREACH_FROM_SAFE fst h (Some x) collect (l, []) = Some (l, x # zs)"
  using sl.foreach_collects [OF q] sl.from_collects [OF q]
  by (simp_all add: SLIST_FOREACH_def SLIST_FOREACH_SAFE_def SLIST_FOREACH_FROM_def SLIST_FOREACH_FROM_SAFE_def)

section \<open>Properties\<close>

text \<open>
  The \<^verbatim>\<open>SLIST\<close> macros do to the list of elements what they say, at any place of the list, each
  by writing only the pointers named here: insertion at the head and after an element, removal
  of the first element, of the successor of an element and of any element, and the exchange of
  two lists.
\<close>

theorem slist_edits:
  assumes q: "linked h s (xs @ y # ys)" and x: "x \<notin> set (xs @ y # ys)" "s (Elm x) \<noteq> None"
  shows "(\<exists>s'. SLIST_INSERT_HEAD h x s = Some s' \<and> linked h s' (x # xs @ y # ys) \<and>
            (\<forall>a. a \<notin> {Elm x, Head h} \<longrightarrow> s' a = s a)) \<and>
         (\<exists>s'. SLIST_INSERT_AFTER y x s = Some s' \<and> linked h s' (xs @ y # x # ys) \<and>
            (\<forall>a. a \<notin> {Elm x, Elm y} \<longrightarrow> s' a = s a)) \<and>
         (\<exists>s'. SLIST_REMOVE_HEAD h s = Some s' \<and> linked h s' (tl (xs @ y # ys)) \<and>
            (\<forall>a. a \<noteq> Head h \<longrightarrow> s' a = s a)) \<and>
         (\<forall>z zs. ys = z # zs \<longrightarrow> (\<exists>s'. SLIST_REMOVE_AFTER y s = Some s' \<and> linked h s' (xs @ y # zs))) \<and>
         (\<exists>s'. SLIST_REMOVE h y s = Some s' \<and> linked h s' (xs @ ys) \<and>
            (\<forall>a. a \<noteq> last_node (Head h) xs \<longrightarrow> s' a = s a)) \<and>
         (\<forall>k zs. k \<noteq> h \<and> linked k s zs \<longrightarrow>
            (\<exists>s'. SLIST_SWAP h k s = Some s' \<and> linked h s' zs \<and> linked k s' (xs @ y # ys)))"
proof (intro conjI allI impI)
  show "\<exists>s'. SLIST_INSERT_HEAD h x s = Some s' \<and> linked h s' (x # xs @ y # ys) \<and>
      (\<forall>a. a \<notin> {Elm x, Head h} \<longrightarrow> s' a = s a)"
    using SLIST_INSERT_HEAD_linked [OF q x(2)] linked_link [of h s "[]" "xs @ y # ys" x] q x(1) by auto
  show "\<exists>s'. SLIST_INSERT_AFTER y x s = Some s' \<and> linked h s' (xs @ y # x # ys) \<and>
      (\<forall>a. a \<notin> {Elm x, Elm y} \<longrightarrow> s' a = s a)"
    using SLIST_INSERT_AFTER_linked [OF q x(2)] linked_link [of h s "xs @ [y]" ys x] q x(1) by auto
  obtain w ws where w: "xs @ y # ys = w # ws" by (cases xs) auto
  then show "\<exists>s'. SLIST_REMOVE_HEAD h s = Some s' \<and> linked h s' (tl (xs @ y # ys)) \<and>
      (\<forall>a. a \<noteq> Head h \<longrightarrow> s' a = s a)"
    using SLIST_REMOVE_HEAD_linked [of h s w ws] linked_unlink [of h s "[]" w ws] q by auto
  show "\<exists>s'. SLIST_REMOVE h y s = Some s' \<and> linked h s' (xs @ ys) \<and>
      (\<forall>a. a \<noteq> last_node (Head h) xs \<longrightarrow> s' a = s a)"
    using SLIST_REMOVE_linked [OF q] linked_unlink [OF q] by auto
  fix z zs
  show "\<exists>s'. SLIST_REMOVE_AFTER y s = Some s' \<and> linked h s' (xs @ y # zs)" if "ys = z # zs"
    using SLIST_REMOVE_AFTER_linked [of h s xs y z zs] linked_unlink [of h s "xs @ [y]" z zs] q that by auto
  fix k
  show "\<exists>s'. SLIST_SWAP h k s = Some s' \<and> linked h s' zs \<and> linked k s' (xs @ y # ys)"
    if "k \<noteq> h \<and> linked k s zs"
    using SLIST_SWAP_linked [OF q] linked_swap [OF q] that by auto
qed

definition sample_slist :: links where
  "sample_slist = [Head 0 \<mapsto> Some 5, Elm 5 \<mapsto> Some 3, Elm 3 \<mapsto> None, Elm 9 \<mapsto> None]"

theorem slist_edits_witness:
  "(\<exists>s'. SLIST_INSERT_AFTER 3 9 sample_slist = Some s' \<and> linked 0 s' [5, 3, 9]) \<and>
   (\<exists>s'. SLIST_REMOVE 0 3 sample_slist = Some s' \<and> linked 0 s' [5])"
proof -
  have "linked 0 sample_slist ([5] @ 3 # [])" by (simp add: linked_def sample_slist_def)
  from slist_edits [OF this, of 9] show ?thesis by (auto simp: sample_slist_def)
qed

end
