(* ===== verification/Single_Tail_Queue.thy ===== *)
theory Single_Tail_Queue
  imports Singly_Linked Tail_Queue
begin

text \<open>
  The singly-linked tail queues (\<^verbatim>\<open>STAILQ\<close>) of \<^verbatim>\<open>server/queue.h\<close>, macro by macro.  The pointers
  \<^verbatim>\<open>stqh_first\<close> and \<^verbatim>\<open>stqe_next\<close> are cells of a store \<open>links\<close>; \<open>stq_last\<close> is the field \<^verbatim>\<open>stqh_last\<close> of each
  head, the address of a cell.  The last part compares them with the doubly-linked tail queues:
  a client that appends, removes and walks cannot tell the two apart.
\<close>

section \<open>The macros\<close>

record stq_store =
  stq_links :: links
  stq_last :: "nat \<rightharpoonup> node"

definition st_put :: "node \<Rightarrow> nat option \<Rightarrow> stq_store \<Rightarrow> stq_store option" where
  "st_put a v s = map_option (\<lambda>l. s\<lparr>stq_links := l\<rparr>) (put a v (stq_links s))"

definition set_last :: "nat \<Rightarrow> node \<Rightarrow> stq_store \<Rightarrow> stq_store option" where
  "set_last h a s = (if stq_last s h = None then None else Some (s\<lparr>stq_last := (stq_last s)(h \<mapsto> a)\<rparr>))"

definition STAILQ_FIRST :: "nat \<Rightarrow> stq_store \<Rightarrow> nat option option" where
  "STAILQ_FIRST h s = stq_links s (Head h)"

definition STAILQ_NEXT :: "nat \<Rightarrow> stq_store \<Rightarrow> nat option option" where
  "STAILQ_NEXT x s = stq_links s (Elm x)"

definition STAILQ_EMPTY :: "nat \<Rightarrow> stq_store \<Rightarrow> bool option" where
  "STAILQ_EMPTY h s = do { p \<leftarrow> STAILQ_FIRST h s; Some (p = None) }"

definition STAILQ_INIT :: "nat \<Rightarrow> stq_store \<Rightarrow> stq_store option" where
  "STAILQ_INIT h s = do { s \<leftarrow> st_put (Head h) None s; set_last h (Head h) s }"

text \<open>The static initialiser of a head: the values of its two fields.\<close>

definition STAILQ_HEAD_INITIALIZER :: "nat \<Rightarrow> nat option \<times> node" where
  "STAILQ_HEAD_INITIALIZER h = (None, Head h)"

definition STAILQ_CONCAT :: "nat \<Rightarrow> nat \<Rightarrow> stq_store \<Rightarrow> stq_store option" where
  "STAILQ_CONCAT h1 h2 s =
     do {
       e2 \<leftarrow> STAILQ_EMPTY h2 s;
       if e2 then Some s
       else do {
         l1 \<leftarrow> stq_last s h1;
         f2 \<leftarrow> STAILQ_FIRST h2 s;
         s \<leftarrow> st_put l1 f2 s;
         l2 \<leftarrow> stq_last s h2;
         s \<leftarrow> set_last h1 l2 s;
         STAILQ_INIT h2 s
       }
     }"

definition STAILQ_INSERT_AFTER :: "nat \<Rightarrow> nat \<Rightarrow> nat \<Rightarrow> stq_store \<Rightarrow> stq_store option" where
  "STAILQ_INSERT_AFTER h tqelm elm s =
     do {
       n \<leftarrow> STAILQ_NEXT tqelm s;
       s \<leftarrow> st_put (Elm elm) n s;
       s \<leftarrow> (if n = None then set_last h (Elm elm) s else Some s);
       st_put (Elm tqelm) (Some elm) s
     }"

definition STAILQ_INSERT_HEAD :: "nat \<Rightarrow> nat \<Rightarrow> stq_store \<Rightarrow> stq_store option" where
  "STAILQ_INSERT_HEAD h elm s =
     do {
       f \<leftarrow> STAILQ_FIRST h s;
       s \<leftarrow> st_put (Elm elm) f s;
       s \<leftarrow> (if f = None then set_last h (Elm elm) s else Some s);
       st_put (Head h) (Some elm) s
     }"

definition STAILQ_INSERT_TAIL :: "nat \<Rightarrow> nat \<Rightarrow> stq_store \<Rightarrow> stq_store option" where
  "STAILQ_INSERT_TAIL h elm s =
     do {
       s \<leftarrow> st_put (Elm elm) None s;
       l \<leftarrow> stq_last s h;
       s \<leftarrow> st_put l (Some elm) s;
       set_last h (Elm elm) s
     }"

text \<open>\<^verbatim>\<open>__containerof\<close> of the address of a head is no element: \<open>None\<close>.\<close>

definition STAILQ_LAST :: "nat \<Rightarrow> stq_store \<Rightarrow> nat option option" where
  "STAILQ_LAST h s =
     do {
       e \<leftarrow> STAILQ_EMPTY h s;
       if e then Some None
       else do { l \<leftarrow> stq_last s h; case l of Elm x \<Rightarrow> Some (Some x) | Head k \<Rightarrow> None }
     }"

definition STAILQ_REMOVE_AFTER :: "nat \<Rightarrow> nat \<Rightarrow> stq_store \<Rightarrow> stq_store option" where
  "STAILQ_REMOVE_AFTER h elm s =
     do {
       next1 \<leftarrow> STAILQ_NEXT elm s;
       y \<leftarrow> next1;
       n \<leftarrow> STAILQ_NEXT y s;
       s \<leftarrow> st_put (Elm elm) n s;
       if n = None then set_last h (Elm elm) s else Some s
     }"

definition STAILQ_REMOVE_HEAD :: "nat \<Rightarrow> stq_store \<Rightarrow> stq_store option" where
  "STAILQ_REMOVE_HEAD h s =
     do {
       f \<leftarrow> STAILQ_FIRST h s;
       x \<leftarrow> f;
       n \<leftarrow> STAILQ_NEXT x s;
       s \<leftarrow> st_put (Head h) n s;
       if n = None then set_last h (Head h) s else Some s
     }"

definition STAILQ_REMOVE :: "nat \<Rightarrow> nat \<Rightarrow> stq_store \<Rightarrow> stq_store option" where
  "STAILQ_REMOVE h elm s =
     do {
       f \<leftarrow> STAILQ_FIRST h s;
       if f = Some elm then STAILQ_REMOVE_HEAD h s
       else do { c \<leftarrow> find_before (stq_links s) elm f; STAILQ_REMOVE_AFTER h c s }
     }"

definition STAILQ_SWAP :: "nat \<Rightarrow> nat \<Rightarrow> stq_store \<Rightarrow> stq_store option" where
  "STAILQ_SWAP h1 h2 s =
     do {
       swap_first \<leftarrow> STAILQ_FIRST h1 s;
       swap_last \<leftarrow> stq_last s h1;
       f2 \<leftarrow> STAILQ_FIRST h2 s;
       s \<leftarrow> st_put (Head h1) f2 s;
       l2 \<leftarrow> stq_last s h2;
       s \<leftarrow> set_last h1 l2 s;
       s \<leftarrow> st_put (Head h2) swap_first s;
       s \<leftarrow> set_last h2 swap_last s;
       e1 \<leftarrow> STAILQ_EMPTY h1 s;
       s \<leftarrow> (if e1 then set_last h1 (Head h1) s else Some s);
       e2 \<leftarrow> STAILQ_EMPTY h2 s;
       if e2 then set_last h2 (Head h2) s else Some s
     }"

definition STAILQ_FOREACH :: "('a \<Rightarrow> stq_store) \<Rightarrow> nat \<Rightarrow> (nat \<Rightarrow> 'a \<Rightarrow> 'a option) \<Rightarrow> 'a \<Rightarrow> 'a option" where
  "STAILQ_FOREACH st h body \<sigma> = do { v \<leftarrow> STAILQ_FIRST h (st \<sigma>); tq_loop st STAILQ_NEXT body v \<sigma> }"

definition STAILQ_FOREACH_FROM ::
  "('a \<Rightarrow> stq_store) \<Rightarrow> nat \<Rightarrow> nat option \<Rightarrow> (nat \<Rightarrow> 'a \<Rightarrow> 'a option) \<Rightarrow> 'a \<Rightarrow> 'a option" where
  "STAILQ_FOREACH_FROM st h var body \<sigma> =
     do { v \<leftarrow> from_or var (STAILQ_FIRST h (st \<sigma>)); tq_loop st STAILQ_NEXT body v \<sigma> }"

definition STAILQ_FOREACH_SAFE ::
  "('a \<Rightarrow> stq_store) \<Rightarrow> nat \<Rightarrow> (nat \<Rightarrow> 'a \<Rightarrow> 'a option) \<Rightarrow> 'a \<Rightarrow> 'a option" where
  "STAILQ_FOREACH_SAFE st h body \<sigma> = do { v \<leftarrow> STAILQ_FIRST h (st \<sigma>); tq_loop_safe st STAILQ_NEXT body v \<sigma> }"

definition STAILQ_FOREACH_FROM_SAFE ::
  "('a \<Rightarrow> stq_store) \<Rightarrow> nat \<Rightarrow> nat option \<Rightarrow> (nat \<Rightarrow> 'a \<Rightarrow> 'a option) \<Rightarrow> 'a \<Rightarrow> 'a option" where
  "STAILQ_FOREACH_FROM_SAFE st h var body \<sigma> =
     do { v \<leftarrow> from_or var (STAILQ_FIRST h (st \<sigma>)); tq_loop_safe st STAILQ_NEXT body v \<sigma> }"

section \<open>The list a queue holds\<close>

definition is_stailq :: "nat \<Rightarrow> stq_store \<Rightarrow> nat list \<Rightarrow> bool" where
  "is_stailq h s xs \<longleftrightarrow> linked h (stq_links s) xs \<and> stq_last s h = Some (last_node (Head h) xs)"

lemmas stq_access = st_put_def set_last_def put_def STAILQ_FIRST_def STAILQ_NEXT_def STAILQ_EMPTY_def

lemma stailqE:
  assumes "is_stailq h s xs"
  obtains "linked h (stq_links s) xs" "stq_links s (Head h) = Some (first_or xs None)"
    "stq_last s h = Some (last_node (Head h) xs)" "distinct xs"
    "stq_links s (last_node (Head h) xs) = Some None"
  using assms by (auto simp: is_stailq_def linked_def chain_first chain_last)

lemma STAILQ_INIT_queue:
  assumes "stq_links s (Head h) \<noteq> None" and "stq_last s h \<noteq> None"
  shows "\<exists>s'. STAILQ_INIT h s = Some s' \<and> is_stailq h s' [] \<and>
           (\<forall>a. a \<noteq> Head h \<longrightarrow> stq_links s' a = stq_links s a) \<and> (\<forall>k. k \<noteq> h \<longrightarrow> stq_last s' k = stq_last s k)"
  using assms by (auto simp: STAILQ_INIT_def stq_access is_stailq_def linked_def)

lemma STAILQ_INITIALIZER_queue:
  assumes "STAILQ_HEAD_INITIALIZER h = (f, l)"
  shows "is_stailq h (s\<lparr>stq_links := (stq_links s)(Head h \<mapsto> f), stq_last := (stq_last s)(h \<mapsto> l)\<rparr>) []"
  using assms by (simp add: STAILQ_HEAD_INITIALIZER_def is_stailq_def linked_def)

lemma stailq_update:
  "linked h l xs \<Longrightarrow> lasts h = Some (last_node (Head h) xs) \<Longrightarrow>
   is_stailq h (s\<lparr>stq_links := l, stq_last := lasts\<rparr>) xs"
  by (simp add: is_stailq_def)

lemma last_node_fresh: "x \<notin> set xs \<Longrightarrow> last_node (Head h) xs \<noteq> Elm x"
  by (cases xs rule: rev_cases) auto

lemma STAILQ_INSERT_TAIL_queue:
  assumes q: "is_stailq h s xs" and x: "x \<notin> set xs" "stq_links s (Elm x) \<noteq> None"
  defines "s' \<equiv> s\<lparr>stq_links := (stq_links s)(Elm x \<mapsto> None, last_node (Head h) xs \<mapsto> Some x),
                  stq_last := (stq_last s)(h \<mapsto> Elm x)\<rparr>"
  shows "STAILQ_INSERT_TAIL h x s = Some s'" and "is_stailq h s' (xs @ [x])"
proof -
  from q show "STAILQ_INSERT_TAIL h x s = Some s'"
    using x last_node_fresh [OF x(1), of h] by (elim stailqE) (auto simp: STAILQ_INSERT_TAIL_def stq_access s'_def)
  show "is_stailq h s' (xs @ [x])"
    using linked_link [of h "stq_links s" xs "[]" x] q x(1) unfolding s'_def
    by (intro stailq_update) (auto simp: is_stailq_def)
qed

lemma STAILQ_INSERT_HEAD_queue:
  assumes q: "is_stailq h s xs" and x: "x \<notin> set xs" "stq_links s (Elm x) \<noteq> None"
  defines "s' \<equiv> s\<lparr>stq_links := (stq_links s)(Elm x \<mapsto> first_or xs None, Head h \<mapsto> Some x),
                  stq_last := (stq_last s)(h \<mapsto> last_node (Elm x) xs)\<rparr>"
  shows "STAILQ_INSERT_HEAD h x s = Some s'" and "is_stailq h s' (x # xs)"
proof -
  have "(stq_last s)(h \<mapsto> last_node (Elm x) xs) = stq_last s" if "xs \<noteq> []"
    using q that by (intro fun_upd_idem) (simp add: is_stailq_def last_node_def)
  then show "STAILQ_INSERT_HEAD h x s = Some s'"
    using q x by (elim stailqE) (cases xs; auto simp: STAILQ_INSERT_HEAD_def stq_access s'_def)
  show "is_stailq h s' (x # xs)"
    using linked_link [of h "stq_links s" "[]" xs x] q x(1) unfolding s'_def
    by (intro stailq_update) (auto simp: is_stailq_def)
qed

lemma STAILQ_INSERT_AFTER_queue:
  assumes q: "is_stailq h s (xs @ y # ys)" and x: "x \<notin> set (xs @ y # ys)" "stq_links s (Elm x) \<noteq> None"
  defines "s' \<equiv> s\<lparr>stq_links := (stq_links s)(Elm x \<mapsto> first_or ys None, Elm y \<mapsto> Some x),
                  stq_last := (stq_last s)(h \<mapsto> last_node (Elm x) ys)\<rparr>"
  shows "STAILQ_INSERT_AFTER h y x s = Some s'" and "is_stailq h s' (xs @ y # x # ys)"
proof -
  have l: "linked h (stq_links s) (xs @ y # ys)" "stq_last s h = Some (last_node (Elm y) ys)"
    using q by (simp_all add: is_stailq_def)
  have "(stq_last s)(h \<mapsto> last_node (Elm x) ys) = stq_last s" if "ys \<noteq> []"
    using l(2) that by (intro fun_upd_idem) (simp add: last_node_def)
  then show "STAILQ_INSERT_AFTER h y x s = Some s'"
    using l(2) x linked_next [OF l(1)] by (cases ys) (auto simp: STAILQ_INSERT_AFTER_def stq_access s'_def)
  show "is_stailq h s' (xs @ y # x # ys)"
    using linked_link [of h "stq_links s" "xs @ [y]" ys x] l x(1) unfolding s'_def
    by (intro stailq_update) auto
qed

definition unlinked :: "nat \<Rightarrow> nat list \<Rightarrow> nat list \<Rightarrow> stq_store \<Rightarrow> stq_store" where
  "unlinked h xs ys s =
     s\<lparr>stq_links := (stq_links s)(last_node (Head h) xs \<mapsto> first_or ys None),
       stq_last := (stq_last s)(h \<mapsto> last_node (Head h) (xs @ ys))\<rparr>"

lemma unlinked_queue: "is_stailq h s (xs @ x # ys) \<Longrightarrow> is_stailq h (unlinked h xs ys s) (xs @ ys)"
  unfolding unlinked_def by (intro stailq_update linked_unlink) (auto simp: is_stailq_def)

lemma unlinked_last:
  assumes "is_stailq h s (xs @ x # ys)" and "ys \<noteq> []"
  shows "unlinked h xs ys s = s\<lparr>stq_links := (stq_links s)(last_node (Head h) xs \<mapsto> first_or ys None)\<rparr>"
proof -
  have "(stq_last s)(h \<mapsto> last_node (Head h) (xs @ ys)) = stq_last s"
    using assms by (intro fun_upd_idem) (simp add: is_stailq_def last_node_def)
  then show ?thesis by (simp add: unlinked_def)
qed

lemma STAILQ_REMOVE_HEAD_queue:
  assumes q: "is_stailq h s (x # ys)"
  shows "STAILQ_REMOVE_HEAD h s = Some (unlinked h [] ys s)"
proof -
  have l: "linked h (stq_links s) ([] @ x # ys)" "stq_last s h \<noteq> None" using q by (simp_all add: is_stailq_def)
  show ?thesis
    using l(2) linked_first [OF l(1)] linked_next [OF l(1)] unlinked_last [of h s "[]" x ys] q
    by (cases ys) (auto simp: STAILQ_REMOVE_HEAD_def stq_access unlinked_def)
qed

lemma STAILQ_REMOVE_AFTER_queue:
  assumes q: "is_stailq h s (xs @ y # x # ys)"
  shows "STAILQ_REMOVE_AFTER h y s = Some (unlinked h (xs @ [y]) ys s)"
proof -
  have l: "linked h (stq_links s) (xs @ y # x # ys)" "stq_last s h \<noteq> None" using q by (simp_all add: is_stailq_def)
  show ?thesis
    using l(2) linked_next [OF l(1)] linked_next [of h "stq_links s" "xs @ [y]" x ys] l(1)
      unlinked_last [of h s "xs @ [y]" x ys] q
    by (cases ys) (auto simp: STAILQ_REMOVE_AFTER_def stq_access unlinked_def)
qed

lemma STAILQ_REMOVE_queue:
  assumes q: "is_stailq h s (xs @ x # ys)"
  shows "STAILQ_REMOVE h x s = Some (unlinked h xs ys s)"
proof (cases xs)
  case Nil
  then show ?thesis using q STAILQ_REMOVE_HEAD_queue [of h s x ys]
    by (auto simp: STAILQ_REMOVE_def STAILQ_FIRST_def is_stailq_def linked_def)
next
  case (Cons c zs)
  then have c: "chain (stq_links s) (Elm c) (zs @ x # ys) None" "x \<notin> set zs" "c \<noteq> x"
    "STAILQ_FIRST h s = Some (Some c)"
    using q by (auto simp: is_stailq_def linked_def STAILQ_FIRST_def)
  obtain ws w where w: "c # zs = ws @ [w]" by (metis list.distinct(1) rev_exhaust)
  then have "last (c # zs) = w" "STAILQ_REMOVE_AFTER h w s = Some (unlinked h xs ys s)"
    using q Cons STAILQ_REMOVE_AFTER_queue [of h s ws w x ys] by (simp_all del: last.simps)
  then show ?thesis using c find_before_chain [OF c(1,2)] by (simp add: STAILQ_REMOVE_def)
qed

lemma STAILQ_LAST_queue:
  "is_stailq h s xs \<Longrightarrow> STAILQ_LAST h s = Some (if xs = [] then None else Some (last xs))"
  by (elim stailqE) (auto simp: STAILQ_LAST_def stq_access last_node_def)

lemma STAILQ_CONCAT_queue:
  assumes q: "is_stailq h s xs" "is_stailq k s ys" and d: "h \<noteq> k" "set xs \<inter> set ys = {}"
  shows "\<exists>s'. STAILQ_CONCAT h k s = Some s' \<and> is_stailq h s' (xs @ ys) \<and> is_stailq k s' []"
proof (cases ys)
  case Nil
  then have "STAILQ_CONCAT h k s = Some s"
    using q(2) by (elim stailqE) (simp add: STAILQ_CONCAT_def stq_access)
  then show ?thesis using q Nil by auto
next
  case (Cons y zs)
  let ?s = "s\<lparr>stq_links := (stq_links s)(last_node (Head h) xs \<mapsto> first_or ys None, Head k \<mapsto> None),
      stq_last := (stq_last s)(h \<mapsto> last_node (Head h) (xs @ ys), k \<mapsto> Head k)\<rparr>"
  have "last_node (Head h) xs \<noteq> Head k" using d(1) by (auto simp: last_node_def)
  moreover have "last_node (Head h) (xs @ ys) = last_node (Head k) ys" using Cons by simp
  ultimately have "STAILQ_CONCAT h k s = Some ?s"
    using q d(1) Cons by (elim stailqE) (auto simp: STAILQ_CONCAT_def STAILQ_INIT_def stq_access)
  moreover have "is_stailq h ?s (xs @ ys)"
    using q d by (intro stailq_update linked_concat) (auto simp: is_stailq_def)
  moreover have "is_stailq k ?s []" by (simp add: is_stailq_def linked_def)
  ultimately show ?thesis by blast
qed

lemma STAILQ_SWAP_queue:
  assumes q: "is_stailq h s xs" "is_stailq k s ys" and d: "h \<noteq> k"
  shows "\<exists>s'. STAILQ_SWAP h k s = Some s' \<and> is_stailq h s' ys \<and> is_stailq k s' xs"
proof -
  let ?s = "s\<lparr>stq_links := (stq_links s)(Head h \<mapsto> first_or ys None, Head k \<mapsto> first_or xs None),
      stq_last := (stq_last s)(h \<mapsto> last_node (Head h) ys, k \<mapsto> last_node (Head k) xs)\<rparr>"
  have "STAILQ_SWAP h k s = Some ?s"
    using q d by (elim stailqE) (cases xs; cases ys; auto simp: STAILQ_SWAP_def stq_access fun_upd_twist)
  moreover have "is_stailq h ?s ys" "is_stailq k ?s xs"
    using linked_swap [of h "stq_links s" xs k ys] q d
    by (intro stailq_update; auto simp: is_stailq_def)+
  ultimately show ?thesis by blast
qed

section \<open>The interface clients rely on\<close>

definition stq_live :: "stq_store \<Rightarrow> nat \<Rightarrow> bool" where
  "stq_live s x \<longleftrightarrow> stq_links s (Elm x) \<noteq> None"

interpretation stq: edited_queue "is_stailq h" "STAILQ_FIRST h" STAILQ_NEXT stq_live
  "STAILQ_INSERT_TAIL h" "STAILQ_REMOVE h" for h
proof
  show "STAILQ_FIRST h s = Some (first_or xs None)" if "is_stailq h s xs" for s xs
    using that by (simp add: STAILQ_FIRST_def is_stailq_def linked_first)
  show "STAILQ_NEXT x s = Some (first_or ys None)" if "is_stailq h s (xs @ x # ys)" for s xs x ys
    using that linked_next [of h "stq_links s" xs x ys] by (simp add: STAILQ_NEXT_def is_stailq_def)
  show "\<exists>s'. STAILQ_INSERT_TAIL h x s = Some s' \<and> is_stailq h s' (xs @ [x]) \<and> stq_live s' = stq_live s"
    if q: "is_stailq h s xs" "x \<notin> set xs" "stq_live s x" for s xs x
  proof -
    have "stq_links s (Elm x) \<noteq> None" using q(3) by (simp add: stq_live_def)
    note ins = STAILQ_INSERT_TAIL_queue [OF q(1,2) this]
    have "stq_links s (last_node (Head h) xs) \<noteq> None" using q(1) by (simp add: is_stailq_def linked_last)
    then show ?thesis using ins q(3) by (auto simp: stq_live_def fun_eq_iff)
  qed
  show "\<exists>s'. STAILQ_REMOVE h x s = Some s' \<and> is_stailq h s' (xs @ ys) \<and> stq_live s' = stq_live s"
    if q: "is_stailq h s (xs @ x # ys)" for s xs x ys
  proof -
    have "stq_links s (last_node (Head h) xs) \<noteq> None" using q linked_before [of h "stq_links s" xs x ys] by (simp add: is_stailq_def)
    then have "stq_live (unlinked h xs ys s) = stq_live s" by (auto simp: stq_live_def unlinked_def fun_eq_iff)
    then show ?thesis using STAILQ_REMOVE_queue [OF q] unlinked_queue [OF q] by blast
  qed
qed

lemma STAILQ_loops:
  assumes q: "is_stailq h s (ys @ x # zs)"
  shows "STAILQ_FOREACH fst h collect (s, []) = Some (s, ys @ x # zs)"
    and "STAILQ_FOREACH_SAFE fst h collect (s, []) = Some (s, ys @ x # zs)"
    and "STAILQ_FOREACH_FROM fst h None collect (s, []) = Some (s, ys @ x # zs)"
    and "STAILQ_FOREACH_FROM fst h (Some x) collect (s, []) = Some (s, x # zs)"
    and "STAILQ_FOREACH_FROM_SAFE fst h (Some x) collect (s, []) = Some (s, x # zs)"
  using stq.foreach_collects [OF q] stq.from_collects [OF q]
  by (simp_all add: STAILQ_FOREACH_def STAILQ_FOREACH_SAFE_def STAILQ_FOREACH_FROM_def STAILQ_FOREACH_FROM_SAFE_def)

section \<open>Properties\<close>

text \<open>
  The \<^verbatim>\<open>STAILQ\<close> macros do to the list of elements what they say, at any place of the queue, and
  keep \<^verbatim>\<open>stqh_last\<close> at the last cell: insertion at the head, at the tail and after an element,
  removal of the first element, of a successor and of any element, concatenation and exchange
  of two queues; and \<^verbatim>\<open>STAILQ_LAST\<close> is the last element.
\<close>

theorem stailq_edits:
  assumes q: "is_stailq h s (xs @ y # ys)" and x: "x \<notin> set (xs @ y # ys)" "stq_links s (Elm x) \<noteq> None"
  shows "(\<exists>s'. STAILQ_INSERT_HEAD h x s = Some s' \<and> is_stailq h s' (x # xs @ y # ys)) \<and>
         (\<exists>s'. STAILQ_INSERT_TAIL h x s = Some s' \<and> is_stailq h s' (xs @ y # ys @ [x])) \<and>
         (\<exists>s'. STAILQ_INSERT_AFTER h y x s = Some s' \<and> is_stailq h s' (xs @ y # x # ys)) \<and>
         (\<exists>s'. STAILQ_REMOVE_HEAD h s = Some s' \<and> is_stailq h s' (tl (xs @ y # ys))) \<and>
         (\<forall>z zs. ys = z # zs \<longrightarrow> (\<exists>s'. STAILQ_REMOVE_AFTER h y s = Some s' \<and> is_stailq h s' (xs @ y # zs))) \<and>
         (\<exists>s'. STAILQ_REMOVE h y s = Some s' \<and> is_stailq h s' (xs @ ys)) \<and>
         STAILQ_LAST h s = Some (Some (last (y # ys))) \<and>
         (\<forall>k zs. k \<noteq> h \<and> is_stailq k s zs \<longrightarrow>
            (set (xs @ y # ys) \<inter> set zs = {} \<longrightarrow>
               (\<exists>s'. STAILQ_CONCAT h k s = Some s' \<and> is_stailq h s' (xs @ y # ys @ zs) \<and> is_stailq k s' [])) \<and>
            (\<exists>s'. STAILQ_SWAP h k s = Some s' \<and> is_stailq h s' zs \<and> is_stailq k s' (xs @ y # ys)))"
proof (intro conjI allI impI)
  show "\<exists>s'. STAILQ_INSERT_HEAD h x s = Some s' \<and> is_stailq h s' (x # xs @ y # ys)"
    using STAILQ_INSERT_HEAD_queue [OF q x] by blast
  show "\<exists>s'. STAILQ_INSERT_TAIL h x s = Some s' \<and> is_stailq h s' (xs @ y # ys @ [x])"
    using STAILQ_INSERT_TAIL_queue [OF q x] by auto
  show "\<exists>s'. STAILQ_INSERT_AFTER h y x s = Some s' \<and> is_stailq h s' (xs @ y # x # ys)"
    using STAILQ_INSERT_AFTER_queue [OF q x] by blast
  obtain w ws where w: "xs @ y # ys = w # ws" by (cases xs) auto
  then show "\<exists>s'. STAILQ_REMOVE_HEAD h s = Some s' \<and> is_stailq h s' (tl (xs @ y # ys))"
    using STAILQ_REMOVE_HEAD_queue [of h s w ws] unlinked_queue [of h s "[]" w ws] q by auto
  show "\<exists>s'. STAILQ_REMOVE h y s = Some s' \<and> is_stailq h s' (xs @ ys)"
    using STAILQ_REMOVE_queue [OF q] unlinked_queue [OF q] by blast
  show "STAILQ_LAST h s = Some (Some (last (y # ys)))" using STAILQ_LAST_queue [OF q] by simp
  fix z zs
  show "\<exists>s'. STAILQ_REMOVE_AFTER h y s = Some s' \<and> is_stailq h s' (xs @ y # zs)" if "ys = z # zs"
    using STAILQ_REMOVE_AFTER_queue [of h s xs y z zs] unlinked_queue [of h s "xs @ [y]" z zs] q that by auto
  fix k
  assume k: "k \<noteq> h \<and> is_stailq k s zs"
  then show "\<exists>s'. STAILQ_SWAP h k s = Some s' \<and> is_stailq h s' zs \<and> is_stailq k s' (xs @ y # ys)"
    using STAILQ_SWAP_queue [OF q] by auto
  show "\<exists>s'. STAILQ_CONCAT h k s = Some s' \<and> is_stailq h s' (xs @ y # ys @ zs) \<and> is_stailq k s' []"
    if "set (xs @ y # ys) \<inter> set zs = {}"
    using STAILQ_CONCAT_queue [OF q _ _ that] k by auto
qed

definition sample_stailq :: stq_store where
  "sample_stailq = \<lparr>stq_links = [Head 0 \<mapsto> Some 5, Elm 5 \<mapsto> Some 3, Elm 3 \<mapsto> None, Elm 9 \<mapsto> None],
                    stq_last = [0 \<mapsto> Elm 3]\<rparr>"

theorem stailq_edits_witness:
  "(\<exists>s'. STAILQ_INSERT_TAIL 0 9 sample_stailq = Some s' \<and> is_stailq 0 s' [5, 3, 9]) \<and>
   (\<exists>s'. STAILQ_REMOVE 0 3 sample_stailq = Some s' \<and> is_stailq 0 s' [5])"
proof -
  have "is_stailq 0 sample_stailq ([5] @ 3 # [])" by (simp add: is_stailq_def linked_def sample_stailq_def)
  from stailq_edits [OF this, of 9] show ?thesis by (auto simp: sample_stailq_def)
qed

text \<open>
  C37: singly- and doubly-linked tail queues are interchangeable for a client that appends,
  removes and walks.  From initialised queues, any sequence of appends of elements not in the
  queue and removals of elements in it runs to its end on both, and \<^verbatim>\<open>STAILQ_FOREACH\<close> and
  \<^verbatim>\<open>TAILQ_FOREACH\<close> then visit the same elements, those the sequence leaves in a list.
\<close>

theorem stailq_tailq_equivalent:
  assumes "s (Head h) \<noteq> None" and "stq_links t (Head k) \<noteq> None" and "stq_last t k \<noteq> None"
    and "edits_ok es []" and "\<forall>x\<in>edited es. allocated s x \<and> stq_live t x"
  shows "\<exists>s' t'.
    do { s0 \<leftarrow> TAILQ_INIT h s; fold_opt (apply_edit (TAILQ_INSERT_TAIL h) (TAILQ_REMOVE h)) es s0 } = Some s' \<and>
    do { t0 \<leftarrow> STAILQ_INIT k t; fold_opt (apply_edit (STAILQ_INSERT_TAIL k) (STAILQ_REMOVE k)) es t0 } = Some t' \<and>
    TAILQ_FOREACH fst h collect (s', []) = Some (s', fold edit_list es []) \<and>
    STAILQ_FOREACH fst k collect (t', []) = Some (t', fold edit_list es [])"
proof -
  obtain s0 where s0: "TAILQ_INIT h s = Some s0" "is_queue h s0 []" "\<And>a. a \<noteq> Head h \<Longrightarrow> s0 a = s a"
    using INIT_queue [of s h] assms(1) by blast
  obtain t0 where t0: "STAILQ_INIT k t = Some t0" "is_stailq k t0 []"
    "\<And>a. a \<noteq> Head k \<Longrightarrow> stq_links t0 a = stq_links t a"
    using STAILQ_INIT_queue [OF assms(2,3)] by blast
  obtain s' where s': "fold_opt (apply_edit (TAILQ_INSERT_TAIL h) (TAILQ_REMOVE h)) es s0 = Some s'"
    "is_queue h s' (fold edit_list es [])"
    using tq.run_edits [OF s0(2) _ assms(4)] assms(5) s0(3) by (auto simp: allocated_def)
  obtain t' where t': "fold_opt (apply_edit (STAILQ_INSERT_TAIL k) (STAILQ_REMOVE k)) es t0 = Some t'"
    "is_stailq k t' (fold edit_list es [])"
    using stq.run_edits [OF t0(2) _ assms(4)] assms(5) t0(3) by (auto simp: stq_live_def)
  show ?thesis
    using s0(1) t0(1) s'(1) t'(1) tq.foreach_collects(1) [OF s'(2)] stq.foreach_collects(1) [OF t'(2)]
    by (simp add: TAILQ_FOREACH_def STAILQ_FOREACH_def)
qed

theorem stailq_tailq_equivalent_witness:
  "\<exists>s' t'. TAILQ_FOREACH fst 0 collect (s', []) = Some (s', [5, 9]) \<and>
           STAILQ_FOREACH fst 0 collect (t', []) = Some (t', [5, 9])"
proof -
  have "\<forall>x\<in>edited [Append 5, Append 3, Append 9, Drop 3]. allocated blank_cells x \<and> stq_live sample_stailq x"
    by (auto simp: edited_def allocated_def blank_cells_def stq_live_def sample_stailq_def)
  from stailq_tailq_equivalent [OF _ _ _ _ this, of 0 0] show ?thesis
    by (auto simp: blank_cells_def sample_stailq_def)
qed

end
