(* ===== verification/Doubly_Linked.thy ===== *)
theory Doubly_Linked
  imports Singly_Linked
begin

text \<open>
  The doubly-linked lists (\<^verbatim>\<open>LIST\<close>) of \<^verbatim>\<open>server/queue.h\<close>, macro by macro.  The pointers \<^verbatim>\<open>lh_first\<close> and
  \<^verbatim>\<open>le_next\<close> are cells of a store \<open>links\<close>; \<open>le_prev\<close> is the field of that name of each element, the
  address of the cell that points to it.  The consistency checks \<^verbatim>\<open>QMD_LIST_CHECK_*\<close>, which panic in
  a kernel built with \<^verbatim>\<open>INVARIANTS\<close> and are empty otherwise, are functions of their own: false
  stands for the panic.
\<close>

section \<open>The macros\<close>

record list_store =
  le_links :: links
  le_prev :: "nat \<rightharpoonup> node"

definition le_put :: "node \<Rightarrow> nat option \<Rightarrow> list_store \<Rightarrow> list_store option" where
  "le_put a v s = map_option (\<lambda>l. s\<lparr>le_links := l\<rparr>) (put a v (le_links s))"

definition set_prev :: "nat \<Rightarrow> node \<Rightarrow> list_store \<Rightarrow> list_store option" where
  "set_prev x a s = (if le_prev s x = None then None else Some (s\<lparr>le_prev := (le_prev s)(x \<mapsto> a)\<rparr>))"

definition LIST_FIRST :: "nat \<Rightarrow> list_store \<Rightarrow> nat option option" where
  "LIST_FIRST h s = le_links s (Head h)"

definition LIST_NEXT :: "nat \<Rightarrow> list_store \<Rightarrow> nat option option" where
  "LIST_NEXT x s = le_links s (Elm x)"

definition LIST_EMPTY :: "nat \<Rightarrow> list_store \<Rightarrow> bool option" where
  "LIST_EMPTY h s = do { p \<leftarrow> LIST_FIRST h s; Some (p = None) }"

definition LIST_INIT :: "nat \<Rightarrow> list_store \<Rightarrow> list_store option" where
  "LIST_INIT h s = le_put (Head h) None s"

definition LIST_INSERT_AFTER :: "nat \<Rightarrow> nat \<Rightarrow> list_store \<Rightarrow> list_store option" where
  "LIST_INSERT_AFTER listelm elm s =
     do {
       n \<leftarrow> LIST_NEXT listelm s;
       s \<leftarrow> le_put (Elm elm) n s;
       s \<leftarrow> (if n \<noteq> None then do { n \<leftarrow> LIST_NEXT listelm s; y \<leftarrow> n; set_prev y (Elm elm) s } else Some s);
       s \<leftarrow> le_put (Elm listelm) (Some elm) s;
       set_prev elm (Elm listelm) s
     }"

definition LIST_INSERT_BEFORE :: "nat \<Rightarrow> nat \<Rightarrow> list_store \<Rightarrow> list_store option" where
  "LIST_INSERT_BEFORE listelm elm s =
     do {
       p \<leftarrow> le_prev s listelm;
       s \<leftarrow> set_prev elm p s;
       s \<leftarrow> le_put (Elm elm) (Some listelm) s;
       p \<leftarrow> le_prev s listelm;
       s \<leftarrow> le_put p (Some elm) s;
       set_prev listelm (Elm elm) s
     }"

definition LIST_INSERT_HEAD :: "nat \<Rightarrow> nat \<Rightarrow> list_store \<Rightarrow> list_store option" where
  "LIST_INSERT_HEAD h elm s =
     do {
       f \<leftarrow> LIST_FIRST h s;
       s \<leftarrow> le_put (Elm elm) f s;
       s \<leftarrow> (if f \<noteq> None then do { f \<leftarrow> LIST_FIRST h s; y \<leftarrow> f; set_prev y (Elm elm) s } else Some s);
       s \<leftarrow> le_put (Head h) (Some elm) s;
       set_prev elm (Head h) s
     }"

text \<open>\<^verbatim>\<open>__containerof\<close> of the address of another head is no element: \<open>None\<close>.\<close>

definition LIST_PREV :: "nat \<Rightarrow> nat \<Rightarrow> list_store \<Rightarrow> nat option option" where
  "LIST_PREV elm h s =
     do {
       p \<leftarrow> le_prev s elm;
       if p = Head h then Some None else case p of Elm x \<Rightarrow> Some (Some x) | Head k \<Rightarrow> None
     }"

definition LIST_REMOVE :: "nat \<Rightarrow> list_store \<Rightarrow> list_store option" where
  "LIST_REMOVE elm s =
     do {
       n \<leftarrow> LIST_NEXT elm s;
       s \<leftarrow> (case n of None \<Rightarrow> Some s | Some y \<Rightarrow> do { p \<leftarrow> le_prev s elm; set_prev y p s });
       p \<leftarrow> le_prev s elm;
       n \<leftarrow> LIST_NEXT elm s;
       le_put p n s
     }"

definition LIST_SWAP :: "nat \<Rightarrow> nat \<Rightarrow> list_store \<Rightarrow> list_store option" where
  "LIST_SWAP h1 h2 s =
     do {
       swap_tmp \<leftarrow> LIST_FIRST h1 s;
       f2 \<leftarrow> LIST_FIRST h2 s;
       s \<leftarrow> le_put (Head h1) f2 s;
       s \<leftarrow> le_put (Head h2) swap_tmp s;
       swap_tmp \<leftarrow> LIST_FIRST h1 s;
       s \<leftarrow> (case swap_tmp of None \<Rightarrow> Some s | Some y \<Rightarrow> set_prev y (Head h1) s);
       swap_tmp \<leftarrow> LIST_FIRST h2 s;
       (case swap_tmp of None \<Rightarrow> Some s | Some y \<Rightarrow> set_prev y (Head h2) s)
     }"

definition LIST_FOREACH :: "('a \<Rightarrow> list_store) \<Rightarrow> nat \<Rightarrow> (nat \<Rightarrow> 'a \<Rightarrow> 'a option) \<Rightarrow> 'a \<Rightarrow> 'a option" where
  "LIST_FOREACH st h body \<sigma> = do { v \<leftarrow> LIST_FIRST h (st \<sigma>); tq_loop st LIST_NEXT body v \<sigma> }"

definition LIST_FOREACH_FROM ::
  "('a \<Rightarrow> list_store) \<Rightarrow> nat \<Rightarrow> nat option \<Rightarrow> (nat \<Rightarrow> 'a \<Rightarrow> 'a option) \<Rightarrow> 'a \<Rightarrow> 'a option" where
  "LIST_FOREACH_FROM st h var body \<sigma> =
     do { v \<leftarrow> from_or var (LIST_FIRST h (st \<sigma>)); tq_loop st LIST_NEXT body v \<sigma> }"

definition LIST_FOREACH_SAFE :: "('a \<Rightarrow> list_store) \<Rightarrow> nat \<Rightarrow> (nat \<Rightarrow> 'a \<Rightarrow> 'a option) \<Rightarrow> 'a \<Rightarrow> 'a option" where
  "LIST_FOREACH_SAFE st h body \<sigma> = do { v \<leftarrow> LIST_FIRST h (st \<sigma>); tq_loop_safe st LIST_NEXT body v \<sigma> }"

definition LIST_FOREACH_FROM_SAFE ::
  "('a \<Rightarrow> list_store) \<Rightarrow> nat \<Rightarrow> nat option \<Rightarrow> (nat \<Rightarrow> 'a \<Rightarrow> 'a option) \<Rightarrow> 'a \<Rightarrow> 'a option" where
  "LIST_FOREACH_FROM_SAFE st h var body \<sigma> =
     do { v \<leftarrow> from_or var (LIST_FIRST h (st \<sigma>)); tq_loop_safe st LIST_NEXT body v \<sigma> }"

section \<open>The consistency checks\<close>

definition QMD_LIST_CHECK_HEAD :: "nat \<Rightarrow> list_store \<Rightarrow> bool option" where
  "QMD_LIST_CHECK_HEAD h s =
     do {
       f \<leftarrow> LIST_FIRST h s;
       case f of None \<Rightarrow> Some True | Some y \<Rightarrow> do { p \<leftarrow> le_prev s y; Some (p = Head h) }
     }"

definition QMD_LIST_CHECK_NEXT :: "nat \<Rightarrow> list_store \<Rightarrow> bool option" where
  "QMD_LIST_CHECK_NEXT elm s =
     do {
       n \<leftarrow> LIST_NEXT elm s;
       case n of None \<Rightarrow> Some True | Some y \<Rightarrow> do { p \<leftarrow> le_prev s y; Some (p = Elm elm) }
     }"

definition QMD_LIST_CHECK_PREV :: "nat \<Rightarrow> list_store \<Rightarrow> bool option" where
  "QMD_LIST_CHECK_PREV elm s = do { p \<leftarrow> le_prev s elm; n \<leftarrow> le_links s p; Some (n = Some elm) }"

section \<open>The list a head holds\<close>

text \<open>Every element points back to the cell before it, the first one to \<open>p\<close>.\<close>

fun backs :: "(nat \<rightharpoonup> node) \<Rightarrow> node \<Rightarrow> nat list \<Rightarrow> bool" where
  "backs pv p [] \<longleftrightarrow> True"
| "backs pv p (x # xs) \<longleftrightarrow> pv x = Some p \<and> backs pv (Elm x) xs"

definition is_dlist :: "nat \<Rightarrow> list_store \<Rightarrow> nat list \<Rightarrow> bool" where
  "is_dlist h s xs \<longleftrightarrow> linked h (le_links s) xs \<and> backs (le_prev s) (Head h) xs"

lemma backs_append [simp]: "backs pv p (xs @ ys) \<longleftrightarrow> backs pv p xs \<and> backs pv (last_node p xs) ys"
  by (induction xs arbitrary: p) auto

lemma backs_cong: "(\<And>x. x \<in> set xs \<Longrightarrow> pv' x = pv x) \<Longrightarrow> backs pv' p xs = backs pv p xs"
  by (induction xs arbitrary: p) auto

lemma backs_update [simp]: "x \<notin> set xs \<Longrightarrow> backs (pv(x := v)) p xs = backs pv p xs"
  by (rule backs_cong) auto

lemma backs_allocated: "backs pv p xs \<Longrightarrow> x \<in> set xs \<Longrightarrow> pv x \<noteq> None"
  by (induction xs arbitrary: p) auto

text \<open>The first element of \<open>ys\<close> made to point back to \<open>a\<close>.\<close>

definition back_to :: "node \<Rightarrow> nat list \<Rightarrow> (nat \<rightharpoonup> node) \<Rightarrow> (nat \<rightharpoonup> node)" where
  "back_to a ys pv = (case ys of [] \<Rightarrow> pv | y # _ \<Rightarrow> pv(y \<mapsto> a))"

lemma backs_back_to: "backs pv p ys \<Longrightarrow> distinct ys \<Longrightarrow> backs (back_to a ys pv) a ys"
  by (cases ys) (simp_all add: back_to_def)

lemma backs_back_to_other [simp]: "set xs \<inter> set ys = {} \<Longrightarrow> backs (back_to a ys pv) p xs = backs pv p xs"
  by (rule backs_cong) (auto simp: back_to_def split: list.split)

lemma back_to_other [simp]: "x \<notin> set ys \<Longrightarrow> back_to a ys pv x = pv x"
  by (auto simp: back_to_def split: list.split)

lemmas le_access = le_put_def set_prev_def put_def LIST_FIRST_def LIST_NEXT_def back_to_def

text \<open>Linking an element in and out, as the macros do it.\<close>

definition le_link :: "nat \<Rightarrow> nat list \<Rightarrow> nat \<Rightarrow> nat list \<Rightarrow> list_store \<Rightarrow> list_store" where
  "le_link h xs x ys s =
     s\<lparr>le_links := (le_links s)(Elm x \<mapsto> first_or ys None, last_node (Head h) xs \<mapsto> Some x),
       le_prev := (back_to (Elm x) ys (le_prev s))(x \<mapsto> last_node (Head h) xs)\<rparr>"

definition le_unlink :: "nat \<Rightarrow> nat list \<Rightarrow> nat list \<Rightarrow> list_store \<Rightarrow> list_store" where
  "le_unlink h xs ys s =
     s\<lparr>le_links := (le_links s)(last_node (Head h) xs \<mapsto> first_or ys None),
       le_prev := back_to (last_node (Head h) xs) ys (le_prev s)\<rparr>"

lemma le_link_dlist:
  assumes "is_dlist h s (xs @ ys)" and "x \<notin> set (xs @ ys)"
  shows "is_dlist h (le_link h xs x ys s) (xs @ x # ys)"
proof -
  have d: "distinct (xs @ ys)" and b: "backs (le_prev s) (Head h) (xs @ ys)"
    using assms(1) by (simp_all add: is_dlist_def linked_def)
  then have "backs (back_to (Elm x) ys (le_prev s)) (Elm x) ys" by (auto intro: backs_back_to)
  then show ?thesis
    using assms linked_link [of h "le_links s" xs ys x] b d by (simp add: is_dlist_def le_link_def)
qed

lemma le_unlink_dlist:
  assumes "is_dlist h s (xs @ x # ys)"
  shows "is_dlist h (le_unlink h xs ys s) (xs @ ys)"
proof -
  have d: "distinct (xs @ x # ys)" and b: "backs (le_prev s) (Head h) (xs @ x # ys)"
    using assms by (simp_all add: is_dlist_def linked_def)
  then have "backs (back_to (last_node (Head h) xs) ys (le_prev s)) (last_node (Head h) xs) ys"
    by (auto intro: backs_back_to)
  then show ?thesis
    using assms linked_unlink [of h "le_links s" xs x ys] b d by (simp add: is_dlist_def le_unlink_def)
qed

interpretation ls: traversal "is_dlist h" "LIST_FIRST h" LIST_NEXT for h
proof
  show "LIST_FIRST h s = Some (first_or xs None)" if "is_dlist h s xs" for s xs
    using that by (simp add: LIST_FIRST_def is_dlist_def linked_first)
  show "LIST_NEXT x s = Some (first_or ys None)" if "is_dlist h s (xs @ x # ys)" for s xs x ys
    using that linked_next [of h "le_links s" xs x ys] by (simp add: LIST_NEXT_def is_dlist_def)
qed

lemma LIST_INSERT_HEAD_dlist:
  assumes "is_dlist h s ys" and "x \<notin> set ys" and "le_links s (Elm x) \<noteq> None" "le_prev s x \<noteq> None"
  shows "LIST_INSERT_HEAD h x s = Some (le_link h [] x ys s)"
  using assms linked_first [of h "le_links s" ys]
  by (cases ys) (auto simp: LIST_INSERT_HEAD_def le_access is_dlist_def le_link_def)

lemma LIST_INSERT_AFTER_dlist:
  assumes "is_dlist h s (xs @ y # ys)" and "x \<notin> set (xs @ y # ys)"
    and "le_links s (Elm x) \<noteq> None" "le_prev s x \<noteq> None"
  shows "LIST_INSERT_AFTER y x s = Some (le_link h (xs @ [y]) x ys s)"
  using assms linked_next [of h "le_links s" xs y ys]
  by (cases ys) (auto simp: LIST_INSERT_AFTER_def le_access is_dlist_def le_link_def)

lemma LIST_INSERT_BEFORE_dlist:
  assumes "is_dlist h s (xs @ y # ys)" and "x \<notin> set (xs @ y # ys)"
    and "le_links s (Elm x) \<noteq> None" "le_prev s x \<noteq> None"
  shows "LIST_INSERT_BEFORE y x s = Some (le_link h xs x (y # ys) s)"
proof -
  have "le_links s (last_node (Head h) xs) = Some (Some y)" "le_prev s y = Some (last_node (Head h) xs)"
    using assms(1) linked_before [of h "le_links s" xs y ys] by (simp_all add: is_dlist_def)
  moreover have "last_node (Head h) xs \<noteq> Elm x" using assms(2) by (cases xs rule: rev_cases) auto
  ultimately show ?thesis
    using assms(2-) by (auto simp: LIST_INSERT_BEFORE_def le_access le_link_def fun_upd_twist)
qed

lemma LIST_REMOVE_dlist:
  assumes "is_dlist h s (xs @ x # ys)"
  shows "LIST_REMOVE x s = Some (le_unlink h xs ys s)"
proof -
  have "le_links s (last_node (Head h) xs) = Some (Some x)" "le_prev s x = Some (last_node (Head h) xs)"
    "le_links s (Elm x) = Some (first_or ys None)" "x \<notin> set ys"
    using assms linked_before [of h "le_links s" xs x ys] linked_next [of h "le_links s" xs x ys]
    by (simp_all add: is_dlist_def linked_def)
  then show ?thesis
    using assms by (cases ys) (auto simp: LIST_REMOVE_def le_access le_unlink_def is_dlist_def)
qed

lemma LIST_PREV_dlist:
  "is_dlist h s (xs @ x # ys) \<Longrightarrow> LIST_PREV x h s = Some (if xs = [] then None else Some (last xs))"
  by (auto simp: LIST_PREV_def is_dlist_def last_node_def)

lemma LIST_SWAP_dlist:
  assumes q: "is_dlist h s xs" "is_dlist k s ys" and d: "h \<noteq> k" "set xs \<inter> set ys = {}"
  shows "\<exists>s'. LIST_SWAP h k s = Some s' \<and> is_dlist h s' ys \<and> is_dlist k s' xs"
proof -
  let ?s = "s\<lparr>le_links := (le_links s)(Head h \<mapsto> first_or ys None, Head k \<mapsto> first_or xs None),
      le_prev := back_to (Head k) xs (back_to (Head h) ys (le_prev s))\<rparr>"
  have f: "le_links s (Head h) = Some (first_or xs None)" "le_links s (Head k) = Some (first_or ys None)"
    using q by (simp_all add: is_dlist_def linked_first)
  have "LIST_SWAP h k s = Some ?s"
    using q d f by (cases xs; cases ys) (auto simp: LIST_SWAP_def le_access is_dlist_def)
  moreover have "backs (back_to (Head h) ys (le_prev s)) (Head h) ys" "backs (le_prev s) (Head h) xs"
    "distinct xs" using q by (auto simp: is_dlist_def linked_def intro: backs_back_to)
  then have "is_dlist h ?s ys" "is_dlist k ?s xs"
    using linked_swap [of h "le_links s" xs k ys] q d backs_back_to [of "back_to (Head h) ys (le_prev s)" "Head h" xs "Head k"]
    by (auto simp: is_dlist_def Int_commute)
  ultimately show ?thesis by blast
qed

text \<open>What the checks look at, for a list whose forward pointers are in order.\<close>

lemma backs_by_checks:
  assumes "chain l p xs None"
  shows "backs pv p xs \<longleftrightarrow> (\<forall>y. first_or xs None = Some y \<longrightarrow> pv y = Some p) \<and>
           (\<forall>x\<in>set xs. \<forall>y. l (Elm x) = Some (Some y) \<longrightarrow> pv y = Some (Elm x))"
  using assms
proof (induction xs arbitrary: p)
  case (Cons x xs)
  have "l (Elm x) = Some (first_or xs None)" using Cons.prems by (simp add: chain_first)
  then show ?case using Cons by auto
qed simp

lemma CHECK_NEXT_iff:
  "l = le_links s \<Longrightarrow> l (Elm x) = Some n \<Longrightarrow>
   QMD_LIST_CHECK_NEXT x s = Some True \<longleftrightarrow> (\<forall>y. l (Elm x) = Some (Some y) \<longrightarrow> le_prev s y = Some (Elm x))"
  by (cases n) (auto simp: QMD_LIST_CHECK_NEXT_def LIST_NEXT_def bind_eq_Some_conv)

lemma LIST_loops:
  assumes q: "is_dlist h s (ys @ x # zs)"
  shows "LIST_FOREACH fst h collect (s, []) = Some (s, ys @ x # zs)"
    and "LIST_FOREACH_SAFE fst h collect (s, []) = Some (s, ys @ x # zs)"
    and "LIST_FOREACH_FROM fst h None collect (s, []) = Some (s, ys @ x # zs)"
    and "LIST_FOREACH_FROM fst h (Some x) collect (s, []) = Some (s, x # zs)"
    and "LIST_FOREACH_FROM_SAFE fst h (Some x) collect (s, []) = Some (s, x # zs)"
  using ls.foreach_collects [OF q] ls.from_collects [OF q]
  by (simp_all add: LIST_FOREACH_def LIST_FOREACH_SAFE_def LIST_FOREACH_FROM_def LIST_FOREACH_FROM_SAFE_def)

section \<open>Properties\<close>

text \<open>
  The \<^verbatim>\<open>LIST\<close> macros do to the list of elements what they say, at any place of the list, and keep
  the back pointers right: insertion at the head, before and after an element, removal of an
  element given by its address alone, and the exchange of two lists; and \<^verbatim>\<open>LIST_PREV\<close> is the element
  before.  Removing an element right after inserting it restores the list.
\<close>

theorem list_edits:
  assumes q: "is_dlist h s (xs @ y # ys)"
    and x: "x \<notin> set (xs @ y # ys)" "le_links s (Elm x) \<noteq> None" "le_prev s x \<noteq> None"
  shows "(\<exists>s'. LIST_INSERT_HEAD h x s = Some s' \<and> is_dlist h s' (x # xs @ y # ys)) \<and>
         (\<exists>s'. LIST_INSERT_BEFORE y x s = Some s' \<and> is_dlist h s' (xs @ x # y # ys)) \<and>
         (\<exists>s' s''. LIST_INSERT_AFTER y x s = Some s' \<and> is_dlist h s' (xs @ y # x # ys) \<and>
            LIST_REMOVE x s' = Some s'' \<and> is_dlist h s'' (xs @ y # ys)) \<and>
         (\<exists>s'. LIST_REMOVE y s = Some s' \<and> is_dlist h s' (xs @ ys)) \<and>
         LIST_PREV y h s = Some (if xs = [] then None else Some (last xs)) \<and>
         (\<forall>k zs. k \<noteq> h \<and> is_dlist k s zs \<and> set (xs @ y # ys) \<inter> set zs = {} \<longrightarrow>
            (\<exists>s'. LIST_SWAP h k s = Some s' \<and> is_dlist h s' zs \<and> is_dlist k s' (xs @ y # ys)))"
proof (intro conjI allI impI)
  show "\<exists>s'. LIST_INSERT_HEAD h x s = Some s' \<and> is_dlist h s' (x # xs @ y # ys)"
    using LIST_INSERT_HEAD_dlist [OF q x] le_link_dlist [of h s "[]" "xs @ y # ys" x] q x(1) by auto
  show "\<exists>s'. LIST_INSERT_BEFORE y x s = Some s' \<and> is_dlist h s' (xs @ x # y # ys)"
    using LIST_INSERT_BEFORE_dlist [OF q x] le_link_dlist [OF q x(1)] by auto
  have ins: "LIST_INSERT_AFTER y x s = Some (le_link h (xs @ [y]) x ys s)"
    "is_dlist h (le_link h (xs @ [y]) x ys s) ((xs @ [y]) @ x # ys)"
    using LIST_INSERT_AFTER_dlist [OF q x] le_link_dlist [of h s "xs @ [y]" ys x] q x(1) by auto
  then show "\<exists>s' s''. LIST_INSERT_AFTER y x s = Some s' \<and> is_dlist h s' (xs @ y # x # ys) \<and>
      LIST_REMOVE x s' = Some s'' \<and> is_dlist h s'' (xs @ y # ys)"
    using LIST_REMOVE_dlist [OF ins(2)] le_unlink_dlist [OF ins(2)] by auto
  show "\<exists>s'. LIST_REMOVE y s = Some s' \<and> is_dlist h s' (xs @ ys)"
    using LIST_REMOVE_dlist [OF q] le_unlink_dlist [OF q] by blast
  show "LIST_PREV y h s = Some (if xs = [] then None else Some (last xs))" using LIST_PREV_dlist [OF q] .
  fix k zs
  assume "k \<noteq> h \<and> is_dlist k s zs \<and> set (xs @ y # ys) \<inter> set zs = {}"
  then show "\<exists>s'. LIST_SWAP h k s = Some s' \<and> is_dlist h s' zs \<and> is_dlist k s' (xs @ y # ys)"
    using LIST_SWAP_dlist [OF q, of k zs] by auto
qed

definition sample_dlist :: list_store where
  "sample_dlist = \<lparr>le_links = [Head 0 \<mapsto> Some 5, Elm 5 \<mapsto> Some 3, Elm 3 \<mapsto> None, Elm 9 \<mapsto> None],
                   le_prev = [5 \<mapsto> Head 0, 3 \<mapsto> Elm 5, 9 \<mapsto> Head 7]\<rparr>"

lemma sample_dlist_ok: "is_dlist 0 sample_dlist ([5] @ 3 # [])"
  by (simp add: is_dlist_def linked_def sample_dlist_def)

theorem list_edits_witness:
  "(\<exists>s'. LIST_INSERT_BEFORE 3 9 sample_dlist = Some s' \<and> is_dlist 0 s' [5, 9, 3]) \<and>
   (\<exists>s'. LIST_REMOVE 3 sample_dlist = Some s' \<and> is_dlist 0 s' [5])"
  using list_edits [OF sample_dlist_ok, of 9] by (auto simp: sample_dlist_def)

text \<open>
  The checks of the debugging build decide whether a list is in order.  When the forward
  pointers form a list of allocated elements, all back pointers are right if and only if the
  check of the head and the checks of every element's successor pass, and then the checks of
  the predecessors pass too.
\<close>

theorem list_checks_decide:
  assumes "linked h (le_links s) xs"
  shows "(is_dlist h s xs \<longleftrightarrow> QMD_LIST_CHECK_HEAD h s = Some True \<and>
            (\<forall>x\<in>set xs. QMD_LIST_CHECK_NEXT x s = Some True)) \<and>
         (is_dlist h s xs \<longrightarrow> (\<forall>x\<in>set xs. QMD_LIST_CHECK_PREV x s = Some True))"
proof
  have c: "chain (le_links s) (Head h) xs None" and f: "le_links s (Head h) = Some (first_or xs None)"
    using assms by (simp_all add: linked_def chain_first)
  have "QMD_LIST_CHECK_HEAD h s = Some True \<longleftrightarrow> (\<forall>y. first_or xs None = Some y \<longrightarrow> le_prev s y = Some (Head h))"
    using f by (cases "first_or xs None") (auto simp: QMD_LIST_CHECK_HEAD_def LIST_FIRST_def bind_eq_Some_conv)
  moreover have "QMD_LIST_CHECK_NEXT x s = Some True \<longleftrightarrow>
      (\<forall>y. le_links s (Elm x) = Some (Some y) \<longrightarrow> le_prev s y = Some (Elm x))" if x: "x \<in> set xs" for x
  proof -
    obtain n where "le_links s (Elm x) = Some n" using linked_allocated [OF assms x] by blast
    then show ?thesis by (rule CHECK_NEXT_iff [OF refl])
  qed
  ultimately show "is_dlist h s xs \<longleftrightarrow> QMD_LIST_CHECK_HEAD h s = Some True \<and>
      (\<forall>x\<in>set xs. QMD_LIST_CHECK_NEXT x s = Some True)"
    using assms backs_by_checks [OF c, of "le_prev s"] by (simp add: is_dlist_def)
  show "is_dlist h s xs \<longrightarrow> (\<forall>x\<in>set xs. QMD_LIST_CHECK_PREV x s = Some True)"
  proof (intro impI ballI)
    fix x
    assume d: "is_dlist h s xs" and "x \<in> set xs"
    then obtain ys zs where "xs = ys @ x # zs" by (auto dest: split_list)
    then show "QMD_LIST_CHECK_PREV x s = Some True"
      using d linked_before [of h "le_links s" ys x zs] by (simp add: QMD_LIST_CHECK_PREV_def is_dlist_def)
  qed
qed

theorem list_checks_decide_witness:
  "QMD_LIST_CHECK_HEAD 0 sample_dlist = Some True \<and>
   \<not> is_dlist 0 (sample_dlist\<lparr>le_prev := (le_prev sample_dlist)(3 \<mapsto> Head 0)\<rparr>) [5, 3]"
proof -
  have l: "linked 0 (le_links sample_dlist) [5, 3]" by (simp add: linked_def sample_dlist_def)
  have bad: "QMD_LIST_CHECK_NEXT 5 (sample_dlist\<lparr>le_prev := (le_prev sample_dlist)(3 \<mapsto> Head 0)\<rparr>) = Some False"
    by (simp add: QMD_LIST_CHECK_NEXT_def LIST_NEXT_def sample_dlist_def)
  show ?thesis
    using list_checks_decide [OF l] sample_dlist_ok bad
      list_checks_decide [of 0 "sample_dlist\<lparr>le_prev := (le_prev sample_dlist)(3 \<mapsto> Head 0)\<rparr>" "[5, 3]"] l
    by auto
qed

end
