(* ===== verification/System_Calls.thy ===== *)
theory System_Calls
  imports Prelude
begin

text \<open>
  The process exercises of \<^verbatim>\<open>examples/systemcalls/systemcalls.c\<close>.  A call that forks is followed
  in both processes: the child's part computes the status with which the child ends, the
  parent's part waits for it.  What the system does is the record \<open>proc_os\<close>: it says whether
  \<^verbatim>\<open>fork\<close>, \<^verbatim>\<open>waitpid\<close>, \<^verbatim>\<open>open\<close> and \<^verbatim>\<open>dup2\<close> succeed, and how a program run by \<^verbatim>\<open>execv\<close> or by the
  shell ends.  Statuses are those of \<^verbatim>\<open>wait\<close>: exit code \<open>n\<close> is \<open>n * 256\<close>, termination by
  signal \<open>n\<close> is \<open>n\<close>.
\<close>

section \<open>Processes\<close>

datatype exit_kind = Exited_with nat | Killed_by nat

fun wait_status :: "exit_kind \<Rightarrow> int" where
  "wait_status (Exited_with n) = int (n mod 256) * 256"
| "wait_status (Killed_by n) = int n"

text \<open>Where standard output of a process goes.\<close>

datatype stdout = Inherited | To_file string

text \<open>
  \<open>run_program path argv out\<close> is how the program ends, or \<open>None\<close> when \<^verbatim>\<open>execv\<close> returns.
  \<open>sh_result\<close> is what \<^verbatim>\<open>system\<close> returns: -1, or the status of the shell.
\<close>

record proc_os =
  fork_ok :: bool
  wait_ok :: bool
  run_program :: "string option \<Rightarrow> string list \<Rightarrow> stdout \<Rightarrow> exit_kind option"
  sh_result :: "string \<Rightarrow> exit_kind option"
  open_result :: "string \<Rightarrow> int"
  dup2_ok :: bool

section \<open>do_system\<close>

definition system_call :: "proc_os \<Rightarrow> string \<Rightarrow> int" where
  "system_call os cmd = (case sh_result os cmd of None \<Rightarrow> -1 | Some k \<Rightarrow> wait_status k)"

definition do_system :: "proc_os \<Rightarrow> string \<Rightarrow> bool" where
  "do_system os cmd = (let rc = system_call os cmd in if rc < 0 \<or> rc = 127 then False else True)"

section \<open>do_exec and do_exec_redirect\<close>

text \<open>
  Collecting \<open>count\<close> variable arguments into the \<^verbatim>\<open>NULL\<close>-terminated array \<^verbatim>\<open>command\<close>; fewer
  arguments than \<open>count\<close> is undefined.
\<close>

fun collect_args :: "nat \<Rightarrow> string list \<Rightarrow> string list option" where
  "collect_args 0 args = Some []"
| "collect_args (Suc n) [] = None"
| "collect_args (Suc n) (a # args) = map_option ((#) a) (collect_args n args)"

definition command0 :: "string list \<Rightarrow> string option" where
  "command0 command = (case command of [] \<Rightarrow> None | a # _ \<Rightarrow> Some a)"

text \<open>The child: \<^verbatim>\<open>execv\<close>, and \<^verbatim>\<open>exit(-1)\<close> when that returns.\<close>

definition exec_child :: "proc_os \<Rightarrow> string list \<Rightarrow> stdout \<Rightarrow> exit_kind" where
  "exec_child os command out =
     (case run_program os (command0 command) command out of None \<Rightarrow> Exited_with 255 | Some k \<Rightarrow> k)"

definition do_exec :: "proc_os \<Rightarrow> nat \<Rightarrow> string list \<Rightarrow> bool option" where
  "do_exec os count args =
     do {
       command \<leftarrow> collect_args count args;
       if \<not> fork_ok os then Some False
       else
         let child_status = (if wait_ok os then wait_status (exec_child os command Inherited) else -1) in
         Some (if wait_ok os \<and> child_status = 0 then True else False)
     }"

text \<open>The child of \<^verbatim>\<open>do_exec_redirect\<close>.\<close>

definition redirect_child :: "proc_os \<Rightarrow> string list \<Rightarrow> string \<Rightarrow> exit_kind" where
  "redirect_child os command outputfile =
     (if \<not> dup2_ok os then Exited_with 255 else exec_child os command (To_file outputfile))"

text \<open>
  The result and the descriptors the caller has open afterwards.  Returning -1 from a function
  of type \<^verbatim>\<open>bool\<close> returns true.
\<close>

definition do_exec_redirect ::
  "proc_os \<Rightarrow> string \<Rightarrow> nat \<Rightarrow> string list \<Rightarrow> int list \<Rightarrow> (bool \<times> int list) option" where
  "do_exec_redirect os outputfile count args fds =
     do {
       command \<leftarrow> collect_args count args;
       let fd = open_result os outputfile;
       if fd < 0 then Some ((-1 :: int) \<noteq> 0, fds)
       else
         let fds1 = fd # fds in
         if \<not> fork_ok os then Some (False, fds1)
         else
           let child_status = (if wait_ok os then wait_status (redirect_child os command outputfile) else -1);
               fds2 = remove1 fd fds1
           in Some (if wait_ok os \<and> child_status = 0 then True else False, fds2)
     }"

section \<open>Properties\<close>

lemma collect_args_eq: "collect_args n args = (if n \<le> length args then Some (take n args) else None)"
  by (induction n args rule: collect_args.induct) auto

lemma wait_status_zero: "wait_status k = 0 \<longleftrightarrow> (\<exists>n. k = Exited_with n \<and> n mod 256 = 0) \<or> k = Killed_by 0"
  by (cases k) auto

text \<open>How the program named by the arguments ends.\<close>

definition command_runs_ok :: "proc_os \<Rightarrow> string list \<Rightarrow> stdout \<Rightarrow> bool" where
  "command_runs_ok os args out \<longleftrightarrow>
     (\<exists>k. run_program os (command0 args) args out = Some k \<and> wait_status k = 0)"

lemma exec_child_zero: "wait_status (exec_child os args out) = 0 \<longleftrightarrow> command_runs_ok os args out"
  by (auto simp: exec_child_def command_runs_ok_def split: option.split)

text \<open>
  C34: \<^verbatim>\<open>do_exec\<close> is right: given at least \<open>count\<close> arguments it returns true exactly when fork and
  wait succeed, the program at the first argument can be executed with the first \<open>count\<close>
  arguments as its argument vector, and it ends with status 0; in particular an \<^verbatim>\<open>execv\<close> that
  fails in the child is reported as false, not as a second return.
\<close>

theorem do_exec_iff_success:
  assumes "count \<le> length args"
  shows "do_exec os count args =
           Some (fork_ok os \<and> wait_ok os \<and> command_runs_ok os (take count args) Inherited)"
  using assms exec_child_zero [of os "take count args" Inherited]
  by (auto simp: do_exec_def collect_args_eq Let_def)

definition sample_os :: proc_os where
  "sample_os = \<lparr>fork_ok = True, wait_ok = True,
                run_program = (\<lambda>p argv out. if p = Some ''/bin/true'' then Some (Exited_with 0)
                                           else if p = Some ''/bin/false'' then Some (Exited_with 1) else None),
                sh_result = (\<lambda>cmd. Some (Exited_with (if cmd = ''true'' then 0 else 1))),
                open_result = (\<lambda>f. if f = ''/tmp/out'' then 5 else -1), dup2_ok = True\<rparr>"

theorem do_exec_iff_success_witness:
  "do_exec sample_os 2 [''/bin/true'', ''x''] = Some True \<and> do_exec sample_os 1 [''/bin/false''] = Some False \<and>
   do_exec sample_os 1 [''echo''] = Some False"
  using do_exec_iff_success [of 2 "[''/bin/true'', ''x'']" sample_os]
    do_exec_iff_success [of 1 "[''/bin/false'']" sample_os] do_exec_iff_success [of 1 "[''echo'']" sample_os]
  by (simp add: sample_os_def command_runs_ok_def command0_def)

text \<open>
  \<^verbatim>\<open>do_exec_redirect\<close> with an output file that can be opened returns true exactly when fork,
  wait and dup2 succeed and the program, its standard output going to the file, ends with
  status 0; the caller's descriptor of the file is closed again whenever the fork succeeded.
\<close>

theorem do_exec_redirect_iff_success:
  assumes "count \<le> length args" and "0 \<le> open_result os outputfile"
  shows "do_exec_redirect os outputfile count args fds =
           Some (fork_ok os \<and> wait_ok os \<and> dup2_ok os \<and>
                 command_runs_ok os (take count args) (To_file outputfile),
                 if fork_ok os then fds else open_result os outputfile # fds)"
  using assms exec_child_zero [of os "take count args" "To_file outputfile"]
  by (auto simp: do_exec_redirect_def redirect_child_def collect_args_eq Let_def)

theorem do_exec_redirect_iff_success_witness:
  "do_exec_redirect sample_os ''/tmp/out'' 1 [''/bin/true''] [0, 1, 2] = Some (True, [0, 1, 2])"
  using do_exec_redirect_iff_success [of 1 "[''/bin/true'']" sample_os "''/tmp/out''" "[0, 1, 2]"]
  by (simp add: sample_os_def command_runs_ok_def command0_def)

text \<open>
  When the output file cannot be opened, \<^verbatim>\<open>do_exec_redirect\<close> runs nothing and returns true:
  the error value -1 becomes true in the conversion to \<^verbatim>\<open>bool\<close>.
\<close>

theorem do_exec_redirect_open_failure_is_true:
  assumes "count \<le> length args" and "open_result os outputfile < 0"
  shows "do_exec_redirect os outputfile count args fds = Some (True, fds)"
  using assms by (simp add: do_exec_redirect_def collect_args_eq)

theorem do_exec_redirect_open_failure_is_true_witness:
  "do_exec_redirect sample_os ''/root/denied'' 1 [''/bin/false''] [0, 1, 2] = Some (True, [0, 1, 2])"
  by (rule do_exec_redirect_open_failure_is_true) (simp_all add: sample_os_def)

text \<open>
  \<^verbatim>\<open>do_system\<close> does not look at how the command ended: it returns true for a command that
  exits with any code at all, and false only when \<^verbatim>\<open>system\<close> itself fails or the shell is
  killed by a signal with number 127.
\<close>

theorem do_system_ignores_exit_code:
  "do_system os cmd \<longleftrightarrow> sh_result os cmd \<noteq> None \<and> sh_result os cmd \<noteq> Some (Killed_by 127)"
proof (cases "sh_result os cmd")
  case None
  then show ?thesis by (simp add: do_system_def system_call_def)
next
  case (Some k)
  have "m * 256 \<noteq> 127" for m :: int by presburger
  then show ?thesis using Some by (cases k) (auto simp: do_system_def system_call_def Let_def)
qed

end
