(* ===== verification/Threading.thy ===== *)
theory Threading
  imports Prelude
begin

text \<open>
  The thread exercise of \<^verbatim>\<open>examples/threading/threading.c\<close>: threads that sleep, take a mutex, hold
  it for a while and release it.  Each thread is a program counter over the calls of
  \<^verbatim>\<open>threadfunc\<close>; a step makes one call and goes to the code behind it.  Threads interleave
  freely, a lock waits until the mutex is free, and any call may fail.  The mutexes record
  their owner.
\<close>

section \<open>State\<close>

record thread_data =
  wait_time_for_lock :: int32
  wait_time_to_release_lock :: int32
  lock :: nat
  thread_complete_success :: bool

datatype thread_pc = Sleep_before | Lock_mutex | Sleep_holding | Unlock_failed_sleep | Unlock_mutex | Returned

record thread =
  pc :: thread_pc
  param :: thread_data

record threads =
  tasks :: "nat \<rightharpoonup> thread"
  owner :: "nat \<Rightarrow> nat option"
  slept :: "nat \<Rightarrow> uint32 list"

text \<open>\<^verbatim>\<open>usleep\<close> takes microseconds as an unsigned 32-bit number.\<close>

definition usleep_arg :: "int32 \<Rightarrow> uint32" where
  "usleep_arg ms = ms * 1000"

section \<open>The thread function\<close>

definition fail_task :: "thread \<Rightarrow> thread" where
  "fail_task t = t\<lparr>pc := Returned, param := (param t)\<lparr>thread_complete_success := False\<rparr>\<rparr>"

definition set_task :: "nat \<Rightarrow> thread \<Rightarrow> threads \<Rightarrow> threads" where
  "set_task i t s = s\<lparr>tasks := (tasks s)(i \<mapsto> t)\<rparr>"

definition note_sleep :: "nat \<Rightarrow> int32 \<Rightarrow> threads \<Rightarrow> threads" where
  "note_sleep i ms s = s\<lparr>slept := (slept s)(i := slept s i @ [usleep_arg ms])\<rparr>"

text \<open>
  One call of thread \<open>i\<close>; \<open>rc\<close> is what the call returns.  \<open>None\<close>: the call cannot happen, a lock
  of a held mutex, which waits, or a thread that has returned.  A successful unlock frees the
  mutex; it succeeds only for the owner.
\<close>

definition threadfunc_step :: "nat \<Rightarrow> int \<Rightarrow> threads \<Rightarrow> threads option" where
  "threadfunc_step i rc s =
     do {
       t \<leftarrow> tasks s i;
       let d = param t;
       case pc t of
         Sleep_before \<Rightarrow>
           let t1 = t\<lparr>param := d\<lparr>thread_complete_success := True\<rparr>\<rparr>;
               s1 = note_sleep i (wait_time_for_lock d) s
           in Some (if rc \<noteq> 0 then set_task i (fail_task t1) s1 else set_task i (t1\<lparr>pc := Lock_mutex\<rparr>) s1)
       | Lock_mutex \<Rightarrow>
           if rc \<noteq> 0 then Some (set_task i (fail_task t) s)
           else if owner s (lock d) \<noteq> None then None
           else Some ((set_task i (t\<lparr>pc := Sleep_holding\<rparr>) s)\<lparr>owner := (owner s)(lock d \<mapsto> i)\<rparr>)
       | Sleep_holding \<Rightarrow>
           let s1 = note_sleep i (wait_time_to_release_lock d) s
           in Some (if rc \<noteq> 0 then set_task i (t\<lparr>pc := Unlock_failed_sleep\<rparr>) s1
                    else set_task i (t\<lparr>pc := Unlock_mutex\<rparr>) s1)
       | Unlock_failed_sleep \<Rightarrow>
           if rc = 0 \<and> owner s (lock d) \<noteq> Some i then None
           else Some (set_task i (fail_task t)
                  (if rc = 0 then s\<lparr>owner := (owner s)(lock d := None)\<rparr> else s))
       | Unlock_mutex \<Rightarrow>
           if rc = 0 \<and> owner s (lock d) \<noteq> Some i then None
           else if rc \<noteq> 0 then Some (set_task i (fail_task t) s)
           else Some ((set_task i (t\<lparr>pc := Returned\<rparr>) s)\<lparr>owner := (owner s)(lock d := None)\<rparr>)
       | Returned \<Rightarrow> None
     }"

section \<open>Starting a thread\<close>

text \<open>
  \<open>alloc\<close> and \<open>create_rc\<close> are the outcomes of \<^verbatim>\<open>malloc\<close> and \<^verbatim>\<open>pthread_create\<close>, \<open>i\<close> the new thread;
  the success flag of the fresh memory is \<open>junk\<close>.
\<close>

definition start_thread_obtaining_mutex ::
  "bool \<Rightarrow> int \<Rightarrow> nat \<Rightarrow> bool \<Rightarrow> nat \<Rightarrow> int32 \<Rightarrow> int32 \<Rightarrow> threads \<Rightarrow> bool \<times> threads" where
  "start_thread_obtaining_mutex alloc create_rc i junk mutex wait_to_obtain_ms wait_to_release_ms s =
     (if \<not> alloc then (False, s)
      else let thread_parms = \<lparr>wait_time_for_lock = wait_to_obtain_ms,
                               wait_time_to_release_lock = wait_to_release_ms, lock = mutex,
                               thread_complete_success = junk\<rparr> in
        if create_rc \<noteq> 0 then (False, s)
        else (True, (set_task i \<lparr>pc = Sleep_before, param = thread_parms\<rparr> s)
                      \<lparr>slept := (slept s)(i := [])\<rparr>))"

text \<open>The steps of one thread in a row, each with the value its call returns.\<close>

fun run_thread :: "nat \<Rightarrow> int list \<Rightarrow> threads \<Rightarrow> threads option" where
  "run_thread i [] s = Some s"
| "run_thread i (rc # rcs) s = do { s1 \<leftarrow> threadfunc_step i rc s; run_thread i rcs s1 }"

section \<open>All interleavings\<close>

inductive th_step :: "threads \<Rightarrow> threads \<Rightarrow> bool" where
  start: "tasks s i = None \<Longrightarrow>
     start_thread_obtaining_mutex alloc create_rc i junk m w r s = (ok, s') \<Longrightarrow> th_step s s'"
| run: "threadfunc_step i rc s = Some s' \<Longrightarrow> th_step s s'"

definition no_threads :: threads where
  "no_threads = \<lparr>tasks = Map.empty, owner = (\<lambda>m. None), slept = (\<lambda>i. [])\<rparr>"

inductive_cases th_stepE: "th_step s s'"

definition holding :: "thread \<Rightarrow> bool" where
  "holding t \<longleftrightarrow> pc t \<in> {Sleep_holding, Unlock_failed_sleep, Unlock_mutex}"

text \<open>A thread inside its critical section owns its mutex, and every owner is a thread.\<close>

definition th_inv :: "threads \<Rightarrow> bool" where
  "th_inv s \<longleftrightarrow>
     (\<forall>i t. tasks s i = Some t \<and> holding t \<longrightarrow> owner s (lock (param t)) = Some i) \<and>
     (\<forall>i t. tasks s i = Some t \<and> pc t \<notin> {Sleep_before, Returned} \<longrightarrow> thread_complete_success (param t)) \<and>
     (\<forall>i. tasks s i = None \<longrightarrow> (\<forall>m. owner s m \<noteq> Some i))"

text \<open>What a step does: it moves one thread, and takes, releases or leaves the thread's mutex.\<close>

lemma threadfunc_step_effect:
  assumes step: "threadfunc_step i rc s = Some s'"
  obtains t t' where "tasks s i = Some t" "tasks s' = (tasks s)(i \<mapsto> t')" "lock (param t') = lock (param t)"
    "owner s' = owner s \<and> (holding t' \<longrightarrow> holding t) \<or>
     owner s (lock (param t)) = None \<and> owner s' = (owner s)(lock (param t) \<mapsto> i) \<or>
     owner s (lock (param t)) = Some i \<and> owner s' = (owner s)(lock (param t) := None) \<and> \<not> holding t'"
    "pc t' \<notin> {Sleep_before, Returned} \<longrightarrow> thread_complete_success (param t') \<or>
       param t' = param t \<and> pc t \<notin> {Sleep_before, Returned}"
proof -
  obtain t where t: "tasks s i = Some t" using step by (auto simp: threadfunc_step_def bind_eq_Some_conv)
  then obtain t' where t': "tasks s' = (tasks s)(i \<mapsto> t')" "lock (param t') = lock (param t)"
    "tasks s' i = Some t'"
    using step
    by (cases "pc t")
      (auto simp: threadfunc_step_def set_task_def fail_task_def note_sleep_def Let_def split: if_splits)
  show ?thesis
    by (rule that [OF t t'(1,2)]; use step t t'(3) in \<open>cases "pc t"\<close>)
      (auto simp: threadfunc_step_def set_task_def fail_task_def note_sleep_def holding_def Let_def split: if_splits)
qed

lemma threadfunc_step_inv:
  assumes step: "threadfunc_step i rc s = Some s'" and inv: "th_inv s"
  shows "th_inv s'"
proof -
  have own: "owner s (lock (param u)) = Some j" if "tasks s j = Some u" "holding u" for j u
    using inv that by (simp add: th_inv_def)
  from step show ?thesis
  proof (cases rule: threadfunc_step_effect)
    case (1 t t')
    have "owner s' (lock (param u)) = Some j" if "tasks s' j = Some u" "holding u" for j u
    proof (cases "j = i")
      case True
      then show ?thesis using that 1 own by auto
    next
      case False
      then have "owner s (lock (param u)) = Some j" using that own 1(2) by simp
      then show ?thesis using False 1(4) by auto
    qed
    moreover have "thread_complete_success (param u)"
      if "tasks s' j = Some u" "pc u \<notin> {Sleep_before, Returned}" for j u
      using that 1(1,2,5) inv by (cases "j = i") (auto simp: th_inv_def)
    moreover have "owner s' m \<noteq> Some j" if "tasks s' j = None" for j m
      using that 1(1,2,4) inv by (auto simp: th_inv_def split: if_splits)
    ultimately show ?thesis unfolding th_inv_def by blast
  qed
qed

lemma th_step_inv: "th_step s s' \<Longrightarrow> th_inv s \<Longrightarrow> th_inv s'"
proof (induction rule: th_step.induct)
  case (start s i alloc create_rc junk m w r ok s')
  then show ?case
    by (auto simp: start_thread_obtaining_mutex_def th_inv_def set_task_def holding_def Let_def split: if_splits)
next
  case (run i rc s s')
  then show ?case using threadfunc_step_inv by blast
qed

lemma th_reach_inv: "th_step\<^sup>*\<^sup>* no_threads s \<Longrightarrow> th_inv s"
proof (induction rule: rtranclp_induct)
  case base
  then show ?case by (simp add: th_inv_def no_threads_def)
next
  case (step s s')
  then show ?case using th_step_inv by blast
qed

section \<open>What a thread leaves behind\<close>

text \<open>
  The sleeps of a thread so far follow its program counter, and a mutex is owned by a thread
  inside its critical section or by one that returned without success.
\<close>

definition slept_upto :: "thread_pc \<Rightarrow> thread_data \<Rightarrow> uint32 list \<Rightarrow> bool" where
  "slept_upto p d us =
     (case p of
        Sleep_before \<Rightarrow> us = []
      | Lock_mutex \<Rightarrow> us = [usleep_arg (wait_time_for_lock d)]
      | Sleep_holding \<Rightarrow> us = [usleep_arg (wait_time_for_lock d)]
      | Returned \<Rightarrow> thread_complete_success d \<longrightarrow>
          us = [usleep_arg (wait_time_for_lock d), usleep_arg (wait_time_to_release_lock d)]
      | _ \<Rightarrow> us = [usleep_arg (wait_time_for_lock d), usleep_arg (wait_time_to_release_lock d)])"

definition owns_rightly :: "nat \<Rightarrow> thread \<Rightarrow> bool" where
  "owns_rightly m t \<longleftrightarrow> lock (param t) = m \<and>
     (holding t \<or> pc t = Returned \<and> \<not> thread_complete_success (param t))"

definition th_track :: "threads \<Rightarrow> bool" where
  "th_track s \<longleftrightarrow>
     (\<forall>i t. tasks s i = Some t \<longrightarrow> slept_upto (pc t) (param t) (slept s i)) \<and>
     (\<forall>m i. owner s m = Some i \<longrightarrow> (\<exists>t. tasks s i = Some t \<and> owns_rightly m t))"

lemma threadfunc_step_track:
  assumes step: "threadfunc_step i rc s = Some s'" and tr: "th_track s"
  shows "th_track s'"
proof -
  obtain t where t: "tasks s i = Some t" using step by (auto simp: threadfunc_step_def bind_eq_Some_conv)
  have sl: "slept_upto (pc t) (param t) (slept s i)" using tr t by (simp add: th_track_def)
  have own: "\<exists>u. tasks s j = Some u \<and> owns_rightly m u" if "owner s m = Some j" for m j
    using tr that by (simp add: th_track_def)
  have mine: "owns_rightly m t" if "owner s m = Some i" for m using own [OF that] t by simp
  have frame: "slept s' j = slept s j \<and> tasks s' j = tasks s j" if "j \<noteq> i" for j
    using step t that
    by (cases "pc t") (auto simp: threadfunc_step_def set_task_def note_sleep_def Let_def split: if_splits)
  have "slept_upto (pc u) (param u) (slept s' j)" if "tasks s' j = Some u" for j u
  proof (cases "j = i")
    case True
    then show ?thesis using step t sl that
      by (cases "pc t")
        (auto simp: threadfunc_step_def set_task_def note_sleep_def fail_task_def slept_upto_def Let_def
          split: if_splits)
  next
    case False
    then show ?thesis using frame [of j] that tr by (simp add: th_track_def)
  qed
  moreover have "\<exists>u. tasks s' j = Some u \<and> owns_rightly m u" if o: "owner s' m = Some j" for m j
  proof (cases "j = i")
    case True
    obtain u where u: "tasks s' i = Some u" using step t
      by (cases "pc t") (auto simp: threadfunc_step_def set_task_def note_sleep_def Let_def split: if_splits)
    have "owns_rightly m u"
    proof (cases "owner s m = Some i")
      case True
      then have "owns_rightly m t" by (rule mine)
      then show ?thesis using step t u o \<open>j = i\<close>
        by (cases "pc t")
          (auto simp: threadfunc_step_def set_task_def note_sleep_def fail_task_def owns_rightly_def
            holding_def Let_def split: if_splits)
    next
      case False
      then show ?thesis using step t u o \<open>j = i\<close>
        by (cases "pc t")
          (auto simp: threadfunc_step_def set_task_def note_sleep_def fail_task_def owns_rightly_def
            holding_def Let_def split: if_splits)
    qed
    then show ?thesis using u True by simp
  next
    case False
    then have "owner s m = Some j" using step t o
      by (cases "pc t")
        (auto simp: threadfunc_step_def set_task_def note_sleep_def Let_def split: if_splits)
    then show ?thesis using own frame [OF False] by simp
  qed
  ultimately show ?thesis unfolding th_track_def by blast
qed

lemma th_step_track: "th_step s s' \<Longrightarrow> th_track s \<Longrightarrow> th_track s'"
proof (induction rule: th_step.induct)
  case (start s i alloc create_rc junk m w r ok s')
  have "\<exists>u. tasks s' j = Some u \<and> owns_rightly m' u" if "owner s' m' = Some j" for m' j
  proof -
    have "owner s m' = Some j"
      using start that by (auto simp: start_thread_obtaining_mutex_def set_task_def Let_def split: if_splits)
    then obtain u where "tasks s j = Some u" "owns_rightly m' u" using start unfolding th_track_def by blast
    then show ?thesis using start
      by (cases "j = i") (auto simp: start_thread_obtaining_mutex_def set_task_def Let_def split: if_splits)
  qed
  moreover have "slept_upto (pc t) (param t) (slept s' j)" if "tasks s' j = Some t" for j t
  proof (cases "j = i \<and> alloc \<and> create_rc = 0")
    case True
    then show ?thesis using start that
      by (auto simp: start_thread_obtaining_mutex_def set_task_def slept_upto_def Let_def)
  next
    case False
    then have "tasks s' j = tasks s j" "slept s' j = slept s j"
      using start by (auto simp: start_thread_obtaining_mutex_def set_task_def Let_def split: if_splits)
    then show ?thesis using start that by (simp add: th_track_def)
  qed
  ultimately show ?case unfolding th_track_def by blast
next
  case (run i rc s s')
  then show ?case using threadfunc_step_track by blast
qed

lemma th_reach_track: "th_step\<^sup>*\<^sup>* no_threads s \<Longrightarrow> th_track s"
proof (induction rule: rtranclp_induct)
  case base
  then show ?case by (simp add: th_track_def no_threads_def)
next
  case (step s s')
  then show ?case using th_step_track by blast
qed

lemma run_thread_steps: "run_thread i rcs s = Some s' \<Longrightarrow> th_step\<^sup>*\<^sup>* s s'"
proof (induction rcs arbitrary: s)
  case (Cons rc rcs)
  then obtain s1 where "threadfunc_step i rc s = Some s1" "run_thread i rcs s1 = Some s'"
    by (auto simp: bind_eq_Some_conv)
  then show ?case using Cons.IH by (meson converse_rtranclp_into_rtranclp th_step.run)
qed simp

lemma run_thread_reach: "th_step\<^sup>*\<^sup>* no_threads s \<Longrightarrow> run_thread i rcs s = Some s' \<Longrightarrow> th_step\<^sup>*\<^sup>* no_threads s'"
  using run_thread_steps by (meson rtranclp_trans)

lemma start_reach:
  "th_step\<^sup>*\<^sup>* no_threads s \<Longrightarrow> tasks s i = None \<Longrightarrow>
   th_step\<^sup>*\<^sup>* no_threads (snd (start_thread_obtaining_mutex alloc create_rc i junk m w r s))"
  by (metis prod.collapse rtranclp.rtrancl_into_rtrancl th_step.start)

lemma reach_refl: "th_step\<^sup>*\<^sup>* no_threads no_threads" by simp

definition calls_left :: "thread_pc \<Rightarrow> nat" where
  "calls_left p = (case p of Sleep_before \<Rightarrow> 4 | Lock_mutex \<Rightarrow> 3 | Sleep_holding \<Rightarrow> 2
     | Unlock_failed_sleep \<Rightarrow> 1 | Unlock_mutex \<Rightarrow> 1 | Returned \<Rightarrow> 0)"

lemma threadfunc_step_calls_left:
  "threadfunc_step i rc s = Some s' \<Longrightarrow> tasks s i = Some t \<Longrightarrow>
   \<exists>t'. tasks s' i = Some t' \<and> calls_left (pc t') < calls_left (pc t)"
  by (cases "pc t")
    (auto simp: threadfunc_step_def set_task_def note_sleep_def fail_task_def calls_left_def Let_def split: if_splits)

lemma run_thread_calls_left:
  "run_thread i rcs s = Some s' \<Longrightarrow> tasks s i = Some t \<Longrightarrow>
   \<exists>t'. tasks s' i = Some t' \<and> length rcs + calls_left (pc t') \<le> calls_left (pc t)"
proof (induction rcs arbitrary: s t)
  case (Cons rc rcs)
  then obtain s1 t1 where "run_thread i rcs s1 = Some s'" "tasks s1 i = Some t1"
    "calls_left (pc t1) < calls_left (pc t)"
    using threadfunc_step_calls_left by (auto simp: bind_eq_Some_conv) blast
  then show ?case using Cons.IH by fastforce
qed simp

section \<open>Properties\<close>

text \<open>
  C30:
  Mutual exclusion.  Whatever threads were started, in whatever order they ran and whichever of
  their calls failed, two threads between a successful lock and their unlock of the same mutex
  are the same thread, and the mutex is held by it.
\<close>

theorem threads_mutual_exclusion:
  assumes "th_step\<^sup>*\<^sup>* no_threads s"
    and "tasks s i = Some t" "holding t" and "tasks s j = Some u" "holding u"
    and "lock (param t) = lock (param u)"
  shows "i = j \<and> owner s (lock (param t)) = Some i"
proof -
  have "th_inv s" using assms(1) by (rule th_reach_inv)
  then have "owner s (lock (param t)) = Some i" "owner s (lock (param u)) = Some j"
    using assms(2-5) unfolding th_inv_def by blast+
  then show ?thesis using assms(6) by simp
qed


text \<open>
  C31:
  The threads cannot deadlock.  In every reachable state in which some thread has not returned
  and no thread returned while it owned a mutex, the next call of some thread can succeed.
\<close>

theorem threads_no_deadlock:
  assumes "th_step\<^sup>*\<^sup>* no_threads s"
    and "tasks s i = Some t" "pc t \<noteq> Returned"
    and "\<forall>m j u. owner s m = Some j \<and> tasks s j = Some u \<longrightarrow> pc u \<noteq> Returned"
  shows "\<exists>j s'. threadfunc_step j 0 s = Some s'"
proof -
  have free: "\<exists>s'. threadfunc_step j 0 s = Some s'" if "tasks s j = Some u" "holding u" for j u
    using that th_reach_inv [OF assms(1)]
    by (cases "pc u") (auto simp: threadfunc_step_def holding_def th_inv_def Let_def)
  consider "holding t" | "pc t = Sleep_before" | "pc t = Lock_mutex"
    using assms(3) by (cases "pc t") (auto simp: holding_def)
  then show ?thesis
  proof cases
    case 3
    show ?thesis
    proof (cases "owner s (lock (param t))")
      case None
      then show ?thesis using 3 assms(2) by (intro exI [of _ i]) (simp add: threadfunc_step_def Let_def)
    next
      case (Some j)
      then obtain u where "tasks s j = Some u" "holding u"
        using th_reach_track [OF assms(1)] assms(4) unfolding th_track_def owns_rightly_def by metis
      then show ?thesis using free by blast
    qed
  next
    case 2
    then show ?thesis using assms(2) by (intro exI [of _ i]) (simp add: threadfunc_step_def Let_def)
  qed (use assms(2) free in blast)
qed

text \<open>
  A thread whose mutex is free and whose calls all succeed returns after exactly four calls; it
  reports success, has slept the two times asked for, and gives the mutex back.  When the second
  sleep fails, the mutex is given back as well and the thread reports failure.  When memory or
  the thread cannot be had, \<^verbatim>\<open>start_thread_obtaining_mutex\<close> returns false and nothing has changed.
\<close>

theorem thread_runs_to_completion:
  assumes "owner s m = None"
    and "start_thread_obtaining_mutex alloc create_rc i junk m w r s = (ok, s1)"
  shows "(ok \<longleftrightarrow> alloc \<and> create_rc = 0) \<and>
    (\<not> ok \<longrightarrow> s1 = s) \<and>
    (ok \<longrightarrow> (\<exists>s' t. run_thread i [0, 0, 0, 0] s1 = Some s' \<and> tasks s' i = Some t \<and> pc t = Returned \<and>
       thread_complete_success (param t) \<and> slept s' i = [w * 1000, r * 1000] \<and> owner s' = owner s)) \<and>
    (ok \<longrightarrow> (\<exists>s' t. run_thread i [0, 0, -1, 0] s1 = Some s' \<and> tasks s' i = Some t \<and> pc t = Returned \<and>
       \<not> thread_complete_success (param t) \<and> owner s' = owner s))"
  using assms
  by (auto simp: start_thread_obtaining_mutex_def threadfunc_step_def set_task_def note_sleep_def
      fail_task_def usleep_arg_def Let_def fun_upd_idem split: if_splits)

text \<open>
  C33:
  No thread makes more than four calls: whatever the calls return, a run of a thread's steps has
  length at most four, and one of four steps ends with the thread returned.
\<close>

theorem thread_calls_bounded:
  assumes "run_thread i rcs s = Some s'" and "rcs \<noteq> []"
  shows "length rcs \<le> 4 \<and> (length rcs = 4 \<longrightarrow> (\<exists>t. tasks s' i = Some t \<and> pc t = Returned))"
proof -
  obtain t where t: "tasks s i = Some t"
    using assms by (cases rcs) (auto simp: threadfunc_step_def bind_eq_Some_conv)
  then obtain t' where "tasks s' i = Some t'" "length rcs + calls_left (pc t') \<le> calls_left (pc t)"
    using run_thread_calls_left [OF assms(1)] by blast
  moreover have "calls_left (pc t) \<le> 4" "calls_left (pc t') = 0 \<longleftrightarrow> pc t' = Returned"
    by (simp_all add: calls_left_def split: thread_pc.splits)
  ultimately show ?thesis by auto
qed

text \<open>
  Two threads on mutex 7: thread 1 holds it and thread 2 waits; and the state after thread 1 has
  returned.
\<close>

definition both_started :: threads where
  "both_started = snd (start_thread_obtaining_mutex True 0 2 False 7 5 6
     (snd (start_thread_obtaining_mutex True 0 1 False 7 3 4 no_threads)))"

definition one_holds :: threads where
  "one_holds = the (run_thread 2 [0] (the (run_thread 1 [0, 0] both_started)))"

definition one_done :: threads where
  "one_done = the (run_thread 1 [0, 0] one_holds)"

lemmas threads_eval = both_started_def one_holds_def one_done_def no_threads_def
  start_thread_obtaining_mutex_def threadfunc_step_def set_task_def note_sleep_def fail_task_def Let_def

lemma both_started_reach: "th_step\<^sup>*\<^sup>* no_threads both_started"
  unfolding both_started_def
  by (intro start_reach reach_refl) (simp_all add: threads_eval)

lemma one_holds_reach: "th_step\<^sup>*\<^sup>* no_threads one_holds"
proof -
  have "run_thread 1 [0, 0] both_started = Some (the (run_thread 1 [0, 0] both_started))"
    by (simp add: threads_eval)
  moreover have "run_thread 2 [0] (the (run_thread 1 [0, 0] both_started)) = Some one_holds"
    by (simp add: threads_eval)
  ultimately show ?thesis using both_started_reach run_thread_reach by metis
qed

lemma one_done_reach: "th_step\<^sup>*\<^sup>* no_threads one_done"
proof -
  have "run_thread 1 [0, 0] one_holds = Some one_done" by (simp add: threads_eval)
  then show ?thesis using one_holds_reach run_thread_reach by blast
qed

theorem threads_mutual_exclusion_witness:
  "\<exists>t. tasks one_holds 1 = Some t \<and> holding t \<and> owner one_holds 7 = Some 1"
proof -
  obtain t where "tasks one_holds 1 = Some t" "holding t" "lock (param t) = 7"
    by (simp add: threads_eval holding_def)
  then show ?thesis
    using threads_mutual_exclusion [OF one_holds_reach, of 1 t 1 t] by auto
qed


theorem threads_no_deadlock_witness: "\<exists>j s'. threadfunc_step j 0 one_holds = Some s'"
proof -
  obtain t where "tasks one_holds 2 = Some t" "pc t \<noteq> Returned"
    by (simp add: threads_eval)
  moreover have "\<forall>m j u. owner one_holds m = Some j \<and> tasks one_holds j = Some u \<longrightarrow> pc u \<noteq> Returned"
    by (simp add: threads_eval)
  ultimately show ?thesis using threads_no_deadlock [OF one_holds_reach] by blast
qed

theorem thread_runs_to_completion_witness:
  "\<exists>s' t. run_thread 1 [0, 0, 0, 0] (snd (start_thread_obtaining_mutex True 0 1 False 7 3 4 no_threads)) = Some s' \<and>
     tasks s' 1 = Some t \<and> thread_complete_success (param t) \<and> slept s' 1 = [3000, 4000]"
  using thread_runs_to_completion [of no_threads 7 True 0 1 False 3 4 True
      "snd (start_thread_obtaining_mutex True 0 1 False 7 3 4 no_threads)"]
  by (auto simp: no_threads_def start_thread_obtaining_mutex_def Let_def)

theorem thread_calls_bounded_witness:
  "\<exists>t. tasks (the (run_thread 1 [0, 0, 0, 0] both_started)) 1 = Some t \<and> pc t = Returned"
proof -
  have "run_thread 1 [0, 0, 0, 0] both_started = Some (the (run_thread 1 [0, 0, 0, 0] both_started))"
    by (simp add: threads_eval)
  then show ?thesis using thread_calls_bounded by fastforce
qed

end
