(* ===== verification/Writer.thy ===== *)
theory Writer
  imports Prelude
begin

text \<open>
  The \<^verbatim>\<open>writer\<close> utility of \<^verbatim>\<open>finder-app/writer.c\<close>: it writes its second argument into the file its first
  argument names.  The state is the file system, as a map from paths to contents, with the
  messages sent to the system log and to standard output.  What \<^verbatim>\<open>open\<close> and \<^verbatim>\<open>write\<close> answer is given
  by the environment.  Undefined behaviour of the C program is the result \<open>None\<close>.
\<close>

section \<open>State and environment\<close>

datatype log_message =
    Error_opening string int
  | Failed_to_write string string int
  | Writing string string

datatype out_message =
    Invalid_number_of_arguments nat string string string
  | Usage
  | Writes_the_given_string

record writer_state =
  files :: "string \<rightharpoonup> string"
  syslog :: "log_message list"
  printed :: "out_message list"

text \<open>
  \<open>open_result\<close> is \<open>None\<close> when \<^verbatim>\<open>open\<close> succeeds and the value of \<^verbatim>\<open>errno\<close> otherwise.  \<open>write_result n\<close> is what
  \<^verbatim>\<open>write\<close> on a good descriptor answers when asked for \<open>n\<close> bytes: -1, or how many it took, at most \<open>n\<close>.
  \<open>write_errno\<close> is \<^verbatim>\<open>errno\<close> after the write.
\<close>

record writer_env =
  open_result :: "int option"
  write_result :: "nat \<Rightarrow> int"
  write_errno :: int

section \<open>The system calls it makes\<close>

text \<open>
  \<^verbatim>\<open>open\<close> with \<^verbatim>\<open>O_WRONLY | O_CREAT\<close> makes an empty file when there is none and keeps the contents of an
  existing one.  \<^verbatim>\<open>write\<close> on the fresh descriptor replaces the first bytes of the file, on the
  descriptor -1 it fails.
\<close>

definition open_creat :: "writer_env \<Rightarrow> string \<Rightarrow> writer_state \<Rightarrow> string option \<times> writer_state" where
  "open_creat e path s =
     (if open_result e = None
      then (Some path, if files s path = None then s\<lparr>files := (files s)(path \<mapsto> [])\<rparr> else s)
      else (None, s))"

definition write_at_start ::
  "writer_env \<Rightarrow> string option \<Rightarrow> string \<Rightarrow> nat \<Rightarrow> writer_state \<Rightarrow> int \<times> writer_state" where
  "write_at_start e fd buf n s =
     (case fd of
        None \<Rightarrow> (-1, s)
      | Some path \<Rightarrow>
          let k = write_result e n; old = (case files s path of None \<Rightarrow> [] | Some c \<Rightarrow> c) in
          (k, if 0 < k
              then s\<lparr>files := (files s)(path \<mapsto> take (nat k) buf @ drop (nat k) old)\<rparr> else s))"

section \<open>The program\<close>

text \<open>
  \<^verbatim>\<open>argv\<close> has \<^verbatim>\<open>argc\<close> strings and a null pointer behind them.  The program reads \<^verbatim>\<open>argv[2]\<close> and takes its
  length before it looks at \<^verbatim>\<open>argc\<close>: with fewer than three arguments that is a null pointer or past
  the end of the array.  The length of an argument fits an \<^verbatim>\<open>int\<close>: the system limits it to 128 KiB.
\<close>

definition writer_main :: "writer_env \<Rightarrow> string list \<Rightarrow> writer_state \<Rightarrow> (int \<times> writer_state) option" where
  "writer_main e argv s =
     (if length argv < 3 then None
      else let file = argv ! 1; string = argv ! 2; str_len = length string in
        if length argv \<noteq> 3 then
          Some (1, s\<lparr>printed := printed s @
            [Invalid_number_of_arguments (length argv) (argv ! 0) (argv ! 1) (argv ! 2), Usage,
             Writes_the_given_string]\<rparr>)
        else
          let (fd, s1) = open_creat e file s;
              s2 = (case open_result e of
                      None \<Rightarrow> s1
                    | Some errno \<Rightarrow> s1\<lparr>syslog := syslog s1 @ [Error_opening file errno]\<rparr>);
              (written_bytes, s3) = write_at_start e fd string str_len s2
          in Some (0, s3\<lparr>syslog := syslog s3 @
               [if written_bytes \<noteq> int str_len then Failed_to_write string file (write_errno e)
                else Writing string file]\<rparr>))"

section \<open>Properties\<close>

lemma writer_main_three:
  "writer_main e [prog, file, str] s =
     (let (fd, s1) = open_creat e file s;
          s2 = (case open_result e of
                  None \<Rightarrow> s1
                | Some errno \<Rightarrow> s1\<lparr>syslog := syslog s1 @ [Error_opening file errno]\<rparr>);
          (k, s3) = write_at_start e fd str (length str) s2
      in Some (0, s3\<lparr>syslog := syslog s3 @
           [if k \<noteq> int (length str) then Failed_to_write str file (write_errno e) else Writing str file]\<rparr>))"
  by (simp add: writer_main_def Let_def)

text \<open>
  C35:
  With the two arguments and a file system that cooperates, the writer returns 0, reports the
  write in the log and leaves every other file alone.  The named file then starts with the
  string; when it was longer before, its old tail is still there, since the file is opened
  without being truncated.
\<close>

theorem writer_writes_string:
  assumes "open_result e = None" and "write_result e (length str) = int (length str)"
  shows "\<exists>s'. writer_main e [prog, file, str] s = Some (0, s') \<and>
    files s' = (files s)(file \<mapsto>
      str @ drop (length str) (case files s file of None \<Rightarrow> [] | Some old \<Rightarrow> old)) \<and>
    syslog s' = syslog s @ [Writing str file] \<and> printed s' = printed s"
  using assms
  by (cases "files s file")
    (auto simp: writer_main_three open_creat_def write_at_start_def Let_def fun_upd_idem)

text \<open>
  The exit status of the writer depends on the number of arguments alone.  With more than two it
  is 1, the usage is printed and no file is touched; with two it is 0, also when the file cannot
  be opened or not all bytes are written, in which case the log has an error and only the named
  file may have changed; with fewer the program reads a string that is not there.
\<close>

theorem writer_exit_status:
  "(writer_main e argv s = None \<longleftrightarrow> length argv < 3) \<and>
    (length argv > 3 \<longrightarrow> (\<exists>s'. writer_main e argv s = Some (1, s') \<and> files s' = files s \<and>
       syslog s' = syslog s \<and> Usage \<in> set (printed s'))) \<and>
    (length argv = 3 \<longrightarrow> (\<exists>s'. writer_main e argv s = Some (0, s') \<and>
       (\<forall>f. f \<noteq> argv ! 1 \<longrightarrow> files s' f = files s f) \<and>
       (open_result e \<noteq> None \<longrightarrow> files s' = files s) \<and>
       (open_result e \<noteq> None \<or> write_result e (length (argv ! 2)) \<noteq> int (length (argv ! 2)) \<longrightarrow>
          Failed_to_write (argv ! 2) (argv ! 1) (write_errno e) \<in> set (syslog s'))))"
  by (auto simp: writer_main_def open_creat_def write_at_start_def Let_def split: option.splits)

theorem writer_writes_string_witness:
  "\<exists>s'. writer_main \<lparr>open_result = None, write_result = int, write_errno = 0\<rparr> [''writer'', ''f'', ''ab'']
      \<lparr>files = [''f'' \<mapsto> ''12345''], syslog = [], printed = []\<rparr> = Some (0, s') \<and> files s' ''f'' = Some ''ab345''"
  using writer_writes_string [of "\<lparr>open_result = None, write_result = int, write_errno = 0\<rparr>" "''ab''" "''writer''"
      "''f''" "\<lparr>files = [''f'' \<mapsto> ''12345''], syslog = [], printed = []\<rparr>"]
  by auto

theorem writer_exit_status_witness:
  "\<exists>s'. writer_main \<lparr>open_result = Some 2, write_result = int, write_errno = 9\<rparr> [''writer'', ''/no/f'', ''ab'']
      \<lparr>files = Map.empty, syslog = [], printed = []\<rparr> = Some (0, s') \<and> files s' = Map.empty \<and>
      Failed_to_write ''ab'' ''/no/f'' 9 \<in> set (syslog s')"
  using writer_exit_status [of "\<lparr>open_result = Some 2, write_result = int, write_errno = 9\<rparr>"
      "[''writer'', ''/no/f'', ''ab'']" "\<lparr>files = Map.empty, syslog = [], printed = []\<rparr>"]
  by auto

end
